(* ===== verification/CPrelude.thy ===== *)
theory CPrelude
  imports Main "HOL-Library.Word" "HOL-Library.List_Lexorder"
begin

text \<open>
  The shared layer of the development: the machine integers of the 32-bit ARM target, the
  errors a routine can end in, results as sums (\<open>Inl\<close> the error, \<open>Inr\<close> the value), the
  byte-addressed memory the C and C++ code works on, NUL-terminated strings, and the loop
  combinator \<open>c_while\<close> used where the source has a loop that need not end.
\<close>

unbundle bit_operations_syntax

section \<open>Machine integers\<close>

type_synonym u8 = "8 word"
type_synonym u16 = "16 word"
type_synonym u32 = "32 word"
type_synonym u64 = "64 word"

named_theorems res_simps "equations that push results and bindings through the code's models"
named_theorems mem_simps "reading and writing the byte-addressed memory"
named_theorems abi_defs "the values of the constants of the Mach-O ABI"

lemma and_0x7f: "(b :: u8) AND 0x7f = take_bit 7 b"
  by (simp add: take_bit_eq_mask mask_eq_exp_minus_1)

lemma and_0x80: "(b :: u8) AND 0x80 \<noteq> 0 \<longleftrightarrow> bit b 7"
  using and_exp_eq_0_iff_not_bit [of b 7] by simp

lemma and_0x40: "(b :: u8) AND 0x40 \<noteq> 0 \<longleftrightarrow> bit b 6"
  using and_exp_eq_0_iff_not_bit [of b 6] by simp

lemma ucast_scast_u32: "ucast (scast (x :: u32) :: u64) = x"
  by (rule bit_word_eqI) (auto simp: bit_simps)

section \<open>Errors and results\<close>

text \<open>
  The messages of \<open>lnk::halt\<close> (src/core/lnk.cpp). The function prints its message and leaves
  the process by \<open>_exit\<close>, so a halt is the final result of every caller.
\<close>

datatype halt_msg =
    MalformedUleb128 | Uleb128TooBig | MalformedSleb128
  | BadSegmentCountForRebase | BadRebaseType | InvalidRebaseOpcode
  | BadBindingAddress | InvalidBindOpcode | InvalidLazyBindOpcode
  | BadBindType | OrdinalOutOfRange
  | SymbolNotInTrie | ReexportUnsupported | ResolverUnsupported | ExportKindUnsupported
  | NoWritableSegment | NoDynamicInfo | NoDyldInfo
  | AbsoluteLocalReloc | BadLocalRelocType | BadLocalRelocLength
  | BadScatteredRelocType | BadScatteredRelocLength
  | BadExternRelocType | BadExternRelocSize | ThumbExternReloc
  | AbsoluteIndirectSymbol | MalformedClassicImage
  | InvalidMagic | NoSegments | SegmentlessFile | SymtabBeforeLinkedit | DependencyFailed
  | InvalidElfReloc | MissingDynamicSegment | RelaUnsupported | NeededBeforeStrtab
  | NotMachO | NotImplemented

text \<open>
  The ways a routine stops short: a halt, an access to an address that is not mapped (the
  address is kept), a step the language leaves undefined, or a loop that never ends.
\<close>

datatype c_error = Halt halt_msg | Fault u32 | Undefined | Hang

type_synonym 'a res = "c_error + 'a"

definition bindR :: "'e + 'a \<Rightarrow> ('a \<Rightarrow> 'e + 'b) \<Rightarrow> 'e + 'b" where
  "bindR r f = (case r of Inl e \<Rightarrow> Inl e | Inr x \<Rightarrow> f x)"

lemma bindR_Inl [simp, res_simps]: "bindR (Inl e) f = Inl e"
  by (simp add: bindR_def)

lemma bindR_Inr [simp, res_simps]: "bindR (Inr x) f = f x"
  by (simp add: bindR_def)

lemma bindR_eq_Inr_iff [simp]: "bindR r f = Inr y \<longleftrightarrow> (\<exists>x. r = Inr x \<and> f x = Inr y)"
  by (cases r) simp_all

lemma bindR_eq_Inl_iff:
  "bindR r f = Inl e \<longleftrightarrow> r = Inl e \<or> (\<exists>x. r = Inr x \<and> f x = Inl e)"
  by (cases r) simp_all

lemma bindR_assoc [res_simps]: "bindR (bindR r f) g = bindR r (\<lambda>x. bindR (f x) g)"
  by (cases r) simp_all

lemma bindR_return [simp, res_simps]: "bindR r Inr = r"
  by (cases r) simp_all

lemma bindR_cong [fundef_cong]:
  "r = r' \<Longrightarrow> (\<And>x. r' = Inr x \<Longrightarrow> f x = f' x) \<Longrightarrow> bindR r f = bindR r' f'"
  by (cases r') simp_all

definition mapR :: "('a \<Rightarrow> 'b) \<Rightarrow> 'e + 'a \<Rightarrow> 'e + 'b" where
  "mapR f r = bindR r (\<lambda>x. Inr (f x))"

lemma mapR_simps [simp, res_simps]: "mapR f (Inl e) = Inl e" "mapR f (Inr x) = Inr (f x)"
  by (simp_all add: mapR_def)

lemma mapR_eq_Inr_iff [simp]: "mapR f r = Inr y \<longleftrightarrow> (\<exists>x. r = Inr x \<and> y = f x)"
  by (cases r) auto

definition is_ok :: "'e + 'a \<Rightarrow> bool" where
  "is_ok r = (case r of Inl _ \<Rightarrow> False | Inr _ \<Rightarrow> True)"

lemma is_ok_simps [simp]: "is_ok (Inl e) = False" "is_ok (Inr x) = True"
  by (simp_all add: is_ok_def)

lemma is_ok_iff: "is_ok r \<longleftrightarrow> (\<exists>x. r = Inr x)"
  by (cases r) simp_all

section \<open>Loops\<close>

text \<open>
  \<open>c_while b c s\<close> is \<open>while (b) { c }\<close> where the body may stop with an error: \<open>None\<close> is a
  loop that never ends, \<open>Some (Inl e)\<close> one left by an error, \<open>Some (Inr s)\<close> one that ended.
\<close>

partial_function (option) c_while ::
  "('s \<Rightarrow> bool) \<Rightarrow> ('s \<Rightarrow> 'e + 's) \<Rightarrow> 's \<Rightarrow> ('e + 's) option" where
  "c_while b c s =
     (if b s then (case c s of Inl e \<Rightarrow> Some (Inl e) | Inr s' \<Rightarrow> c_while b c s')
      else Some (Inr s))"

lemma c_while_stop: "\<not> b s \<Longrightarrow> c_while b c s = Some (Inr s)"
  by (simp add: c_while.simps)

lemma c_while_step: "b s \<Longrightarrow> c s = Inr s' \<Longrightarrow> c_while b c s = c_while b c s'"
  by (simp add: c_while.simps [of b c s])

lemma c_while_fail: "b s \<Longrightarrow> c s = Inl e \<Longrightarrow> c_while b c s = Some (Inl e)"
  by (simp add: c_while.simps [of b c s])

lemmas c_while_cases = c_while_stop c_while_step c_while_fail

text \<open>Total correctness: an invariant, a measure the body decreases, and what errors may be.\<close>

lemma c_while_total:
  fixes f :: "'s \<Rightarrow> nat"
  assumes "P s"
    and step: "\<And>s s'. P s \<Longrightarrow> b s \<Longrightarrow> c s = Inr s' \<Longrightarrow> P s' \<and> f s' < f s"
    and err: "\<And>s e. P s \<Longrightarrow> b s \<Longrightarrow> c s = Inl e \<Longrightarrow> E e"
  shows "\<exists>r. c_while b c s = Some r \<and>
           (case r of Inl e \<Rightarrow> E e | Inr t \<Rightarrow> P t \<and> \<not> b t)"
  using \<open>P s\<close>
proof (induction "f s" arbitrary: s rule: less_induct)
  case less
  show ?case
  proof (cases "b s")
    case False
    with less.prems show ?thesis by (simp add: c_while_stop)
  next
    case True
    show ?thesis
    proof (cases "c s")
      case (Inl e)
      with True less.prems show ?thesis by (simp add: c_while_fail err)
    next
      case (Inr s')
      with True less.prems have "P s'" "f s' < f s" by (simp_all add: step)
      with less.hyps Inr True show ?thesis by (simp add: c_while_step)
    qed
  qed
qed

text \<open>Partial correctness: an invariant the body keeps holds of whatever state the loop ends in.\<close>

lemma c_while_invariant:
  fixes c :: "'s \<Rightarrow> 'e + 's" and s t :: 's
  assumes ret: "c_while b c s = Some (Inr t)" and "P s"
    and step: "\<And>s s'. P s \<Longrightarrow> b s \<Longrightarrow> c s = Inr s' \<Longrightarrow> P s'"
  shows "P t \<and> \<not> b t"
proof -
  have "b = b \<longrightarrow> c = c \<longrightarrow> P s \<longrightarrow> (\<forall>t'. Inr t = (Inr t' :: 'e + 's) \<longrightarrow> P t' \<and> \<not> b t')"
    by (rule c_while.raw_induct [where P = "\<lambda>b' c' s r. b' = b \<longrightarrow> c' = c \<longrightarrow> P s \<longrightarrow>
          (\<forall>t'. r = Inr t' \<longrightarrow> P t' \<and> \<not> b t')", OF _ ret])
       (auto split: if_splits sum.splits dest: step)
  with \<open>P s\<close> show ?thesis by simp
qed

text \<open>
  Simulation: a second loop whose guard agrees and whose body follows every step of the first
  that returns ends in a related state wherever the first loop ends.
\<close>

lemma c_while_simulation:
  fixes c :: "'s \<Rightarrow> 'e + 's" and s t :: 's and c' :: "'t \<Rightarrow> 'f + 't"
  assumes ret: "c_while b c s = Some (Inr t)" and "R s s'"
    and guard: "\<And>s s'. R s s' \<Longrightarrow> b' s' \<longleftrightarrow> b s"
    and step: "\<And>s s' s1. R s s' \<Longrightarrow> b s \<Longrightarrow> c s = Inr s1 \<Longrightarrow> \<exists>s1'. c' s' = Inr s1' \<and> R s1 s1'"
  shows "\<exists>t'. c_while b' c' s' = Some (Inr t') \<and> R t t'"
proof -
  let ?P = "\<lambda>b1 c1 s r. b1 = b \<longrightarrow> c1 = c \<longrightarrow> (\<forall>s'. R s s' \<longrightarrow> (\<forall>t. r = Inr t \<longrightarrow>
      (\<exists>t'. c_while b' c' s' = Some (Inr t') \<and> R t t')))"
  have "?P b c s (Inr t :: 'e + 's)"
  proof (rule c_while.raw_induct [where P = ?P, OF _ ret], intro impI allI)
    fix cw b1 s1 r u s1' and c1 :: "'s \<Rightarrow> 'e + 's"
    assume IH: "\<And>b1 c1 s r. cw b1 c1 s = Some r \<Longrightarrow> ?P b1 c1 s r"
      and eq: "(if b1 s1 then case c1 s1 of Inl e \<Rightarrow> Some (Inl e) | Inr x \<Rightarrow> cw b1 c1 x
                else Some (Inr s1)) = Some r"
      and [simp]: "b1 = b" "c1 = c" and R: "R s1 s1'" and r: "r = Inr u"
    show "\<exists>t'. c_while b' c' s1' = Some (Inr t') \<and> R u t'"
    proof (cases "b s1")
      case False
      with eq r guard [OF R] R show ?thesis by (auto simp: c_while_stop)
    next
      case True
      with eq r obtain s2 where s2: "c s1 = Inr s2" "cw b c s2 = Some (Inr u)"
        by (auto split: sum.splits)
      from step [OF R True s2(1)] obtain s2' where s2': "c' s1' = Inr s2'" "R s2 s2'" by blast
      from IH [OF s2(2)] s2'(2) obtain t' where "c_while b' c' s2' = Some (Inr t')" "R u t'" by blast
      with True guard [OF R] s2'(1) c_while_step [of b' s1' c' s2'] show ?thesis by auto
    qed
  qed
  with \<open>R s s'\<close> show ?thesis by blast
qed

text \<open>
  A loop inside a routine that returns a result: never ending is one of the ways to stop
  short. \<open>first_some\<close> is the loop that asks one after the other and stops at the first answer.
\<close>

definition run_loop :: "'a res option \<Rightarrow> 'a res" where
  "run_loop r = (case r of None \<Rightarrow> Inl Hang | Some x \<Rightarrow> x)"

lemma run_loop_simps [simp, res_simps]: "run_loop None = Inl Hang" "run_loop (Some x) = x"
  by (simp_all add: run_loop_def)

lemma run_loop_eq_Inr_iff [simp]: "run_loop r = Inr x \<longleftrightarrow> r = Some (Inr x)"
  by (cases r) simp_all

fun first_some :: "('a \<Rightarrow> 'b option res option) \<Rightarrow> 'a list \<Rightarrow> 'b option res option" where
  "first_some f [] = Some (Inr None)"
| "first_some f (x # xs) = Option.bind (f x) (\<lambda>r. case r of
     Inl e \<Rightarrow> Some (Inl e) | Inr (Some y) \<Rightarrow> Some (Inr (Some y)) | Inr None \<Rightarrow> first_some f xs)"

lemma first_some_mono [partial_function_mono]:
  fixes g :: "('c \<Rightarrow> 'd option) \<Rightarrow> 'a \<Rightarrow> 'b option res option"
  assumes "\<And>x. mono_option (\<lambda>f. g f x)"
  shows "mono_option (\<lambda>f. first_some (g f) xs)"
proof (induction xs)
  case (Cons x xs)
  show ?case
  proof (rule monotoneI)
    fix h k :: "'c \<Rightarrow> 'd option" assume le: "fun_ord option_ord h k"
    have g: "option_ord (g h x) (g k x)" using assms le unfolding monotone_def by blast
    have xs: "option_ord (first_some (g h) xs) (first_some (g k) xs)"
      using Cons.IH le unfolding monotone_def by blast
    show "option_ord (first_some (g h) (x # xs)) (first_some (g k) (x # xs))"
      using g xs by (cases "g k x") (auto simp: flat_ord_def split: sum.splits option.splits)
  qed
qed (simp add: monotone_def flat_ord_def)

section \<open>Byte-addressed memory\<close>

text \<open>
  The 32-bit address space: \<open>None\<close> is an address that is not mapped, and touching it is a
  \<open>Fault\<close>. Words are little-endian, as on the target.
\<close>

type_synonym mem = "u32 \<Rightarrow> u8 option"

definition rd8 :: "mem \<Rightarrow> u32 \<Rightarrow> u8 res" where
  "rd8 m a = (case m a of None \<Rightarrow> Inl (Fault a) | Some b \<Rightarrow> Inr b)"

lemma rd8_Some [simp, mem_simps]: "m a = Some b \<Longrightarrow> rd8 m a = Inr b"
  by (simp add: rd8_def)

lemma rd8_eq_Inr_iff [simp]: "rd8 m a = Inr b \<longleftrightarrow> m a = Some b"
  by (simp add: rd8_def split: option.split)

definition le32 :: "u8 \<Rightarrow> u8 \<Rightarrow> u8 \<Rightarrow> u8 \<Rightarrow> u32" where
  "le32 b0 b1 b2 b3 = ucast b0 OR push_bit 8 (ucast b1) OR push_bit 16 (ucast b2) OR
     push_bit 24 (ucast b3)"

definition byte_of :: "nat \<Rightarrow> u32 \<Rightarrow> u8" where
  "byte_of i w = ucast (drop_bit (8 * i) w)"

lemma le32_byte_of [mem_simps]:
  "le32 (byte_of 0 w) (byte_of 1 w) (byte_of 2 w) (byte_of 3 w) = w"
proof (rule bit_word_eqI)
  fix n :: nat
  assume "n < LENGTH(32)"
  then consider "n < 8" | "8 \<le> n" "n < 16" | "16 \<le> n" "n < 24" | "24 \<le> n" "n < 32"
    by fastforce
  then show "bit (le32 (byte_of 0 w) (byte_of 1 w) (byte_of 2 w) (byte_of 3 w)) n = bit w n"
    by cases (auto simp: le32_def byte_of_def bit_simps)
qed

definition rd32 :: "mem \<Rightarrow> u32 \<Rightarrow> u32 res" where
  "rd32 m a = bindR (rd8 m a) (\<lambda>b0. bindR (rd8 m (a + 1)) (\<lambda>b1.
     bindR (rd8 m (a + 2)) (\<lambda>b2. bindR (rd8 m (a + 3)) (\<lambda>b3. Inr (le32 b0 b1 b2 b3)))))"

definition wr32 :: "mem \<Rightarrow> u32 \<Rightarrow> u32 \<Rightarrow> mem res" where
  "wr32 m a v =
     (if m a \<noteq> None \<and> m (a + 1) \<noteq> None \<and> m (a + 2) \<noteq> None \<and> m (a + 3) \<noteq> None
      then Inr (m(a \<mapsto> byte_of 0 v, a + 1 \<mapsto> byte_of 1 v, a + 2 \<mapsto> byte_of 2 v,
                  a + 3 \<mapsto> byte_of 3 v))
      else Inl (Fault a))"

definition mapped32 :: "mem \<Rightarrow> u32 \<Rightarrow> bool" where
  "mapped32 m a \<longleftrightarrow> m a \<noteq> None \<and> m (a + 1) \<noteq> None \<and> m (a + 2) \<noteq> None \<and> m (a + 3) \<noteq> None"

lemma rd32_ok_iff: "is_ok (rd32 m a) \<longleftrightarrow> mapped32 m a"
  by (auto simp: rd32_def mapped32_def is_ok_iff)

lemma wr32_ok_iff: "is_ok (wr32 m a v) \<longleftrightarrow> mapped32 m a"
  by (simp add: wr32_def mapped32_def)

lemma rd32_wr32 [mem_simps]:
  assumes "wr32 m a v = Inr m'"
  shows "rd32 m' a = Inr v"
  using assms by (auto simp: wr32_def rd32_def le32_byte_of [simplified] split: if_splits)

definition word_bytes :: "u32 \<Rightarrow> u32 set" where
  "word_bytes a = {a, a + 1, a + 2, a + 3}"

lemma wr32_frame: "wr32 m a v = Inr m' \<Longrightarrow> b \<notin> word_bytes a \<Longrightarrow> m' b = m b"
  by (auto simp: wr32_def word_bytes_def split: if_splits)

lemma wr32_dom: "wr32 m a v = Inr m' \<Longrightarrow> dom m' = dom m"
  by (auto simp: wr32_def split: if_splits)

text \<open>No address is mapped or unmapped.\<close>

definition same_dom :: "mem \<Rightarrow> mem \<Rightarrow> bool" where
  "same_dom m m' \<longleftrightarrow> dom m' = dom m"

lemma same_dom_refl [simp, intro]: "same_dom m m"
  by (simp add: same_dom_def)

lemma same_dom_trans [trans]: "same_dom m m' \<Longrightarrow> same_dom m' m'' \<Longrightarrow> same_dom m m''"
  by (simp add: same_dom_def)

lemma wr32_same_dom: "wr32 m a v = Inr m' \<Longrightarrow> same_dom m m'"
  by (simp add: same_dom_def wr32_dom)

lemma mapped32_dom: "mapped32 m a \<longleftrightarrow> word_bytes a \<subseteq> dom m"
  by (auto simp: mapped32_def word_bytes_def)

lemma rd32_cong_bytes: "(\<And>b. b \<in> word_bytes a \<Longrightarrow> m' b = m b) \<Longrightarrow> rd32 m' a = rd32 m a"
  by (simp add: rd32_def rd8_def word_bytes_def)

lemma rd32_wr32_other:
  "wr32 m a v = Inr m' \<Longrightarrow> word_bytes a \<inter> word_bytes b = {} \<Longrightarrow> rd32 m' b = rd32 m b"
  by (rule rd32_cong_bytes) (auto dest: wr32_frame)

text \<open>Writing back what is there changes nothing.\<close>

lemma byte_of_le32 [mem_simps]:
  "byte_of 0 (le32 b0 b1 b2 b3) = b0" "byte_of 1 (le32 b0 b1 b2 b3) = b1"
  "byte_of 2 (le32 b0 b1 b2 b3) = b2" "byte_of 3 (le32 b0 b1 b2 b3) = b3"
  by (rule bit_word_eqI; auto simp: le32_def byte_of_def bit_simps dest: bit_imp_le_length)+

lemma wr32_same: "rd32 m a = Inr v \<Longrightarrow> wr32 m a v = Inr m"
  by (auto simp: rd32_def wr32_def byte_of_le32 byte_of_le32 [simplified] fun_eq_iff)

definition rd16 :: "mem \<Rightarrow> u32 \<Rightarrow> u16 res" where
  "rd16 m a = bindR (rd8 m a) (\<lambda>b0. bindR (rd8 m (a + 1)) (\<lambda>b1.
     Inr (ucast b0 OR push_bit 8 (ucast b1))))"

section \<open>Bytes and strings in memory\<close>

fun bytes_at :: "mem \<Rightarrow> u32 \<Rightarrow> u8 list \<Rightarrow> bool" where
  "bytes_at m p [] = True"
| "bytes_at m p (b # bs) = (m p = Some b \<and> bytes_at m (p + 1) bs)"

lemma bytes_at_append [simp]:
  "bytes_at m p (xs @ ys) \<longleftrightarrow> bytes_at m p xs \<and> bytes_at m (p + of_nat (length xs)) ys"
  by (induction xs arbitrary: p) (auto simp: algebra_simps)

text \<open>A memory that holds a list of bytes from an address on, and nothing else.\<close>

definition mem_of :: "u32 \<Rightarrow> u8 list \<Rightarrow> mem" where
  "mem_of base bs = (\<lambda>a. if unat (a - base) < length bs then Some (bs ! unat (a - base)) else None)"

text \<open>
  The string a \<open>char *\<close> points to, without its terminator. A pointer that runs off the end of
  the address space is undefined.
\<close>

lemma unat_ptr_Suc: "p \<noteq> - 1 \<Longrightarrow> unat (p + 1 :: u32) = Suc (unat p)"
  using unatSuc [of p] by (simp add: add.commute add_eq_0_iff)

lemma unat_u32_less: "unat (p :: u32) < 4294967296"
  using unsigned_less [of p] by simp

lemma ptr_below_not_max:
  assumes "unat (p :: u32) < unat (e :: u32)"
  shows "p \<noteq> - 1"
proof -
  from assms have "p < e" by (simp add: word_less_nat_alt)
  then show ?thesis using not_less by force
qed

lemma diff_less_ptr: "4294967295 - unat (p :: u32) < 4294967296 - unat p"
  using unat_u32_less [of p] by arith

function cstr_at :: "mem \<Rightarrow> u32 \<Rightarrow> u8 list res" where
  "cstr_at m p = bindR (rd8 m p) (\<lambda>c.
     if c = 0 then Inr []
     else if p = - 1 then Inl Undefined
     else mapR (Cons c) (cstr_at m (p + 1)))"
  by pat_completeness auto
termination
  by (relation "measure (\<lambda>(m, p). 2 ^ 32 - unat p)")
     (auto simp: unat_ptr_Suc intro!: diff_less_ptr)

declare cstr_at.simps [simp del]

text \<open>\<open>strcmp\<close> of a string with the one at an address: the sign of the first difference.\<close>

fun strcmp_at :: "mem \<Rightarrow> u8 list \<Rightarrow> u32 \<Rightarrow> int res" where
  "strcmp_at m [] p = bindR (rd8 m p) (\<lambda>c. Inr (0 - uint c))"
| "strcmp_at m (k # ks) p = bindR (rd8 m p) (\<lambda>c.
     if k = c then strcmp_at m ks (p + 1) else Inr (uint k - uint c))"

end
