(* ===== verification/LnkUtil.thy ===== *)
theory LnkUtil
  imports CPrelude
begin

text \<open>
  The linker's utilities (src/core/lnk_util.cpp): the variable-length integers of the
  compressed link-edit tables, the two binary searches over a classic symbol table and the
  walk of an export trie. Pointers are addresses of the byte memory; a NULL result is
  \<open>None\<close>.
\<close>

section \<open>Variable-length integers\<close>

text \<open>
  \<open>read_uleb128\<close>: seven bits a byte, least significant first, in a 64-bit accumulator. The
  pointer is taken by reference, so the model returns it moved; \<open>uintptr_t\<close> is 32 bits wide,
  so the result is cut to its low half.
\<close>

function read_uleb128_loop :: "mem \<Rightarrow> u32 \<Rightarrow> u32 \<Rightarrow> u64 \<Rightarrow> nat \<Rightarrow> (u64 \<times> u32) res" where
  "read_uleb128_loop m end p result bit' =
     (if p = end then Inl (Halt MalformedUleb128)
      else bindR (rd8 m p) (\<lambda>b.
        let slice = ucast (b AND 0x7f) in
        if bit' > 63 then Inl (Halt Uleb128TooBig)
        else
          let result = result OR push_bit bit' slice; bit' = bit' + 7 in
          if b AND 0x80 \<noteq> 0 then read_uleb128_loop m end (p + 1) result bit'
          else Inr (result, p + 1)))"
  by pat_completeness auto
termination
  by (relation "measure (\<lambda>(m, e, p, result, bit'). 71 - bit')") auto

declare read_uleb128_loop.simps [simp del]

definition read_uleb128 :: "mem \<Rightarrow> u32 \<Rightarrow> u32 \<Rightarrow> (u32 \<times> u32) res" where
  "read_uleb128 m p end =
     mapR (\<lambda>(result, p). (ucast result, p)) (read_uleb128_loop m end p 0 0)"

text \<open>
  \<open>read_sleb128\<close>: the slice is an \<open>int\<close>, so a shift by 32 or more is undefined; a smaller
  one that reaches the sign bit is sign-extended into the 64-bit accumulator.
\<close>

function read_sleb128_loop ::
    "mem \<Rightarrow> u32 \<Rightarrow> u32 \<Rightarrow> u64 \<Rightarrow> nat \<Rightarrow> (u64 \<times> nat \<times> u8 \<times> u32) res" where
  "read_sleb128_loop m end p result bit' =
     (if p = end then Inl (Halt MalformedSleb128)
      else bindR (rd8 m p) (\<lambda>byte.
        if bit' \<ge> 32 then Inl Undefined
        else
          let slice = push_bit bit' (ucast (byte AND 0x7f)) :: u32;
              result = result OR scast slice; bit' = bit' + 7 in
          if byte AND 0x80 \<noteq> 0 then read_sleb128_loop m end (p + 1) result bit'
          else Inr (result, bit', byte, p + 1)))"
  by pat_completeness auto
termination
  by (relation "measure (\<lambda>(m, e, p, result, bit'). 39 - bit')") auto

declare read_sleb128_loop.simps [simp del]

definition read_sleb128 :: "mem \<Rightarrow> u32 \<Rightarrow> u32 \<Rightarrow> (u32 \<times> u32) res" where
  "read_sleb128 m p end =
     mapR (\<lambda>(result, bit', byte, p).
       (ucast (if byte AND 0x40 \<noteq> 0 then result OR push_bit bit' (- 1) else result), p))
       (read_sleb128_loop m end p 0 0)"

subsection \<open>Readers move forward and stay inside their stream\<close>

text \<open>
  What the opcode interpreters rely on: a reader given a pointer inside \<open>[p, end]\<close> that
  returns has moved it by at least one byte and not past the end, and it has looked at no
  byte outside the ones it passed.
\<close>

definition reads_inside :: "(mem \<Rightarrow> u32 \<Rightarrow> u32 \<Rightarrow> ('v \<times> u32) res) \<Rightarrow> mem \<Rightarrow> u32 \<Rightarrow> u32 \<Rightarrow> bool" where
  "reads_inside read m p e = (case read m p e of
     Inl _ \<Rightarrow> True
   | Inr (v, p') \<Rightarrow> p < p' \<and> p' \<le> e \<and>
       (\<forall>m'. (\<forall>a. p \<le> a \<longrightarrow> a < p' \<longrightarrow> m' a = m a) \<longrightarrow> read m' p e = Inr (v, p')))"

locale stream_reader =
  fixes read :: "mem \<Rightarrow> u32 \<Rightarrow> u32 \<Rightarrow> ('v \<times> u32) res"
  assumes advance: "read m p e = Inr (v, p') \<Longrightarrow> p \<le> e \<Longrightarrow> p < p' \<and> p' \<le> e"
    and looks_ahead_only: "read m p e = Inr (v, p') \<Longrightarrow> p \<le> e \<Longrightarrow>
      (\<And>a. p \<le> a \<Longrightarrow> a < p' \<Longrightarrow> m' a = m a) \<Longrightarrow> read m' p e = Inr (v, p')"
begin

lemma reads_inside:
  assumes "p \<le> e"
  shows "reads_inside read m p e"
proof (cases "read m p e")
  case (Inr r)
  then obtain v p' where r: "read m p e = Inr (v, p')" by (cases r) simp
  with advance [OF r assms] looks_ahead_only [OF r assms] show ?thesis
    by (simp add: reads_inside_def)
qed (simp add: reads_inside_def)

lemma remaining_decreases:
  "read m p e = Inr (v, p') \<Longrightarrow> p \<le> e \<Longrightarrow> unat e - unat p' < unat e - unat p"
  using advance [of m p e v p'] by (auto simp: word_less_nat_alt word_le_nat_alt)

lemma end_is_error: "is_ok (read m p p) = False"
  using advance [of m p p] by (auto simp: is_ok_iff)

lemma advance_twice:
  assumes "read m p e = Inr (v, q)" "read m q e = Inr (w, r)" "p \<le> e"
  shows "p < r \<and> r \<le> e"
  using assms advance [of m p e v q] advance [of m q e w r] by auto

end

text \<open>
  An opcode interpreter: a loop over a stream whose body moves the stream's pointer forward.
  Such a loop ends, whatever bytes the stream holds.
\<close>

locale opcode_stream =
  fixes step :: "'s \<Rightarrow> 's res" and pos :: "'s \<Rightarrow> u32" and running :: "'s \<Rightarrow> bool"
  assumes progress: "step s = Inr s' \<Longrightarrow> running s \<Longrightarrow> pos s < pos s'"
begin

lemma returns: "\<exists>r. c_while running step s = Some r"
proof -
  have "\<exists>r. c_while running step s = Some r \<and>
    (case r of Inl e \<Rightarrow> True | Inr t \<Rightarrow> True \<and> \<not> running t)"
  proof (rule c_while_total [where f = "\<lambda>s. 2 ^ 32 - unat (pos s)"])
    fix s s' assume "running s" "step s = Inr s'"
    with progress have "unat (pos s) < unat (pos s')" by (simp add: word_less_nat_alt)
    with unat_u32_less [of "pos s'"]
    show "True \<and> 2 ^ 32 - unat (pos s') < 2 ^ 32 - unat (pos s)" by simp
  qed simp_all
  then show ?thesis by blast
qed

lemma preserves:
  assumes "c_while running step s = Some (Inr t)" "P s"
    and "\<And>s s'. P s \<Longrightarrow> running s \<Longrightarrow> step s = Inr s' \<Longrightarrow> P s'"
  shows "P t"
  using c_while_invariant [where P = P, OF assms(1,2)] assms(3) by blast

end

lemma ptr_step:
  assumes "p \<noteq> e" "p \<le> (e :: u32)"
  shows "p < p + 1 \<and> p + 1 \<le> e"
proof -
  from assms have "p < e" by simp
  then have "p \<noteq> - 1" using not_less by force
  with \<open>p < e\<close> show ?thesis by (simp add: word_less_nat_alt word_le_nat_alt unat_ptr_Suc)
qed

text \<open>One turn of each loop, and what a turn that returned must have seen.\<close>

lemma read_uleb128_loop_step:
  "p \<noteq> e \<Longrightarrow> m p = Some b \<Longrightarrow> k \<le> 63 \<Longrightarrow> read_uleb128_loop m e p result k =
     (let result = result OR push_bit k (ucast (b AND 0x7f)) in
      if b AND 0x80 \<noteq> 0 then read_uleb128_loop m e (p + 1) result (k + 7)
      else Inr (result, p + 1))"
  by (subst read_uleb128_loop.simps) (simp add: Let_def)

lemma read_uleb128_loop_InrE:
  assumes "read_uleb128_loop m e p result k = Inr r"
  obtains b where "p \<noteq> e" "m p = Some b" "k \<le> 63"
  using assms by (subst (asm) read_uleb128_loop.simps) (auto split: if_splits simp: Let_def)

lemma read_sleb128_loop_step:
  "p \<noteq> e \<Longrightarrow> m p = Some b \<Longrightarrow> k < 32 \<Longrightarrow> read_sleb128_loop m e p result k =
     (let result = result OR scast (push_bit k (ucast (b AND 0x7f)) :: u32) in
      if b AND 0x80 \<noteq> 0 then read_sleb128_loop m e (p + 1) result (k + 7)
      else Inr (result, k + 7, b, p + 1))"
  by (subst read_sleb128_loop.simps) (simp add: Let_def)

lemma read_sleb128_loop_InrE:
  assumes "read_sleb128_loop m e p result k = Inr r"
  obtains b where "p \<noteq> e" "m p = Some b" "k < 32"
  using assms by (subst (asm) read_sleb128_loop.simps) (auto split: if_splits simp: Let_def)

lemma read_uleb128_loop_reads:
  assumes "read_uleb128_loop m e p result k = Inr (v, p')" "p \<le> e"
  shows "p < p' \<and> p' \<le> e \<and> ((\<forall>a. p \<le> a \<longrightarrow> a < p' \<longrightarrow> m' a = m a) \<longrightarrow>
           read_uleb128_loop m' e p result k = Inr (v, p'))"
  using assms
proof (induction "71 - k" arbitrary: p result k rule: less_induct)
  case less
  from less.prems(1) obtain b where b: "p \<noteq> e" "m p = Some b" "k \<le> 63"
    by (rule read_uleb128_loop_InrE)
  note step = ptr_step [OF b(1) less.prems(2)]
  show ?case
  proof (cases "b AND 0x80 = 0")
    case True
    with less.prems(1) b step show ?thesis
      by (auto simp: read_uleb128_loop_step [where b = b] Let_def)
  next
    case False
    let ?r = "result OR push_bit k (ucast (b AND 0x7f))"
    from False less.prems(1) b have rec: "read_uleb128_loop m e (p + 1) ?r (k + 7) = Inr (v, p')"
      by (simp add: read_uleb128_loop_step [where b = b])
    have "71 - (k + 7) < 71 - k" using b(3) by arith
    note IH = less.hyps [OF this rec step [THEN conjunct2]]
    with False b step show ?thesis
      by (auto simp: read_uleb128_loop_step [where b = b])
  qed
qed

lemma read_sleb128_loop_reads:
  assumes "read_sleb128_loop m e p result k = Inr (v, j, b', p')" "p \<le> e"
  shows "p < p' \<and> p' \<le> e \<and> ((\<forall>a. p \<le> a \<longrightarrow> a < p' \<longrightarrow> m' a = m a) \<longrightarrow>
           read_sleb128_loop m' e p result k = Inr (v, j, b', p'))"
  using assms
proof (induction "39 - k" arbitrary: p result k rule: less_induct)
  case less
  from less.prems(1) obtain b where b: "p \<noteq> e" "m p = Some b" "k < 32"
    by (rule read_sleb128_loop_InrE)
  note step = ptr_step [OF b(1) less.prems(2)]
  show ?case
  proof (cases "b AND 0x80 = 0")
    case True
    with less.prems(1) b step show ?thesis
      by (auto simp: read_sleb128_loop_step [where b = b] Let_def)
  next
    case False
    let ?r = "result OR scast (push_bit k (ucast (b AND 0x7f)) :: u32)"
    from False less.prems(1) b have rec: "read_sleb128_loop m e (p + 1) ?r (k + 7) = Inr (v, j, b', p')"
      by (simp add: read_sleb128_loop_step [where b = b])
    have "39 - (k + 7) < 39 - k" using b(3) by arith
    note IH = less.hyps [OF this rec step [THEN conjunct2]]
    with False b step show ?thesis
      by (auto simp: read_sleb128_loop_step [where b = b])
  qed
qed

interpretation uleb: stream_reader read_uleb128
proof unfold_locales
  fix m p e v p' assume read: "read_uleb128 m p e = Inr (v, p')" and le: "p \<le> e"
  from read obtain w where w: "read_uleb128_loop m e p 0 0 = Inr (w, p')" "v = ucast w"
    by (auto simp: read_uleb128_def)
  from read_uleb128_loop_reads [OF w(1) le] show "p < p' \<and> p' \<le> e" by blast
  fix m' assume "\<And>a. p \<le> a \<Longrightarrow> a < p' \<Longrightarrow> m' a = m a"
  with read_uleb128_loop_reads [OF w(1) le, of m'] w(2) show "read_uleb128 m' p e = Inr (v, p')"
    by (simp add: read_uleb128_def)
qed

interpretation sleb: stream_reader read_sleb128
proof unfold_locales
  fix m p e v p' assume read: "read_sleb128 m p e = Inr (v, p')" and le: "p \<le> e"
  from read obtain w j b where w: "read_sleb128_loop m e p 0 0 = Inr (w, j, b, p')"
      "v = ucast (if b AND 0x40 \<noteq> 0 then w OR push_bit j (- 1) else w)"
    by (auto simp: read_sleb128_def)
  from read_sleb128_loop_reads [OF w(1) le] show "p < p' \<and> p' \<le> e" by blast
  fix m' assume "\<And>a. p \<le> a \<Longrightarrow> a < p' \<Longrightarrow> m' a = m a"
  with read_sleb128_loop_reads [OF w(1) le, of m'] w(2) show "read_sleb128 m' p e = Inr (v, p')"
    by (simp add: read_sleb128_def)
qed

subsection \<open>Encoding, and reading back what was encoded\<close>

text \<open>
  The encodings the link editor writes: the reference definitions the readers are checked
  against.
\<close>

function uleb_encode :: "nat \<Rightarrow> u8 list" where
  "uleb_encode n =
     (if n < 128 then [of_nat n] else of_nat (n mod 128 + 128) # uleb_encode (n div 128))"
  by pat_completeness auto
termination
  by (relation "measure id") auto

declare uleb_encode.simps [simp del]

function sleb_encode :: "int \<Rightarrow> u8 list" where
  "sleb_encode n =
     (if - 64 \<le> n \<and> n < 64 then [of_int (n mod 128)]
      else of_int (n mod 128 + 128) # sleb_encode (n div 128))"
  by pat_completeness auto
termination
  by (relation "measure (\<lambda>n. nat \<bar>n\<bar>)") auto

declare sleb_encode.simps [simp del]

definition uleb_size :: "nat \<Rightarrow> u32" where
  "uleb_size n = of_nat (length (uleb_encode n))"

text \<open>The bits of an encoded byte.\<close>

lemma uleb_byte_low:
   "ucast ((of_nat (n mod 128) :: u8) AND 0x7f) = (of_nat (n mod 128) :: u64)"
   "ucast ((of_nat (n mod 128 + 128) :: u8) AND 0x7f) = (of_nat (n mod 128) :: u64)"
  by (simp_all only: and_0x7f flip: of_nat_take_bit)
     (simp_all add: take_bit_eq_mod unsigned_of_nat)

lemma bit_of_nat_u8_7: "bit (of_nat n :: u8) 7 \<longleftrightarrow> bit n 7"
  by (simp only: bit_of_nat_iff) simp

lemma uleb_byte_high:
   "n < 128 \<Longrightarrow> (of_nat n :: u8) AND 0x80 = 0"
   "(of_nat (n mod 128 + 128) :: u8) AND 0x80 \<noteq> 0"
proof -
  have "n < 128 \<Longrightarrow> \<not> bit n 7" by (simp add: bit_iff_odd)
  moreover have "bit (n mod 128 + 128) 7" by (simp add: bit_iff_odd div_nat_eqI [of 128 1])
  ultimately show "n < 128 \<Longrightarrow> (of_nat n :: u8) AND 0x80 = 0"
    "(of_nat (n mod 128 + 128) :: u8) AND 0x80 \<noteq> 0"
    using and_0x80 bit_of_nat_u8_7 by blast+
qed

lemma or_push_bit_eq_add: 
  assumes "take_bit k r = (r::u64)" shows "r OR push_bit k x = r + push_bit k x"
proof -
  have "r AND push_bit k x = 0"
    by (subst assms [symmetric]) (rule bit_word_eqI, simp add: bit_simps)
  then show ?thesis by (simp add: disjunctive_add_eq_or)
qed

lemma take_bit_push_or:
  assumes "take_bit k r = (r::u64)" "x < 128"
  shows "take_bit (k + 7) (r OR push_bit k (of_nat x)) = r OR push_bit k (of_nat x)"
proof -
  have "take_bit 7 x = x" using assms(2) by (simp add: take_bit_eq_mod)
  then have "(of_nat x :: u64) = take_bit 7 (of_nat x)" by (simp flip: of_nat_take_bit)
  then have *: "bit x i \<Longrightarrow> i < 7" for i by (metis \<open>take_bit 7 x = x\<close> bit_take_bit_iff)
  have **: "bit r i \<Longrightarrow> i < k" for i by (metis assms(1) bit_take_bit_iff)
  show ?thesis
    by (rule bit_word_eqI) (auto simp: bit_simps dest: * **)
qed
lemma of_nat_split128: "(of_nat n :: u64) = of_nat (n mod 128) + push_bit 7 (of_nat (n div 128))"
proof -
  have "(of_nat n :: u64) = of_nat (n mod 128 + 128 * (n div 128))" by simp
  also have "\<dots> = of_nat (n mod 128) + push_bit 7 (of_nat (n div 128))"
    by (simp only: of_nat_add of_nat_mult push_bit_eq_mult mult.commute) simp
  finally show ?thesis .
qed

lemma read_uleb128_loop_encode:
  assumes "bytes_at m p (uleb_encode n)" "unat p + length (uleb_encode n) \<le> unat e"
    "n * 2 ^ k < 2 ^ 64" "n = 0 \<Longrightarrow> k = 0" "take_bit k r = r"
  shows "read_uleb128_loop m e p r k =
    Inr (r OR push_bit k (of_nat n), p + of_nat (length (uleb_encode n)))"
  using assms
proof (induction n arbitrary: p k r rule: uleb_encode.induct)
  case (1 n)
  have "k \<le> 63"
  proof (rule ccontr)
    assume "\<not> k \<le> 63"
    then have "n \<ge> 1" using "1.prems"(4) by (cases "n = 0") auto
    moreover from \<open>\<not> k \<le> 63\<close> have "(2::nat) ^ 64 \<le> 2 ^ k" by (intro power_increasing) auto
    ultimately have "2 ^ 64 \<le> n * 2 ^ k" by (metis mult.left_neutral mult_le_mono)
    with "1.prems"(3) show False by simp
  qed
  have "uleb_encode n \<noteq> []" by (simp add: uleb_encode.simps [of n])
  with "1.prems"(2) have "p \<noteq> e" by (cases "uleb_encode n") auto
  show ?case
  proof (cases "n < 128")
    case True
    with "1.prems" \<open>p \<noteq> e\<close> \<open>k \<le> 63\<close> uleb_byte_low(1) [of n] show ?thesis
      by (auto simp: uleb_encode.simps [of n] read_uleb128_loop_step uleb_byte_high)
  next
    case False
    let ?r = "r OR push_bit k (of_nat (n mod 128))"
    from False have enc: "uleb_encode n = of_nat (n mod 128 + 128) # uleb_encode (n div 128)"
      by (simp add: uleb_encode.simps [of n])
    from "1.prems"(2) have "p \<noteq> - 1"
      by (intro ptr_below_not_max [of p e]) (simp add: enc)
    with "1.prems"(2) have room: "unat (p + 1) + length (uleb_encode (n div 128)) \<le> unat e"
      by (simp add: enc unat_ptr_Suc)
    have "n div 128 * 2 ^ (k + 7) \<le> n * 2 ^ k" by (simp add: power_add)
    with "1.prems"(3) have small: "n div 128 * 2 ^ (k + 7) < 2 ^ 64" by linarith
    have "read_uleb128_loop m e (p + 1) ?r (k + 7) =
      Inr (?r OR push_bit (k + 7) (of_nat (n div 128)), p + 1 + of_nat (length (uleb_encode (n div 128))))"
      using False "1.prems" room small take_bit_push_or [of k r "n mod 128"]
      by (intro "1.IH") (auto simp: enc)
    moreover have "?r OR push_bit (k + 7) (of_nat (n div 128)) = r OR push_bit k (of_nat n :: u64)"
    proof -
      have "take_bit (k + 7) ?r = ?r" using "1.prems"(5) by (rule take_bit_push_or) simp
      note or_add = or_push_bit_eq_add [OF this] or_push_bit_eq_add [OF "1.prems"(5)]
      show ?thesis by (simp only: or_add(1)) (simp only: or_add(2), simp add: of_nat_split128 [of n] push_bit_add add.assoc)
    qed
    ultimately show ?thesis
      using "1.prems" \<open>k \<le> 63\<close> \<open>p \<noteq> e\<close> uleb_byte_low(2) [of n] uleb_byte_high(2) [of n]
      by (simp add: enc read_uleb128_loop_step Let_def add.assoc)
  qed
qed

lemma bit_sleb_byte:
  "bit (of_int (n mod 128) :: u8) i \<longleftrightarrow> i < 7 \<and> bit n i"
  "bit (of_int (n mod 128 + 128) :: u8) i \<longleftrightarrow> i < 7 \<and> bit n i \<or> i = 7"
proof -
  have *: "n mod 128 = take_bit 7 n" by (simp add: take_bit_eq_mod)
  have **: "take_bit 7 n + 128 = take_bit 7 n OR 2 ^ 7"
  proof -
    have "take_bit 7 n AND 2 ^ 7 = 0" 
      by (simp only: and_exp_eq_0_iff_not_bit bit_take_bit_iff) simp
    then show ?thesis by (simp add: disjunctive_add_eq_or)
  qed
  show "bit (of_int (n mod 128) :: u8) i \<longleftrightarrow> i < 7 \<and> bit n i"
    unfolding * by (auto simp: bit_simps)
  show "bit (of_int (n mod 128 + 128) :: u8) i \<longleftrightarrow> i < 7 \<and> bit n i \<or> i = 7"
    unfolding * ** by (simp only: bit_of_int_iff bit_or_iff bit_exp_iff bit_take_bit_iff) auto
qed

lemma bit_small_int:
  assumes "- 64 \<le> n" "n < (64::int)" "6 \<le> i" shows "bit n i \<longleftrightarrow> n < 0"
proof -
  have "n div 64 = (if n < 0 then - 1 else 0)" using assms by auto
  then have "drop_bit 6 n = (if n < 0 then - 1 else 0)" by (simp add: drop_bit_eq_div)
  then have "bit (drop_bit 6 n) (i - 6) \<longleftrightarrow> n < 0" by simp
  with assms(3) show ?thesis by (simp add: bit_drop_bit_eq)
qed

lemma bit_small_int_cases:
  assumes "- 64 \<le> n" "n < (64::int)"
  shows "n < 0 \<Longrightarrow> \<not> bit n i \<Longrightarrow> i < 6" "0 \<le> n \<Longrightarrow> bit n i \<Longrightarrow> i < 6"
  using bit_small_int [OF assms, of i] by (cases "6 \<le> i"; simp)+

lemma bit_mod_128: "bit (n mod 128 :: int) i \<longleftrightarrow> i < 7 \<and> bit n i"
  using bit_take_bit_iff [of 7 n i] by (simp add: take_bit_eq_mod)

lemma read_sleb128_loop_encode:
  assumes "bytes_at m p (sleb_encode n)" "unat p + length (sleb_encode n) \<le> unat e"
    "k < 32" "- (2 ^ (31 - k)) \<le> n" "n < 2 ^ (31 - k)"
    "\<And>i. bit (ucast r :: u32) i \<Longrightarrow> i < k"
  shows "\<exists>w j b. read_sleb128_loop m e p r k = Inr (w, j, b, p + of_nat (length (sleb_encode n))) \<and>
    (ucast (if b AND 0x40 \<noteq> 0 then w OR push_bit j (- 1) else w) :: u32) =
      ucast r OR push_bit k (of_int n)"
  using assms
proof (induction n arbitrary: p k r rule: sleb_encode.induct)
  case (1 n)
  have "sleb_encode n \<noteq> []" by (simp add: sleb_encode.simps [of n])
  with "1.prems"(2) have "p \<noteq> e" by (cases "sleb_encode n") auto
  show ?case
  proof (cases "- 64 \<le> n \<and> n < 64")
    case True
    let ?b = "of_int (n mod 128) :: u8"
    have enc: "sleb_encode n = [?b]" using True by (simp add: sleb_encode.simps [of n])
    have "\<not> bit ?b 7" "bit ?b 6 \<longleftrightarrow> n < 0"
      using True bit_small_int [of n 6] by (simp_all add: bit_sleb_byte)
    then have b: "?b AND 0x80 = 0" "?b AND 0x40 \<noteq> 0 \<longleftrightarrow> n < 0"
      using and_0x80 and_0x40 by blast+
    let ?w = "r OR scast (push_bit k (ucast (?b AND 0x7f)) :: u32) :: u64"
    have "read_sleb128_loop m e p r k = Inr (?w, k + 7, ?b, p + 1)"
      using \<open>p \<noteq> e\<close> b(1) "1.prems" by (simp add: enc read_sleb128_loop_step Let_def)
    moreover have "(ucast (if n < 0 then ?w OR push_bit (k + 7) (- 1) else ?w) :: u32) =
        ucast r OR push_bit k (of_int n)"
      using True bit_small_int_cases [of n]
      by (intro bit_word_eqI)
         (force simp: unsigned_or_eq ucast_scast_u32 bit_simps bit_mod_128 and_0x7f)
    ultimately show ?thesis using b(2) enc by auto
  next
    case False
    define b where "b = (of_int (n mod 128 + 128) :: u8)"
    have enc: "sleb_encode n = b # sleb_encode (n div 128)"
      using False by (auto simp: sleb_encode.simps [of n] b_def)
    have bits: "bit b i \<longleftrightarrow> i < 7 \<and> bit n i \<or> i = 7" for i
      unfolding b_def by (rule bit_sleb_byte)
    then have b: "b AND 0x80 \<noteq> 0" using and_0x80 by simp
    let ?r = "r OR scast (push_bit k (ucast (b AND 0x7f)) :: u32) :: u64"
    have low: "bit (ucast ?r :: u32) i \<longleftrightarrow> bit (ucast r :: u32) i \<or> k \<le> i \<and> i < k + 7 \<and> i < 32 \<and> bit n (i - k)" for i
      by (auto simp: unsigned_or_eq ucast_scast_u32 bit_simps bits and_0x7f)
    have "k < 25"
    proof (rule ccontr)
      assume "\<not> k < 25"
      then have "(2 :: int) ^ (31 - k) \<le> 2 ^ 6" by (intro power_increasing) auto
      with False "1.prems"(4,5) show False by auto
    qed
    then have *: "(2 :: int) ^ (31 - k) = 2 ^ (31 - (k + 7)) * 128"
      using power_add [of "2 :: int" "31 - (k + 7)" 7] by simp
    have range: "- (2 ^ (31 - (k + 7))) \<le> n div 128" "n div 128 < 2 ^ (31 - (k + 7))"
      using "1.prems"(4,5) unfolding * by auto
    from "1.prems"(2) have "p \<noteq> - 1"
      by (intro ptr_below_not_max [of p e]) (simp add: enc)
    with "1.prems"(2) have room: "unat (p + 1) + length (sleb_encode (n div 128)) \<le> unat e"
      by (simp add: enc unat_ptr_Suc)
    have bound: "bit (ucast ?r :: u32) i \<Longrightarrow> i < k + 7" for i
      using "1.prems"(6) [of i] by (auto simp: low)
    have "(ucast ?r :: u32) OR push_bit (k + 7) (of_int (n div 128)) = ucast r OR push_bit k (of_int n)"
    proof (rule bit_word_eqI)
      fix i assume "i < LENGTH(32)"
      have "n div 128 = drop_bit 7 n" by (simp add: drop_bit_eq_div)
      then show "bit ((ucast ?r :: u32) OR push_bit (k + 7) (of_int (n div 128))) i =
          bit (ucast r OR push_bit k (of_int n) :: u32) i"
        using \<open>i < LENGTH(32)\<close> unfolding bit_or_iff low
        by (cases "i < k + 7") (auto simp: bit_simps)
    qed
    moreover have "read_sleb128_loop m e p r k = read_sleb128_loop m e (p + 1) ?r (k + 7)"
      using \<open>p \<noteq> e\<close> b "1.prems" by (simp add: enc read_sleb128_loop_step Let_def)
    ultimately show ?thesis
      using "1.IH" [OF False, of "p + 1" "k + 7" ?r] "1.prems"(1) room range bound \<open>k < 25\<close>
      by (auto simp: enc add.assoc)
  qed
qed

lemma read_uleb128_encode:
  assumes "bytes_at m p (uleb_encode n)" "unat p + length (uleb_encode n) \<le> unat e" "n < 2 ^ 64"
  shows "read_uleb128 m p e = Inr (of_nat n, p + of_nat (length (uleb_encode n)))"
  using read_uleb128_loop_encode [OF assms(1,2), of 0 0] assms(3)
  by (simp add: read_uleb128_def unsigned_of_nat take_bit_eq_mod)

lemma read_sleb128_encode:
  assumes "bytes_at m p (sleb_encode n)" "unat p + length (sleb_encode n) \<le> unat e"
    "- (2 ^ 31) \<le> n" "n < 2 ^ 31"
  shows "read_sleb128 m p e = Inr (of_int n, p + of_nat (length (sleb_encode n)))"
proof -
  obtain w j b where
    "read_sleb128_loop m e p 0 0 = Inr (w, j, b, p + of_nat (length (sleb_encode n)))"
    "(ucast (if b AND 0x40 \<noteq> 0 then w OR push_bit j (- 1) else w) :: u32) = of_int n"
    using read_sleb128_loop_encode [OF assms(1,2), of 0 0] assms(3,4) by auto
  then show ?thesis by (simp add: read_sleb128_def del: push_bit_minus_one)
qed

section \<open>Properties\<close>

text \<open>
  C1: reading back a ULEB128 that the link editor wrote gives the number, and leaves the pointer
  just past it: the low 32 bits of any number of at most 64 bits.
\<close>

theorem uleb128_roundtrip:
  assumes "bytes_at m p (uleb_encode n)" "unat p + length (uleb_encode n) \<le> unat e" "n < 2 ^ 64"
  shows "read_uleb128 m p e = Inr (of_nat n, p + uleb_size n)"
  unfolding uleb_size_def using assms by (rule read_uleb128_encode)

theorem uleb128_roundtrip_witness:
  "read_uleb128 (mem_of 0x1000 [0xE5, 0x8E, 0x26]) 0x1000 0x1003 = Inr (624485, 0x1003)"
  using uleb128_roundtrip [of "mem_of 0x1000 [0xE5, 0x8E, 0x26]" "0x1000" 624485 "0x1003"]
  by (simp add: uleb_encode.simps mem_of_def uleb_size_def)

text \<open>
  C2: reading back a SLEB128 gives the number, for every number of 32 bits and of either sign.
\<close>

theorem sleb128_roundtrip:
  assumes "bytes_at m p (sleb_encode n)" "unat p + length (sleb_encode n) \<le> unat e"
    "- (2 ^ 31) \<le> n" "n < 2 ^ 31"
  shows "read_sleb128 m p e = Inr (of_int n, p + of_nat (length (sleb_encode n)))"
  using assms by (rule read_sleb128_encode)

theorem sleb128_roundtrip_witness:
  "read_sleb128 (mem_of 0x1000 [0xC0, 0xBB, 0x78]) 0x1000 0x1003 = Inr (- 123456, 0x1003)"
  using sleb128_roundtrip [of "mem_of 0x1000 [0xC0, 0xBB, 0x78]" "0x1000" "- 123456" "0x1003"]
  by (simp add: sleb_encode.simps mem_of_def)

text \<open>
  C9: whatever the bytes are, a reader that returns has consumed at least one byte and none
  past the end of its stream, and its result depends on the bytes it consumed only.
\<close>

theorem leb128_stays_in_stream:
  assumes "p \<le> e"
  shows "reads_inside read_uleb128 m p e \<and> reads_inside read_sleb128 m p e"
  using uleb.reads_inside [OF assms] sleb.reads_inside [OF assms] by simp

theorem leb128_stays_in_stream_witness:
  "reads_inside read_uleb128 (mem_of 0x1000 [0x85, 0x01, 0xFF]) 0x1000 0x1003"
  using leb128_stays_in_stream [of "0x1000" "0x1003" "mem_of 0x1000 [0x85, 0x01, 0xFF]"] by simp

end
