(* ===== verification/SymbolSearch.thy ===== *)
theory SymbolSearch
  imports CPrelude
begin

text \<open>
  The classic symbol table (src/core/lnk_util.cpp): \<open>binary_search\<close> over the sorted
  external symbols and \<open>binary_search_toc\<close> over a dynamic library's table of contents. A
  \<open>struct nlist\<close> takes twelve bytes and starts with the offset of its name in the string
  pool; a table-of-contents entry takes eight and starts with a symbol index.
\<close>

section \<open>The string comparison\<close>

definition cstr_is :: "mem \<Rightarrow> u32 \<Rightarrow> u8 list \<Rightarrow> bool" where
  "cstr_is m p s \<longleftrightarrow> 0 \<notin> set s \<and> bytes_at m p (s @ [0])"

lemma cstr_is_Nil [simp]: "cstr_is m p [] \<longleftrightarrow> m p = Some 0"
  by (simp add: cstr_is_def)

lemma cstr_is_Cons [simp]: "cstr_is m p (c # s) \<longleftrightarrow> c \<noteq> 0 \<and> m p = Some c \<and> cstr_is m (p + 1) s"
  by (auto simp: cstr_is_def)

lemma cstr_at_cstr_is: "cstr_at m p = Inr s \<Longrightarrow> cstr_is m p s"
proof (induction m p arbitrary: s rule: cstr_at.induct)
  case (1 m p)
  then show ?case
    by (subst (asm) (2) cstr_at.simps) (auto split: if_splits)
qed

text \<open>\<open>strcmp\<close> orders strings as lists of unsigned bytes, a prefix first.\<close>

lemma byte_difference:
  "uint (k :: u8) - uint c = 0 \<longleftrightarrow> k = c" "0 < uint (k :: u8) - uint c \<longleftrightarrow> c < k"
  by (simp_all add: word_less_def word_uint_eq_iff)

lemma strcmp_at_correct:
  assumes "cstr_is m p s" "0 \<notin> set key"
  shows "\<exists>c. strcmp_at m key p = Inr c \<and> (c = 0 \<longleftrightarrow> key = s) \<and> (c > 0 \<longleftrightarrow> s < key)"
  using assms
proof (induction m key p arbitrary: s rule: strcmp_at.induct)
  case (1 m p)
  then show ?case
  proof (cases s)
    case Nil
    with 1 show ?thesis by simp
  next
    case (Cons c cs)
    with 1 have "m p = Some c" "c \<noteq> 0" by auto
    with Cons show ?thesis using byte_difference [of 0 c] by simp
  qed
next
  case (2 m k ks p)
  show ?case
  proof (cases s)
    case Nil
    from "2.prems"(2) have "k \<noteq> 0" by auto
    with 2 Nil show ?thesis using byte_difference [of k 0] by (auto simp: word_neq_0_conv)
  next
    case (Cons c cs)
    show ?thesis
    proof (cases "k = c")
      case True
      with 2 Cons show ?thesis by auto
    next
      case False
      with "2.prems" Cons show ?thesis using byte_difference [of k c] by simp
    qed
  qed
qed

section \<open>Binary search over the sorted symbols\<close>

function binary_search_loop ::
    "mem \<Rightarrow> u8 list \<Rightarrow> u32 \<Rightarrow> u32 \<Rightarrow> nat \<Rightarrow> u32 option res" where
  "binary_search_loop m key stringPool base n =
     (if n = 0 then Inr None
      else
        let pivot = base + 12 * of_nat (n div 2) in
        bindR (rd32 m pivot) (\<lambda>n_strx.
        bindR (strcmp_at m key (stringPool + n_strx)) (\<lambda>cmp.
          if cmp = 0 then Inr (Some pivot)
          else if cmp > 0 then binary_search_loop m key stringPool (pivot + 12) ((n - 1) div 2)
          else binary_search_loop m key stringPool base (n div 2))))"
  by pat_completeness auto
termination
  by (relation "measure (\<lambda>(m, key, pool, base, n). n)") auto

declare binary_search_loop.simps [simp del]

definition binary_search :: "mem \<Rightarrow> u8 list \<Rightarrow> u32 \<Rightarrow> u32 \<Rightarrow> u32 \<Rightarrow> u32 option res" where
  "binary_search m key stringPool symbols symbolCount =
     binary_search_loop m key stringPool symbols (unat symbolCount)"

text \<open>The table at an address holds symbols with these names, in this order.\<close>

fun symtab_at :: "mem \<Rightarrow> u32 \<Rightarrow> u32 \<Rightarrow> u8 list list \<Rightarrow> bool" where
  "symtab_at m pool base [] = True"
| "symtab_at m pool base (s # ss) =
     ((case rd32 m base of Inl _ \<Rightarrow> False | Inr strx \<Rightarrow> cstr_is m (pool + strx) s) \<and>
      symtab_at m pool (base + 12) ss)"

lemma symtab_at_append:
  "symtab_at m pool base (xs @ ys) \<longleftrightarrow>
     symtab_at m pool base xs \<and> symtab_at m pool (base + 12 * of_nat (length xs)) ys"
  by (induction xs arbitrary: base) (auto simp: algebra_simps)

lemma symtab_at_nth:
  assumes "symtab_at m pool base names" "i < length names"
  obtains strx where "rd32 m (base + 12 * of_nat i) = Inr strx" "cstr_is m (pool + strx) (names ! i)"
proof -
  from assms(2) have "names = take i names @ names ! i # drop (Suc i) names"
    by (rule id_take_nth_drop)
  with assms have "symtab_at m pool (base + 12 * of_nat i) (names ! i # drop (Suc i) names)"
    using symtab_at_append [of m pool base "take i names" "names ! i # drop (Suc i) names"]
    by (simp add: min.absorb2)
  then show ?thesis using that by (auto split: sum.splits)
qed

lemma sorted_half:
  assumes "sorted xs" "i < length xs"
  shows "x < xs ! i \<Longrightarrow> x \<in> set xs \<Longrightarrow> x \<in> set (take i xs)"
    and "xs ! i < x \<Longrightarrow> x \<in> set xs \<Longrightarrow> x \<in> set (drop (Suc i) xs)"
proof -
  have xs: "take i xs @ xs ! i # drop (Suc i) xs = xs"
    using id_take_nth_drop [OF assms(2)] by (rule sym)
  have "sorted (take i xs @ xs ! i # drop (Suc i) xs)" by (subst xs) (rule assms(1))
  then have le: "y \<in> set (take i xs) \<Longrightarrow> y \<le> xs ! i" "y \<in> set (drop (Suc i) xs) \<Longrightarrow> xs ! i \<le> y" for y
    by (auto simp only: sorted_append sorted_simps list.set)
  have "set xs = insert (xs ! i) (set (take i xs) \<union> set (drop (Suc i) xs))"
    using arg_cong [OF xs, of set] by (simp only: set_append list.set Un_insert_right)
  then have "x \<in> set xs \<Longrightarrow> x = xs ! i \<or> x \<in> set (take i xs) \<or> x \<in> set (drop (Suc i) xs)"
    by blast
  note x = this le [of x]
  show "x < xs ! i \<Longrightarrow> x \<in> set xs \<Longrightarrow> x \<in> set (take i xs)" using x leD by blast
  show "xs ! i < x \<Longrightarrow> x \<in> set xs \<Longrightarrow> x \<in> set (drop (Suc i) xs)" using x leD by blast
qed

text \<open>
  On a sorted table the search finds a symbol of that name if there is one, and NULL
  otherwise.
\<close>

definition search_ok :: "u32 \<Rightarrow> u8 list list \<Rightarrow> u8 list \<Rightarrow> u32 option \<Rightarrow> bool" where
  "search_ok base names key r = (case r of
     None \<Rightarrow> key \<notin> set names
   | Some a \<Rightarrow> (\<exists>i < length names. a = base + 12 * of_nat i \<and> names ! i = key))"

lemma search_ok_drop:
  assumes "search_ok (base + 12 * of_nat i + 12) (drop (Suc i) names) key r"
    and "key \<in> set names \<Longrightarrow> key \<in> set (drop (Suc i) names)"
  shows "search_ok base names key r"
proof (cases r)
  case None
  with assms show ?thesis by (auto simp: search_ok_def)
next
  case (Some a)
  with assms(1) obtain j where j: "j < length names - Suc i"
      "a = base + 12 * of_nat i + 12 + 12 * of_nat j" "drop (Suc i) names ! j = key"
    by (auto simp: search_ok_def)
  have "a = base + 12 * of_nat (Suc (i + j))" by (simp add: j(2) algebra_simps)
  with j Some show ?thesis by (auto simp: search_ok_def intro!: exI [of _ "Suc (i + j)"])
qed

lemma search_ok_take:
  assumes "search_ok base (take i names) key r" and "key \<in> set names \<Longrightarrow> key \<in> set (take i names)"
  shows "search_ok base names key r"
  using assms by (auto simp: search_ok_def split: option.splits)

lemma binary_search_loop_correct:
  assumes "symtab_at m pool base names" "sorted names" "0 \<notin> set key" "n = length names"
  shows "\<exists>r. binary_search_loop m key pool base n = Inr r \<and> search_ok base names key r"
  using assms
proof (induction n arbitrary: base names rule: less_induct)
  case (less n)
  show ?case
  proof (cases "n = 0")
    case True
    with less.prems show ?thesis
      by (subst binary_search_loop.simps) (simp add: search_ok_def)
  next
    case False
    let ?i = "n div 2"
    from False less.prems(4) have i: "?i < length names" by simp
    let ?pivot = "base + 12 * of_nat ?i"
    from symtab_at_nth [OF less.prems(1) i] obtain strx where
      strx: "rd32 m ?pivot = Inr strx" "cstr_is m (pool + strx) (names ! ?i)" .
    from strcmp_at_correct [OF strx(2) less.prems(3)] obtain c where
      c: "strcmp_at m key (pool + strx) = Inr c" "c = 0 \<longleftrightarrow> key = names ! ?i"
        "c > 0 \<longleftrightarrow> names ! ?i < key" by auto
    note unfold = binary_search_loop.simps [of m key pool base n]
    have split: "symtab_at m pool base (take ?i names @ names ! ?i # drop (Suc ?i) names)"
      using less.prems(1) id_take_nth_drop [OF i] by simp
    consider "c = 0" | "c > 0" | "c < 0" by linarith
    then show ?thesis
    proof cases
      case 1
      with c i have "search_ok base names key (Some ?pivot)" by (auto simp: search_ok_def)
      with False strx c(1) 1 show ?thesis by (simp add: unfold Let_def)
    next
      case 2
      have "symtab_at m pool (?pivot + 12) (drop (Suc ?i) names)" "sorted (drop (Suc ?i) names)"
        using split i less.prems(2) by (auto simp: symtab_at_append min.absorb2 sorted_wrt_drop)
      moreover have "(n - 1) div 2 = length (drop (Suc ?i) names)" "(n - 1) div 2 < n"
        using less.prems(4) False by (auto intro: div_le_dividend [THEN le_less_trans])
      ultimately obtain r where
        r: "binary_search_loop m key pool (?pivot + 12) ((n - 1) div 2) = Inr r"
           "search_ok (?pivot + 12) (drop (Suc ?i) names) key r"
        using less.IH [of "(n - 1) div 2" "?pivot + 12" "drop (Suc ?i) names"] less.prems(3) by auto
      from r(2) have "search_ok base names key r"
        by (rule search_ok_drop) (use sorted_half(2) [OF less.prems(2) i, of key] c 2 in simp)
      with False strx c r 2 show ?thesis by (simp add: unfold Let_def)
    next
      case 3
      have "symtab_at m pool base (take ?i names)" "sorted (take ?i names)"
        using split less.prems(2) by (auto simp: symtab_at_append sorted_wrt_take)
      moreover have "?i = length (take ?i names)" "?i < n" using i less.prems(4) False by auto
      ultimately obtain r where
        r: "binary_search_loop m key pool base ?i = Inr r" "search_ok base (take ?i names) key r"
        using less.IH [of ?i base "take ?i names"] less.prems(3) by auto
      from 3 c have less: "key < names ! ?i" by (metis linorder_less_linear not_less_iff_gr_or_eq)
      from r(2) have "search_ok base names key r"
        by (rule search_ok_take) (use sorted_half(1) [OF less.prems(2) i less] in simp)
      with False strx c r 3 show ?thesis by (simp add: unfold Let_def)
    qed
  qed
qed

section \<open>Binary search over a table of contents\<close>

text \<open>
  The midpoint of the table of contents starts at a hint and is an \<open>int32_t\<close>; C's division
  truncates towards zero. An entry that follows no symbol of its name lies in the window, so
  the window shrinks whatever the hint was.
\<close>

definition half :: "int \<Rightarrow> int" where
  "half x = (if x < 0 then - (- x div 2) else x div 2)"

text \<open>The variables are \<open>int32_t\<close>: a sum that does not fit is undefined.\<close>

definition int32 :: "int \<Rightarrow> int res" where
  "int32 x = (if - (2 ^ 31) \<le> x \<and> x < 2 ^ 31 then Inr x else Inl Undefined)"

function binary_search_toc_loop ::
    "mem \<Rightarrow> u8 list \<Rightarrow> u32 \<Rightarrow> u32 \<Rightarrow> u32 \<Rightarrow> int \<Rightarrow> int \<Rightarrow> int \<Rightarrow> u32 option res" where
  "binary_search_toc_loop m key stringPool symbols toc low high mid =
     (if low \<le> high then
        bindR (rd32 m (toc + 8 * of_int mid)) (\<lambda>index.
        let pivot = symbols + 12 * index in
        bindR (rd32 m pivot) (\<lambda>n_strx.
        bindR (strcmp_at m key (stringPool + n_strx)) (\<lambda>cmp.
          if cmp = 0 then Inr (Some pivot)
          else if cmp > 0 then
            bindR (int32 (mid + 1)) (\<lambda>low. bindR (int32 (low + high)) (\<lambda>sum.
              binary_search_toc_loop m key stringPool symbols toc low high (half sum)))
          else
            bindR (int32 (mid - 1)) (\<lambda>high. bindR (int32 (low + high)) (\<lambda>sum.
              binary_search_toc_loop m key stringPool symbols toc low high (half sum))))))
      else Inr None)"
  by pat_completeness auto
termination
  by (relation "measure (\<lambda>(m, key, pool, symbols, toc, low, high, mid).
        2 * nat (max high (mid - 1) - min low (mid + 1) + 1) +
        (if low \<le> mid \<and> mid \<le> high then 0 else 1))")
     (auto simp: half_def int32_def split: if_splits)

declare binary_search_toc_loop.simps [simp del]

definition binary_search_toc ::
    "mem \<Rightarrow> u8 list \<Rightarrow> u32 \<Rightarrow> u32 \<Rightarrow> u32 \<Rightarrow> u32 \<Rightarrow> u32 \<Rightarrow> u32 option res" where
  "binary_search_toc m key stringPool symbols toc symbolCount hintIndex =
     (let high = sint (symbolCount - 1); mid = sint hintIndex;
          mid = (if mid \<ge> sint symbolCount then uint symbolCount div 2 else mid)
      in binary_search_toc_loop m key stringPool symbols toc 0 high mid)"

definition toc_names :: "mem \<Rightarrow> u32 \<Rightarrow> u32 \<Rightarrow> u32 \<Rightarrow> u8 list list \<Rightarrow> bool" where
  "toc_names m pool symbols toc names \<longleftrightarrow> (\<forall>i < length names. \<exists>index strx.
     rd32 m (toc + 8 * of_nat i) = Inr index \<and> rd32 m (symbols + 12 * index) = Inr strx \<and>
     cstr_is m (pool + strx) (names ! i))"

definition toc_result_ok ::
    "mem \<Rightarrow> u32 \<Rightarrow> u32 \<Rightarrow> u8 list list \<Rightarrow> u8 list \<Rightarrow> u32 option \<Rightarrow> bool" where
  "toc_result_ok m symbols toc names key r = (case r of
     None \<Rightarrow> key \<notin> set names
   | Some a \<Rightarrow> (\<exists>i < length names. \<exists>index. names ! i = key \<and>
        rd32 m (toc + 8 * of_nat i) = Inr index \<and> a = symbols + 12 * index))"

lemma half_between: "low \<le> high \<Longrightarrow> 0 \<le> low \<Longrightarrow> low \<le> half (low + high) \<and> half (low + high) \<le> high"
  by (auto simp: half_def)

text \<open>The key can only be inside the window \<open>[low, high]\<close>.\<close>

definition toc_window :: "u8 list list \<Rightarrow> u8 list \<Rightarrow> int \<Rightarrow> int \<Rightarrow> bool" where
  "toc_window names key low high \<longleftrightarrow> 0 \<le> low \<and> high < int (length names) \<and>
     (\<forall>i < length names. names ! i = key \<longrightarrow> low \<le> int i \<and> int i \<le> high)"

lemma toc_window_step:
  assumes "sorted names" "toc_window names key low high" "i < length names" "low \<le> int i" "int i \<le> high"
  shows "names ! i < key \<Longrightarrow> toc_window names key (int i + 1) high"
    and "key < names ! i \<Longrightarrow> toc_window names key low (int i - 1)"
proof -
  have mono: "j \<le> k \<Longrightarrow> k < length names \<Longrightarrow> names ! j \<le> names ! k" for j k
    using assms(1) by (rule sorted_nth_mono)
  have "names ! j = key \<Longrightarrow> j < length names \<Longrightarrow> names ! i < key \<Longrightarrow> i < j" for j
    using mono [of j i] assms(3) by (meson leD leI)
  moreover have "names ! j = key \<Longrightarrow> j < length names \<Longrightarrow> key < names ! i \<Longrightarrow> j < i" for j
    using mono [of i j] by (meson leD leI)
  ultimately show "names ! i < key \<Longrightarrow> toc_window names key (int i + 1) high"
    and "key < names ! i \<Longrightarrow> toc_window names key low (int i - 1)"
    using assms(2-5) unfolding toc_window_def by fastforce+
qed

lemma binary_search_toc_loop_correct:
  assumes "toc_names m pool symbols toc names" "sorted names" "0 \<notin> set key"
    "toc_window names key low high" "low \<le> high \<Longrightarrow> low \<le> mid \<and> mid \<le> high" "length names \<le> 2 ^ 30"
  shows "\<exists>r. binary_search_toc_loop m key pool symbols toc low high mid = Inr r \<and>
    toc_result_ok m symbols toc names key r"
  using assms
proof (induction "nat (high - low + 1)" arbitrary: low high mid rule: less_induct)
  case less
  show ?case
  proof (cases "low \<le> high")
    case False
    with less.prems(4) have "key \<notin> set names"
      by (auto simp: toc_window_def in_set_conv_nth)
    with False show ?thesis
      by (subst binary_search_toc_loop.simps) (simp add: toc_result_ok_def)
  next
    case True
    define i where "i = nat mid"
    from True less.prems(4,5) have i: "mid = int i" "i < length names" "low \<le> int i" "int i \<le> high"
      by (auto simp: i_def toc_window_def)
    from less.prems(1) i(2) obtain index strx where ix:
      "rd32 m (toc + 8 * of_nat i) = Inr index" "rd32 m (symbols + 12 * index) = Inr strx"
      "cstr_is m (pool + strx) (names ! i)"
      by (auto simp: toc_names_def)
    from strcmp_at_correct [OF ix(3) less.prems(3)] obtain c where
      c: "strcmp_at m key (pool + strx) = Inr c" "c = 0 \<longleftrightarrow> key = names ! i"
        "c > 0 \<longleftrightarrow> names ! i < key" by auto
    note unfold = binary_search_toc_loop.simps [of m key pool symbols toc low high "int i"]
    note window = toc_window_step [OF less.prems(2,4) i(2-4)]
    have low0: "0 \<le> low" "high < int (length names)" using less.prems(4) by (simp_all add: toc_window_def)
    have fits: "int32 (int i + 1) = Inr (int i + 1)" "int32 (int i + 1 + high) = Inr (int i + 1 + high)"
        "int32 (int i - 1) = Inr (int i - 1)" "int32 (low + (int i - 1)) = Inr (low + (int i - 1))"
      using low0 i True less.prems(6) by (simp_all add: int32_def)
    consider "c = 0" | "c > 0" | "c < 0" by linarith
    then show ?thesis
    proof cases
      case 1
      then have "toc_result_ok m symbols toc names key (Some (symbols + 12 * index))"
        using i ix c by (auto simp: toc_result_ok_def)
      with True i(1) ix c(1) 1 show ?thesis by (simp add: unfold Let_def)
    next
      case 2
      let ?low = "int i + 1"
      have "nat (high - ?low + 1) < nat (high - low + 1)" using i True by simp
      moreover have "?low \<le> high \<Longrightarrow> ?low \<le> half (?low + high) \<and> half (?low + high) \<le> high"
        using half_between [of ?low high] low0 i by simp
      ultimately show ?thesis
        using less.hyps [of high ?low "half (?low + high)"] less.prems(1-3,6) window(1) c 2 True i ix
        by (simp add: unfold Let_def fits)
    next
      case 3
      let ?high = "int i - 1"
      from 3 c have less': "key < names ! i" by (metis linorder_less_linear not_less_iff_gr_or_eq)
      have "nat (?high - low + 1) < nat (high - low + 1)" using i True by simp
      moreover have "low \<le> ?high \<Longrightarrow> low \<le> half (low + ?high) \<and> half (low + ?high) \<le> ?high"
        using half_between [of low ?high] low0 by simp
      ultimately show ?thesis
        using less.hyps [of ?high low "half (low + ?high)"] less.prems(1-3,6) window(2) [OF less'] c(1) 3 True i ix
        by (simp add: unfold Let_def fits)
    qed
  qed
qed

lemma binary_search_correct:
  assumes "symtab_at m pool symbols names" "sorted names" "0 \<notin> set key" "length names < 2 ^ 32"
  shows "\<exists>r. binary_search m key pool symbols (of_nat (length names)) = Inr r \<and>
    search_ok symbols names key r"
  using binary_search_loop_correct [OF assms(1-3) refl] assms(4)
  by (simp add: binary_search_def unsigned_of_nat take_bit_eq_mod)

lemma sint_of_nat_small: "n < 2 ^ 31 \<Longrightarrow> sint (of_nat n :: u32) = int n"
  by (simp add: signed_of_nat signed_take_bit_int_eq_self)

lemma binary_search_toc_correct:
  assumes "toc_names m pool symbols toc names" "sorted names" "0 \<notin> set key"
    "length names \<le> 2 ^ 30" "hint < 2 ^ 31"
  shows "\<exists>r. binary_search_toc m key pool symbols toc (of_nat (length names)) hint = Inr r \<and>
    toc_result_ok m symbols toc names key r"
proof -
  have hint: "0 \<le> sint hint"
  proof -
    have "unat hint < 2 ^ 31" using assms(5) by (simp add: word_less_nat_alt)
    then show ?thesis using sint_of_nat_small [of "unat hint"] by simp
  qed
  have high: "sint (of_nat (length names) - 1 :: u32) = int (length names) - 1"
  proof (cases names)
    case (Cons n ns)
    then show ?thesis using sint_of_nat_small [of "length ns"] assms(4) by simp
  qed simp
  have count: "sint (of_nat (length names) :: u32) = int (length names)"
    "uint (of_nat (length names) :: u32) = int (length names)"
    using assms(4) sint_of_nat_small by (simp_all add: unsigned_of_nat take_bit_eq_mod)
  have "toc_window names key 0 (int (length names) - 1)" by (auto simp: toc_window_def)
  note loop = binary_search_toc_loop_correct [OF assms(1-3) this]
  define mid where "mid = (if int (length names) \<le> sint hint then int (length names) div 2 else sint hint)"
  have "0 \<le> int (length names) - 1 \<Longrightarrow> 0 \<le> mid \<and> mid \<le> int (length names) - 1"
    using hint unfolding mid_def by presburger
  from loop [OF this assms(4)] show ?thesis by (simp add: binary_search_toc_def high count Let_def mid_def split: if_splits)
qed

section \<open>Properties\<close>

text \<open>
  C7: on a symbol table sorted by name the binary search returns the entry of a symbol of the
  given name when there is one and NULL otherwise; it reads no unmapped address on the way.
\<close>

theorem binary_search_finds:
  assumes "symtab_at m pool symbols names" "sorted names" "0 \<notin> set key" "length names < 2 ^ 32"
  shows "\<exists>r. binary_search m key pool symbols (of_nat (length names)) = Inr r \<and>
    search_ok symbols names key r"
  using assms by (rule binary_search_correct)

text \<open>Two symbols, \<open>a\<close> and \<open>b\<close>: the pool of four bytes, two entries of twelve, and a table of
  contents of two entries.\<close>

definition two_symbols :: mem where
  "two_symbols = mem_of 0x1000
     ([0x61, 0, 0x62, 0] @ [0, 0, 0, 0, 0, 0, 0, 0, 0, 0, 0, 0] @ [2, 0, 0, 0, 0, 0, 0, 0, 0, 0, 0, 0] @
      [0, 0, 0, 0, 0, 0, 0, 0] @ [1, 0, 0, 0, 0, 0, 0, 0])"

theorem binary_search_finds_witness:
  "\<exists>r. binary_search two_symbols [0x62] 0x1000 0x1004 2 = Inr r \<and>
    search_ok 0x1004 [[0x61], [0x62]] [0x62] r"
  using binary_search_finds [of two_symbols "0x1000" "0x1004" "[[0x61], [0x62]]" "[0x62]"]
  by (simp add: two_symbols_def mem_of_def rd32_def rd8_def le32_def)

text \<open>
  C8: the search over a table of contents does the same through the indices of its entries, for a
  table of at most 2 ^ 30 entries and from any hint below 2 ^ 31. A greater hint becomes a negative
  index, which is outside of the table.
\<close>

theorem binary_search_toc_finds:
  assumes "toc_names m pool symbols toc names" "sorted names" "0 \<notin> set key"
    "length names \<le> 2 ^ 30" "hint < 2 ^ 31"
  shows "\<exists>r. binary_search_toc m key pool symbols toc (of_nat (length names)) hint = Inr r \<and>
    toc_result_ok m symbols toc names key r"
  using assms by (rule binary_search_toc_correct)

theorem binary_search_toc_finds_witness:
  "\<exists>r. binary_search_toc two_symbols [0x61] 0x1000 0x1004 0x101C 2 1 = Inr r \<and>
    toc_result_ok two_symbols 0x1004 0x101C [[0x61], [0x62]] [0x61] r"
  using binary_search_toc_finds [of two_symbols "0x1000" "0x1004" "0x101C" "[[0x61], [0x62]]" "[0x61]" 1]
  by (simp add: toc_names_def All_less_Suc two_symbols_def mem_of_def rd32_def rd8_def le32_def)

text \<open>From a hint of 2 ^ 31 or more the search reads in front of the table.\<close>

lemma large_hint_faults:
  "binary_search_toc two_symbols [0x61] 0x1000 0x1004 0x101C 2 0xFF000000 = Inl (Fault 0xF800101C)"
  by (simp add: binary_search_toc_def binary_search_toc_loop.simps two_symbols_def mem_of_def rd32_def rd8_def)

end
