(* ===== verification/ExportTrie.thy ===== *)
theory ExportTrie
  imports LnkUtil SymbolSearch "HOL-Library.Sublist"
begin

text \<open>
  The walk of a compressed image's export trie (\<open>trie_walk\<close> of src/core/lnk_util.cpp), and
  the trie the link editor means by those bytes. The symbol name is the list of its bytes; its
  terminator reads as zero.
\<close>

section \<open>The walk\<close>

text \<open>
  Scanning an edge: the characters are compared with the symbol until the first difference,
  and the scan runs to the edge's terminator either way.
\<close>

definition cs_hd :: "u8 list \<Rightarrow> u8" where
  "cs_hd s = (case s of [] \<Rightarrow> 0 | c # _ \<Rightarrow> c)"

function scan_edge :: "mem \<Rightarrow> u32 \<Rightarrow> u8 list \<Rightarrow> bool \<Rightarrow> (u32 \<times> u8 list \<times> bool) res" where
  "scan_edge m p ss wrongEdge = bindR (rd8 m p) (\<lambda>c.
     if c = 0 then Inr (p, ss, wrongEdge)
     else if p = - 1 then Inl Undefined
     else if \<not> wrongEdge then scan_edge m (p + 1) (tl ss) (c \<noteq> cs_hd ss)
     else scan_edge m (p + 1) ss wrongEdge)"
  by pat_completeness auto
termination
  by (relation "measure (\<lambda>(m, p, ss, w). 2 ^ 32 - unat p)")
     (auto simp: unat_ptr_Suc intro!: diff_less_ptr)

declare scan_edge.simps [simp del]

text \<open>Skipping an offset that is not followed: up to its last byte, and over it.\<close>

function skip_uleb128 :: "mem \<Rightarrow> u32 \<Rightarrow> u32 res" where
  "skip_uleb128 m p = bindR (rd8 m p) (\<lambda>b.
     if b AND 0x80 = 0 then Inr (p + 1)
     else if p = - 1 then Inl Undefined
     else skip_uleb128 m (p + 1))"
  by pat_completeness auto
termination
  by (relation "measure (\<lambda>(m, p). 2 ^ 32 - unat p)")
     (auto simp: unat_ptr_Suc intro!: diff_less_ptr)

declare skip_uleb128.simps [simp del]

text \<open>
  One turn of the outer loop ends with a terminal node found, or with the offset of the next
  node (zero where no edge matched) and what is left of the symbol.
\<close>

datatype trie_turn = Found u32 | Next u32 "u8 list"

fun trie_children :: "mem \<Rightarrow> u32 \<Rightarrow> nat \<Rightarrow> u32 \<Rightarrow> u8 list \<Rightarrow> trie_turn res" where
  "trie_children m end 0 p s = Inr (Next 0 s)"
| "trie_children m end (Suc childrenRemaining) p s =
     bindR (scan_edge m p s False) (\<lambda>(p, ss, wrongEdge).
       if wrongEdge then
         bindR (skip_uleb128 m (p + 1)) (\<lambda>p. trie_children m end childrenRemaining p s)
       else
         bindR (read_uleb128 m (p + 1) end) (\<lambda>(nodeOffset, p). Inr (Next nodeOffset ss)))"

definition trie_node :: "mem \<Rightarrow> u32 \<Rightarrow> u32 \<Rightarrow> u8 list \<Rightarrow> trie_turn res" where
  "trie_node m end p s = bindR (rd8 m p) (\<lambda>t.
     bindR (if t > 127 then read_uleb128 m p end else Inr (ucast t, p + 1)) (\<lambda>(terminalSize, p).
       if s = [] \<and> terminalSize \<noteq> 0 then Inr (Found p)
       else
         let children = p + terminalSize in
         bindR (rd8 m children) (\<lambda>childrenRemaining.
           trie_children m end (unat childrenRemaining) (children + 1) s)))"

partial_function (option) trie_walk_loop ::
    "mem \<Rightarrow> u32 \<Rightarrow> u32 \<Rightarrow> u32 \<Rightarrow> u8 list \<Rightarrow> u32 option res option" where
  "trie_walk_loop m start end p s =
     (if p = 0 then Some (Inr None)
      else (case trie_node m end p s of
          Inl e \<Rightarrow> Some (Inl e)
        | Inr (Found q) \<Rightarrow> Some (Inr (Some q))
        | Inr (Next nodeOffset s') \<Rightarrow>
            trie_walk_loop m start end (if nodeOffset \<noteq> 0 then start + nodeOffset else 0) s'))"

definition trie_walk :: "mem \<Rightarrow> u32 \<Rightarrow> u32 \<Rightarrow> u8 list \<Rightarrow> u32 option res option" where
  "trie_walk m start end s = trie_walk_loop m start end start s"

section \<open>The trie that is meant\<close>

text \<open>A node has its terminal information (empty for none) and its labelled children.\<close>

datatype etrie = ETrie (etrie_info: "u8 list") (etrie_kids: "(u8 list \<times> etrie) list")

text \<open>Lookup takes the first child whose label is a prefix, as the code does.\<close>

fun etrie_lookup :: "etrie \<Rightarrow> u8 list \<Rightarrow> u8 list option"
  and kids_lookup :: "(u8 list \<times> etrie) list \<Rightarrow> u8 list \<Rightarrow> u8 list option" where
  "etrie_lookup (ETrie info kids) s =
     (if s = [] \<and> info \<noteq> [] then Some info else kids_lookup kids s)"
| "kids_lookup [] s = None"
| "kids_lookup ((edge, kid) # kids) s =
     (if prefix edge s then etrie_lookup kid (drop (length edge) s) else kids_lookup kids s)"

text \<open>The exported names of a trie, with their information.\<close>

fun etrie_entries :: "etrie \<Rightarrow> (u8 list \<times> u8 list) list"
  and kids_entries :: "(u8 list \<times> etrie) list \<Rightarrow> (u8 list \<times> u8 list) list" where
  "etrie_entries (ETrie info kids) = (if info = [] then [] else [([], info)]) @ kids_entries kids"
| "kids_entries [] = []"
| "kids_entries ((edge, kid) # kids) =
     map (\<lambda>(s, info). (edge @ s, info)) (etrie_entries kid) @ kids_entries kids"

text \<open>
  Well formed: no label is empty and no two labels of a node start with the same character, so
  at most one label can match.
\<close>

fun etrie_wf :: "etrie \<Rightarrow> bool"
  and kids_wf :: "(u8 list \<times> etrie) list \<Rightarrow> bool" where
  "etrie_wf (ETrie info kids) = kids_wf kids"
| "kids_wf [] = True"
| "kids_wf ((edge, kid) # kids) =
     (edge \<noteq> [] \<and> hd edge \<notin> hd ` fst ` set kids \<and> etrie_wf kid \<and> kids_wf kids)"

lemma kids_entries_ne: "kids_wf kids \<Longrightarrow> (s, info) \<in> set (kids_entries kids) \<Longrightarrow>
    s \<noteq> [] \<and> hd s \<in> hd ` fst ` set kids"
  by (induction kids) auto

lemma lookup_entries:
  "etrie_wf t \<Longrightarrow> etrie_lookup t s = Some info \<longleftrightarrow> (s, info) \<in> set (etrie_entries t)"
  "kids_wf kids \<Longrightarrow> kids_lookup kids s = Some info \<longleftrightarrow> (s, info) \<in> set (kids_entries kids)"
proof (induction t s and kids s arbitrary: info and info
    rule: etrie_lookup_kids_lookup.induct)
  case (1 i kids s)
  then show ?case using kids_entries_ne [of kids "[]"] by (cases "s = [] \<and> i \<noteq> []") auto
next
  case (2 s)
  then show ?case by simp
next
  case (3 edge kid kids s)
  show ?case
  proof (cases "prefix edge s")
    case True
    then obtain s' where s: "s = edge @ s'" by (auto simp: prefix_def)
    with "3.prems" have "(s, info) \<notin> set (kids_entries kids)"
      using kids_entries_ne [of kids s info] by auto
    with 3 True s show ?thesis by auto
  next
    case False
    with 3 show ?thesis by (auto simp: prefix_def)
  qed
qed

section \<open>The trie in memory\<close>

text \<open>
  The bytes of a node: the size of its information, the information, the number of children,
  and for each child its label and the offset of its node from the start of the trie.
\<close>

inductive trie_at :: "mem \<Rightarrow> u32 \<Rightarrow> u32 \<Rightarrow> u32 \<Rightarrow> etrie \<Rightarrow> bool"
  and kids_at :: "mem \<Rightarrow> u32 \<Rightarrow> u32 \<Rightarrow> u32 \<Rightarrow> (u8 list \<times> etrie) list \<Rightarrow> bool"
  for m :: mem and start e :: u32
  where
  trie_node: "trie_at m start e p (ETrie info kids)"
    if "p \<noteq> 0" "bytes_at m p (uleb_encode (length info))"
      "start \<le> p" "unat p + length (uleb_encode (length info)) + length info < unat e"
      "length info < 2 ^ 32" "bytes_at m (p + uleb_size (length info)) info"
      "m (p + uleb_size (length info) + of_nat (length info)) = Some (of_nat (length kids))"
      "length kids < 256"
      "kids_at m start e (p + uleb_size (length info) + of_nat (length info) + 1) kids"
| kids_none: "kids_at m start e p []"
| kids_some: "kids_at m start e p ((edge, kid) # kids)"
    if "cstr_is m p edge" "0 < off" "off < 2 ^ 32"
      "bytes_at m (p + of_nat (length edge) + 1) (uleb_encode off)"
      "unat p + length edge + 1 + length (uleb_encode off) \<le> unat e"
      "trie_at m start e (start + of_nat off) kid"
      "kids_at m start e (p + of_nat (length edge) + 1 + uleb_size off) kids"

inductive_cases trie_at_nodeE: "trie_at m start e p (ETrie info kids)"
inductive_cases kids_at_ConsE: "kids_at m start e p ((edge, kid) # kids)"
inductive_simps kids_at_Nil [simp]: "kids_at m start e p []"

lemma room_not_max: "unat p + n < 2 ^ 32 \<Longrightarrow> 0 < n \<Longrightarrow> p \<noteq> (- 1 :: u32)"
  using unat_ptr_Suc [of p] unat_u32_less [of p] by (auto simp: unsigned_minus_1_eq_mask mask_eq_exp_minus_1)

lemma scan_edge_end: "m p = Some 0 \<Longrightarrow> scan_edge m p ss w = Inr (p, ss, w)"
  by (simp add: scan_edge.simps [of m p])

lemma scan_edge_step:
  "m p = Some c \<Longrightarrow> c \<noteq> 0 \<Longrightarrow> p \<noteq> - 1 \<Longrightarrow> scan_edge m p ss w =
     (if w then scan_edge m (p + 1) ss w else scan_edge m (p + 1) (tl ss) (c \<noteq> cs_hd ss))"
  by (simp add: scan_edge.simps [of m p])

lemma scan_edge_wrong:
  "cstr_is m p edge \<Longrightarrow> unat p + length edge < 2 ^ 32 \<Longrightarrow>
     scan_edge m p ss True = Inr (p + of_nat (length edge), ss, True)"
proof (induction edge arbitrary: p)
  case Nil
  then show ?case by (simp add: scan_edge_end)
next
  case (Cons c edge)
  from Cons.prems(2) have p: "p \<noteq> - 1" by (intro room_not_max [of p "length (c # edge)"]) simp_all
  with Cons.IH [of "p + 1"] Cons.prems show ?case
    by (simp add: scan_edge_step [of m p c] unat_ptr_Suc [OF p] add.assoc)
qed

lemma scan_edge_correct:
  assumes "cstr_is m p edge" "unat p + length edge < 2 ^ 32" "0 \<notin> set ss"
  shows "\<exists>ss'. scan_edge m p ss False = Inr (p + of_nat (length edge), ss', \<not> prefix edge ss) \<and>
    (prefix edge ss \<longrightarrow> ss' = drop (length edge) ss)"
  using assms
proof (induction edge arbitrary: p ss)
  case Nil
  then show ?case by (simp add: scan_edge_end)
next
  case (Cons c edge)
  from Cons.prems(2) have p: "p \<noteq> - 1" by (intro room_not_max [of p "length (c # edge)"]) simp_all
  note step = scan_edge_step [of m p c] unat_ptr_Suc [OF p]
  show ?case
  proof (cases "c = cs_hd ss")
    case True
    with Cons.prems(1) obtain ss1 where ss: "ss = c # ss1"
      by (cases ss) (auto simp: cs_hd_def)
    then have "cs_hd ss = c" by (simp add: cs_hd_def)
    with ss Cons.prems p Cons.IH [of "p + 1" ss1] show ?thesis
      by (simp add: step add.assoc)
  next
    case False
    then have "\<not> prefix (c # edge) ss" by (cases ss) (auto simp: cs_hd_def)
    moreover have "scan_edge m (p + 1) (tl ss) True = Inr (p + 1 + of_nat (length edge), tl ss, True)"
      using Cons.prems p by (intro scan_edge_wrong) (simp_all add: step)
    ultimately show ?thesis using Cons.prems p False
      by (simp add: step add.assoc)
  qed
qed

lemma skip_uleb128_encode:
  "bytes_at m p (uleb_encode n) \<Longrightarrow> unat p + length (uleb_encode n) \<le> unat (e :: u32) \<Longrightarrow>
     skip_uleb128 m p = Inr (p + of_nat (length (uleb_encode n)))"
proof (induction n arbitrary: p rule: uleb_encode.induct)
  case (1 n)
  show ?case
  proof (cases "n < 128")
    case True
    with "1.prems" show ?thesis
      by (subst skip_uleb128.simps) (auto simp: uleb_encode.simps [of n] uleb_byte_high)
  next
    case False
    then have enc: "uleb_encode n = of_nat (n mod 128 + 128) # uleb_encode (n div 128)"
      by (simp add: uleb_encode.simps [of n])
    from "1.prems"(2) have p: "p \<noteq> - 1"
      by (intro ptr_below_not_max [of p e]) (simp add: enc)
    define b where "b = (of_nat (n mod 128 + 128) :: u8)"
    have "m p = Some b" "b AND 0x80 \<noteq> 0"
      using "1.prems"(1) uleb_byte_high(2) [of n] by (simp_all add: enc b_def)
    with p have "skip_uleb128 m p = skip_uleb128 m (p + 1)"
      by (simp add: skip_uleb128.simps [of m p])
    with "1.IH" [OF False, of "p + 1"] "1.prems" p show ?thesis
      by (simp add: enc unat_ptr_Suc [OF p] add.assoc)
  qed
qed

section \<open>The walk finds what the trie exports\<close>

lemma trie_walk_loop_null: "trie_walk_loop m start e 0 s = Some (Inr None)"
  by (subst trie_walk_loop.simps) simp

lemma trie_walk_loop_found:
  "p \<noteq> 0 \<Longrightarrow> trie_node m e p s = Inr (Found q) \<Longrightarrow>
     trie_walk_loop m start e p s = Some (Inr (Some q))"
  by (subst trie_walk_loop.simps) simp

lemma trie_walk_loop_next:
  "p \<noteq> 0 \<Longrightarrow> trie_node m e p s = Inr (Next off s') \<Longrightarrow> trie_walk_loop m start e p s =
     trie_walk_loop m start e (if off \<noteq> 0 then start + off else 0) s'"
  by (subst trie_walk_loop.simps) simp

lemmas trie_walk_steps = trie_walk_loop_null trie_walk_loop_found trie_walk_loop_next

text \<open>Where the walk ends: an address inside the trie that holds the information.\<close>

definition info_at :: "mem \<Rightarrow> u32 \<Rightarrow> u32 \<Rightarrow> u32 \<Rightarrow> u8 list \<Rightarrow> bool" where
  "info_at m start e q info \<longleftrightarrow>
     info \<noteq> [] \<and> bytes_at m q info \<and> start \<le> q \<and> unat q + length info < unat e"

lemma info_after_header:
  assumes "start \<le> p" "unat p + length (uleb_encode (length info)) + length info < unat e"
    "info \<noteq> []" "bytes_at m (p + uleb_size (length info)) info"
  shows "info_at m start e (p + uleb_size (length info)) info"
proof -
  have "unat (p + uleb_size (length info)) = unat p + length (uleb_encode (length info))"
    using assms(2) unat_u32_less [of e]
    by (simp add: uleb_size_def unat_word_ariths unsigned_of_nat take_bit_eq_mod)
  with assms show ?thesis by (simp add: info_at_def word_le_nat_alt)
qed

definition walk_ok :: "mem \<Rightarrow> u32 \<Rightarrow> u32 \<Rightarrow> u32 \<Rightarrow> u8 list \<Rightarrow> u8 list option \<Rightarrow> bool" where
  "walk_ok m start e p s res \<longleftrightarrow> (\<exists>r. trie_walk_loop m start e p s = Some (Inr r) \<and>
     (case r of None \<Rightarrow> res = None
      | Some q \<Rightarrow> (\<exists>info. res = Some info \<and> info_at m start e q info)))"

lemma trie_terminal_read:
  assumes "bytes_at m p (uleb_encode n)" "unat p + length (uleb_encode n) \<le> unat e" "n < 2 ^ 32"
  shows "bindR (rd8 m p) (\<lambda>t. if t > 127 then read_uleb128 m p e else Inr (ucast t, p + 1)) =
    Inr (of_nat n, p + of_nat (length (uleb_encode n)))"
proof (cases "n < 128")
  case True
  with assms(1) have "m p = Some (of_nat n)" by (simp add: uleb_encode.simps [of n])
  moreover have "\<not> (of_nat n :: u8) > 127" "(ucast (of_nat n :: u8) :: u32) = of_nat n"
    using True by (simp_all add: word_less_nat_alt unsigned_of_nat take_bit_eq_mod)
  ultimately show ?thesis using True by (simp add: uleb_encode.simps [of n])
next
  case False
  define b where "b = (of_nat (n mod 128 + 128) :: u8)"
  have "m p = Some b" using False assms(1) by (simp add: b_def uleb_encode.simps [of n])
  moreover have "b > 127"
    unfolding b_def by (simp only: word_less_nat_alt unsigned_of_nat take_bit_eq_mod) simp
  ultimately show ?thesis using read_uleb128_encode [OF assms(1,2)] assms(3) by simp
qed

lemma set_drop_no_zero: "0 \<notin> set s \<Longrightarrow> 0 \<notin> set (drop n s)"
  using set_drop_subset [of n s] by blast

lemma of_nat_u32_eq_0: "n < 2 ^ 32 \<Longrightarrow> (of_nat n :: u32) = 0 \<longleftrightarrow> n = 0"
  by (simp add: word_of_nat_eq_0_iff) (auto dest: dvd_imp_le)

text \<open>What the code does at a node, given its header and what it does with the children.\<close>

lemma trie_node_eq:
  assumes "bytes_at m p (uleb_encode (length info))"
    "unat p + length (uleb_encode (length info)) + length info < unat e" "length info < 2 ^ 32"
    "m (p + uleb_size (length info) + of_nat (length info)) = Some (of_nat n)" "n < 256"
  shows "trie_node m e p s =
    (if s = [] \<and> info \<noteq> [] then Inr (Found (p + uleb_size (length info)))
     else trie_children m e n (p + uleb_size (length info) + of_nat (length info) + 1) s)"
proof -
  have terminal: "bindR (rd8 m p) (\<lambda>t. if t > 127 then read_uleb128 m p e else Inr (ucast t, p + 1)) =
      Inr (of_nat (length info), p + uleb_size (length info))"
    unfolding uleb_size_def using assms(1-3) by (intro trie_terminal_read) simp_all
  have "unat (of_nat n :: u8) = n" using assms(5) by (simp add: unsigned_of_nat take_bit_eq_mod)
  then show ?thesis
    unfolding trie_node_def bindR_assoc [symmetric] terminal
    using assms(4) of_nat_u32_eq_0 [OF assms(3)] by simp
qed

lemma walk_ok_found:
  "p \<noteq> 0 \<Longrightarrow> trie_node m e p s = Inr (Found q) \<Longrightarrow> info_at m start e q info \<Longrightarrow>
     walk_ok m start e p s (Some info)"
  by (simp add: walk_ok_def trie_walk_loop_found)

lemma walk_ok_next:
  assumes "p \<noteq> 0" "trie_node m e p s = Inr (Next off s')"
    "walk_ok m start e (if off \<noteq> 0 then start + off else 0) s' res"
  shows "walk_ok m start e p s res"
  using assms(3) unfolding walk_ok_def trie_walk_loop_next [OF assms(1,2)] .

text \<open>What the code does at a child: take it, or step over it.\<close>

definition child_at :: "mem \<Rightarrow> u32 \<Rightarrow> u32 \<Rightarrow> u8 list \<Rightarrow> nat \<Rightarrow> bool" where
  "child_at m e p edge off \<longleftrightarrow> cstr_is m p edge \<and> 0 < off \<and> off < 2 ^ 32 \<and>
     bytes_at m (p + of_nat (length edge) + 1) (uleb_encode off) \<and>
     unat p + length edge + 1 + length (uleb_encode off) \<le> unat e"

lemma child_at_room:
  assumes "child_at m e p edge off"
  shows "unat (p + of_nat (length edge) + 1) + length (uleb_encode off) \<le> unat e"
proof -
  from assms have room: "unat p + length edge + 1 + length (uleb_encode off) \<le> unat e"
    by (simp add: child_at_def)
  with unat_u32_less [of e] have "unat (p + of_nat (length edge) + 1) = unat p + length edge + 1"
    by (simp add: unat_word_ariths unsigned_of_nat take_bit_eq_mod)
  with room show ?thesis by linarith
qed

lemma child_at_scan:
  assumes "child_at m e p edge off" "0 \<notin> set s"
  shows "\<exists>ss. scan_edge m p s False = Inr (p + of_nat (length edge), ss, \<not> prefix edge s) \<and>
    (prefix edge s \<longrightarrow> ss = drop (length edge) s)"
proof -
  from assms(1) unat_u32_less [of e] have "cstr_is m p edge" "unat p + length edge < 2 ^ 32"
    by (simp_all add: child_at_def)
  from scan_edge_correct [OF this assms(2)] show ?thesis .
qed

lemma trie_children_take:
  assumes "child_at m e p edge off" "0 \<notin> set s" "prefix edge s"
  shows "trie_children m e (Suc n) p s = Inr (Next (of_nat off) (drop (length edge) s))"
proof -
  from child_at_scan [OF assms(1,2)] assms(3)
  have ss: "scan_edge m p s False = Inr (p + of_nat (length edge), drop (length edge) s, False)"
    by auto
  have "off < 2 ^ 64" using assms(1) by (simp add: child_at_def)
  from read_uleb128_encode [OF _ child_at_room [OF assms(1)] this] assms(1)
  have "read_uleb128 m (p + of_nat (length edge) + 1) e =
      Inr (of_nat off, p + of_nat (length edge) + 1 + of_nat (length (uleb_encode off)))"
    by (simp add: child_at_def)
  then show ?thesis by (simp add: ss)
qed

lemma trie_children_skip:
  assumes "child_at m e p edge off" "0 \<notin> set s" "\<not> prefix edge s"
  shows "trie_children m e (Suc n) p s =
    trie_children m e n (p + of_nat (length edge) + 1 + uleb_size off) s"
proof -
  from child_at_scan [OF assms(1,2)] assms(3) obtain ss where
    ss: "scan_edge m p s False = Inr (p + of_nat (length edge), ss, True)" by auto
  from skip_uleb128_encode [OF _ child_at_room [OF assms(1)]] assms(1)
  have "skip_uleb128 m (p + of_nat (length edge) + 1) =
      Inr (p + of_nat (length edge) + 1 + uleb_size off)"
    by (simp add: child_at_def uleb_size_def)
  then show ?thesis by (simp add: ss)
qed

text \<open>
  By induction on the trie in memory: the walk from a node, and the scan of a list of
  children followed by the walk from the node it selects.
\<close>

lemma trie_walk_refines:
  "trie_at m start e p t \<Longrightarrow> (\<forall>s. 0 \<notin> set s \<longrightarrow> walk_ok m start e p s (etrie_lookup t s))"
  "kids_at m start e p kids \<Longrightarrow> (\<forall>s. 0 \<notin> set s \<longrightarrow>
     (\<exists>off s'. trie_children m e (length kids) p s = Inr (Next off s') \<and>
       walk_ok m start e (if off \<noteq> 0 then start + off else 0) s' (kids_lookup kids s)))"
proof (induction p t and p kids rule: trie_at_kids_at.inducts)
  case (trie_node p info kids)
  show ?case
  proof (intro allI impI)
    fix s :: "u8 list" assume s: "0 \<notin> set s"
    have node: "trie_node m e p s =
      (if s = [] \<and> info \<noteq> [] then Inr (Found (p + uleb_size (length info)))
       else trie_children m e (length kids) (p + uleb_size (length info) + of_nat (length info) + 1) s)"
      by (intro trie_node_eq trie_node)
    show "walk_ok m start e p s (etrie_lookup (ETrie info kids) s)"
    proof (cases "s = [] \<and> info \<noteq> []")
      case True
      with node trie_node show ?thesis by (auto intro!: walk_ok_found info_after_header)
    next
      case False
      with node trie_node.IH s obtain off s' where "trie_node m e p s = Inr (Next off s')"
        "walk_ok m start e (if off \<noteq> 0 then start + off else 0) s' (kids_lookup kids s)"
        by metis
      from walk_ok_next [OF trie_node(1) this] False show ?thesis by auto
    qed
  qed
next
  case (kids_none p)
  then show ?case by (simp add: walk_ok_def trie_walk_loop_null)
next
  case (kids_some p edge off kid kids)
  then have child: "child_at m e p edge off" by (simp add: child_at_def)
  show ?case
  proof (intro allI impI)
    fix s :: "u8 list" assume s: "0 \<notin> set s"
    show "\<exists>off s'. trie_children m e (length ((edge, kid) # kids)) p s = Inr (Next off s') \<and>
      walk_ok m start e (if off \<noteq> 0 then start + off else 0) s' (kids_lookup ((edge, kid) # kids) s)"
    proof (cases "prefix edge s")
      case True
      have "(of_nat off :: u32) \<noteq> 0" using child of_nat_u32_eq_0 [of off] by (simp add: child_at_def)
      with True s kids_some(5) set_drop_no_zero [OF s] show ?thesis
        by (simp add: trie_children_take [OF child s True] del: trie_children.simps)
    next
      case False
      with s kids_some(7) show ?thesis
        by (simp add: trie_children_skip [OF child s False] del: trie_children.simps)
    qed
  qed
qed

lemma trie_walk_correct:
  assumes "trie_at m start e start t" "etrie_wf t" "0 \<notin> set s"
  shows "\<exists>r. trie_walk m start e s = Some (Inr r) \<and>
    (case r of None \<Rightarrow> s \<notin> fst ` set (etrie_entries t)
     | Some q \<Rightarrow> (\<exists>info. (s, info) \<in> set (etrie_entries t) \<and> info_at m start e q info))"
proof -
  from trie_walk_refines(1) [OF assms(1), rule_format, OF assms(3)] obtain r where
    r: "trie_walk m start e s = Some (Inr r)"
      "case r of None \<Rightarrow> etrie_lookup t s = None
       | Some q \<Rightarrow> (\<exists>info. etrie_lookup t s = Some info \<and> info_at m start e q info)"
    by (auto simp: walk_ok_def trie_walk_def)
  note entries = lookup_entries(1) [OF assms(2), of s]
  show ?thesis
  proof (cases r)
    case None
    with r(2) have "s \<notin> fst ` set (etrie_entries t)"
      using entries by (force simp: image_iff)
    with None r(1) show ?thesis by simp
  next
    case (Some q)
    with r entries show ?thesis by auto
  qed
qed

section \<open>Properties\<close>

text \<open>
  C3: on the bytes of a well-formed trie the walk always ends, returns NULL exactly for the
  names the trie does not export, and for an exported name the address of its information.
\<close>

theorem trie_walk_finds:
  assumes "trie_at m start e start t" "etrie_wf t" "0 \<notin> set s"
  shows "\<exists>r. trie_walk m start e s = Some (Inr r) \<and>
    (case r of None \<Rightarrow> s \<notin> fst ` set (etrie_entries t)
     | Some q \<Rightarrow> (\<exists>info. (s, info) \<in> set (etrie_entries t) \<and> info_at m start e q info))"
  using assms by (rule trie_walk_correct)

text \<open>A root with one edge \<open>a\<close> to a terminal node.\<close>

definition small_trie :: mem where
  "small_trie = mem_of 0x1000 [0, 1, 0x61, 0, 5, 1, 7, 0]"

lemma small_trie_at:
  "trie_at small_trie 0x1000 0x1008 0x1000 (ETrie [] [([0x61], ETrie [7] [])])"
  by (intro trie_node kids_some [where off = 5] kids_none)
     (simp_all add: small_trie_def mem_of_def uleb_encode.simps uleb_size_def)

theorem trie_walk_finds_witness:
  "\<exists>q. trie_walk small_trie 0x1000 0x1008 [0x61] = Some (Inr (Some q)) \<and> info_at small_trie 0x1000 0x1008 q [7]"
  using trie_walk_finds [OF small_trie_at, of "[0x61]"] by (auto split: option.splits)

end
