(* ===== verification/MachoImage.thy ===== *)
theory MachoImage
  imports CPrelude
begin

text \<open>
  The images the linker works on (src/core/lnk_image.h, lnk_image.cpp, lnk_macho.h,
  lnk_macho.cpp, macho.h): the Mach-O load commands as the loader reads them, the fields of
  \<open>Image\<close> and \<open>MachObject\<close>, and the operations that only look at one image. An image is
  named by a number where the code has an \<open>Image *\<close>.
\<close>

section \<open>Load commands\<close>

record macho_section =
  sectname :: string
  sect_addr :: u32
  sect_size :: u32
  sect_flags :: u32
  reserved1 :: u32

record macho_segment_command =
  segname :: string
  vmaddr :: u32
  vmsize :: u32
  fileoff :: u32
  filesize :: u32
  initprot :: u32
  sections :: "macho_section list"

record dysymtab_command =
  iextdefsym :: u32
  nextdefsym :: u32
  tocoff :: u32
  ntoc :: u32
  indirectsymoff :: u32
  extreloff :: u32
  nextrel :: u32
  locreloff :: u32
  nlocrel :: u32

record dyld_info_command =
  rebase_off :: u32
  rebase_size :: u32
  bind_off :: u32
  bind_size :: u32
  weak_bind_off :: u32
  weak_bind_size :: u32
  lazy_bind_off :: u32
  lazy_bind_size :: u32
  export_off :: u32
  export_size :: u32

datatype dylib_kind = LoadDylib | LoadWeakDylib | ReexportDylib | LoadUpwardDylib

text \<open>
  \<open>LC_SYMTAB\<close> keeps the ten words that start the command: the code reads the same command as
  a \<open>dysymtab_command\<close> when the case falls through.
\<close>

datatype load_command =
    LC_SEGMENT macho_segment_command
  | LC_UNIXTHREAD u32
  | LC_ROUTINES u32
  | LC_DYLIB dylib_kind string
  | LC_SYMTAB (symoff: u32) (stroff: u32) (as_dysymtab: dysymtab_command)
  | LC_DYSYMTAB dysymtab_command
  | LC_DYLD_INFO dyld_info_command
  | LC_DYLD_INFO_ONLY dyld_info_command
  | LC_OTHER u32

section \<open>Images\<close>

datatype ImageType =
  kImageTypeUnknown | kImageTypeMachO | kImageTypeElf | kImageTypeBridge | kImageTypeCasper

type_synonym image_id = nat

record image =
  fNextImage :: "image_id option"
  fPrevImage :: "image_id option"
  fImageType :: ImageType
  fFilePath :: "string option"
  fOrigFilePath :: "string option"
  fModuleName :: "string option"
  fDependencies :: "image_id list"
  fHasInitialized :: bool
  fHeader :: u32
  fCommands :: "load_command list"
  fSegmentLoadCommands :: "macho_segment_command list"
  fSegmentsCount :: nat
  fEntryPoint :: u32
  fRoutines :: "u32 option"
  fReExports :: "image_id list"
  fIsClassic :: bool
  fIsSplitSeg :: bool
  fSlide :: u32
  fLinkEditBase :: u32
  fDyldInfo :: "dyld_info_command option"
  fDynamicInfo :: "dysymtab_command option"
  fSymtab :: u32
  fStrings :: u32

text \<open>\<open>new MachObject()\<close> has every field zero.\<close>

definition new_image :: image where
  "new_image = \<lparr>fNextImage = None, fPrevImage = None, fImageType = kImageTypeMachO,
     fFilePath = None, fOrigFilePath = None, fModuleName = None, fDependencies = [],
     fHasInitialized = False, fHeader = 0, fCommands = [], fSegmentLoadCommands = [],
     fSegmentsCount = 0, fEntryPoint = 0, fRoutines = None, fReExports = [], fIsClassic = False,
     fIsSplitSeg = False, fSlide = 0, fLinkEditBase = 0, fDyldInfo = None, fDynamicInfo = None,
     fSymtab = 0, fStrings = 0\<rparr>"

type_synonym images = "image_id \<Rightarrow> image option"

text \<open>Following an \<open>Image *\<close>: a name that no image has is not a valid pointer.\<close>

definition image_of :: "images \<Rightarrow> image_id \<Rightarrow> image res" where
  "image_of ims i = (case ims i of None \<Rightarrow> Inl Undefined | Some im \<Rightarrow> Inr im)"

lemma image_of_Some [simp]: "ims i = Some im \<Longrightarrow> image_of ims i = Inr im"
  by (simp add: image_of_def)

lemma image_of_eq_Inr_iff [simp]: "image_of ims i = Inr im \<longleftrightarrow> ims i = Some im"
  by (simp add: image_of_def split: option.split)

definition dependsOn :: "image \<Rightarrow> image_id \<Rightarrow> bool" where
  "dependsOn im i \<longleftrightarrow> i \<in> set (fDependencies im)"

fun dependenciesInitialized_loop :: "images \<Rightarrow> image_id list \<Rightarrow> bool res" where
  "dependenciesInitialized_loop ims [] = Inr True"
| "dependenciesInitialized_loop ims (d # ds) =
     bindR (image_of ims d) (\<lambda>dep.
       if \<not> fHasInitialized dep then Inr False else dependenciesInitialized_loop ims ds)"

definition dependenciesInitialized :: "images \<Rightarrow> image \<Rightarrow> bool res" where
  "dependenciesInitialized ims im = dependenciesInitialized_loop ims (fDependencies im)"

text \<open>\<open>strrchr(s, '/')\<close>: what follows the last slash, if there is one.\<close>

fun after_last_slash :: "string \<Rightarrow> string option" where
  "after_last_slash [] = None"
| "after_last_slash (c # cs) =
     (case after_last_slash cs of Some t \<Rightarrow> Some t | None \<Rightarrow> if c = CHR ''/'' then Some cs else None)"

definition getShortName :: "image \<Rightarrow> string option" where
  "getShortName im = (case fModuleName im of
     Some n \<Rightarrow> Some n
   | None \<Rightarrow> (case fFilePath im of
       None \<Rightarrow> None
     | Some path \<Rightarrow> (case after_last_slash path of Some s \<Rightarrow> Some s | None \<Rightarrow> Some path)))"

lemma after_last_slash_spec:
  "after_last_slash s = Some t \<longleftrightarrow> (\<exists>u. s = u @ CHR ''/'' # t) \<and> CHR ''/'' \<notin> set t"
proof (induction s arbitrary: t)
  case (Cons c s)
  show ?case
  proof (cases "after_last_slash s")
    case None
    with Cons.IH have "CHR ''/'' \<notin> set s"
      by (metis option.distinct(1) split_list_last)
    with None show ?thesis
      by (auto simp: Cons_eq_append_conv)
  next
    case (Some u)
    with Cons.IH [of u] obtain v where v: "s = v @ CHR ''/'' # u" "CHR ''/'' \<notin> set u" by auto
    have "(\<exists>w. c # s = w @ CHR ''/'' # t) \<and> CHR ''/'' \<notin> set t \<longleftrightarrow> (\<exists>w. s = w @ CHR ''/'' # t) \<and> CHR ''/'' \<notin> set t"
      using v by (auto simp: Cons_eq_append_conv) 
    with Some Cons.IH [of t] show ?thesis by simp
  qed
qed simp

section \<open>Segments\<close>

text \<open>
  \<open>fSegmentLoadCommands\<close> is an array of 64 pointers that starts out NULL: an index past the
  segments that were loaded reads through a NULL pointer.
\<close>

definition segLoadCmd :: "image \<Rightarrow> nat \<Rightarrow> macho_segment_command res" where
  "segLoadCmd im index =
     (if index < length (fSegmentLoadCommands im) then Inr (fSegmentLoadCommands im ! index)
      else if index < 64 then Inl (Fault 0) else Inl Undefined)"

definition segActualLoadAddr :: "image \<Rightarrow> nat \<Rightarrow> u32 res" where
  "segActualLoadAddr im index = mapR (\<lambda>seg. vmaddr seg + fSlide im) (segLoadCmd im index)"

definition segActualEndAddr :: "image \<Rightarrow> nat \<Rightarrow> u32 res" where
  "segActualEndAddr im index =
     bindR (segActualLoadAddr im index) (\<lambda>addr.
     bindR (segLoadCmd im index) (\<lambda>seg. Inr (addr + vmsize seg)))"

definition segFileOffset :: "image \<Rightarrow> nat \<Rightarrow> u32 res" where
  "segFileOffset im index = mapR fileoff (segLoadCmd im index)"

abbreviation (input) "VM_PROT_WRITE \<equiv> 2 :: u32"

definition segWriteable :: "image \<Rightarrow> nat \<Rightarrow> bool res" where
  "segWriteable im segIndex =
     mapR (\<lambda>seg. initprot seg AND VM_PROT_WRITE \<noteq> 0) (segLoadCmd im segIndex)"

fun firstWritable_loop :: "image \<Rightarrow> nat \<Rightarrow> nat \<Rightarrow> u32 res" where
  "firstWritable_loop im i 0 = Inl (Halt NoWritableSegment)"
| "firstWritable_loop im i (Suc n) =
     bindR (segWriteable im i) (\<lambda>w. if w then segActualLoadAddr im i else firstWritable_loop im (Suc i) n)"

definition getFirstWritableSegmentAddress :: "image \<Rightarrow> u32 res" where
  "getFirstWritableSegmentAddress im = firstWritable_loop im 0 (fSegmentsCount im)"

definition getClassicRelocBase :: "image \<Rightarrow> u32 res" where
  "getClassicRelocBase im =
     (if fIsSplitSeg im then getFirstWritableSegmentAddress im else segActualLoadAddr im 0)"

definition getTextSegmentBounds :: "image \<Rightarrow> (u32 \<times> u32) res" where
  "getTextSegmentBounds im =
     bindR (segActualLoadAddr im 0) (\<lambda>start.
     bindR (segActualEndAddr im 0) (\<lambda>end. Inr (start, end)))"

text \<open>
  The report of an address beyond its segment; the message prints the segment's start, so the
  index is followed once more before the halt.
\<close>

definition throwBadBindingAddress :: "image \<Rightarrow> nat \<Rightarrow> 'a res" where
  "throwBadBindingAddress im segmentIndex =
     bindR (segActualLoadAddr im segmentIndex) (\<lambda>_. Inl (Halt BadBindingAddress))"

lemma segActualLoadAddr_ok:
  "i < length (fSegmentLoadCommands im) \<Longrightarrow>
     segActualLoadAddr im i = Inr (vmaddr (fSegmentLoadCommands im ! i) + fSlide im)"
  by (simp add: segActualLoadAddr_def segLoadCmd_def)

lemma segActualEndAddr_ok:
  "i < length (fSegmentLoadCommands im) \<Longrightarrow> segActualEndAddr im i =
     Inr (vmaddr (fSegmentLoadCommands im ! i) + fSlide im + vmsize (fSegmentLoadCommands im ! i))"
  by (simp add: segActualEndAddr_def segActualLoadAddr_ok segLoadCmd_def)

lemma throwBadBindingAddress_not_ok [simp]: "throwBadBindingAddress im i \<noteq> Inr x"
  by (simp add: throwBadBindingAddress_def)

lemmas segment_defs = segLoadCmd_def segActualLoadAddr_def segActualEndAddr_def segFileOffset_def

end
