(* ===== verification/Rebase.thy ===== *)
theory Rebase
  imports MachoImage LnkUtil
begin

text \<open>
  Rebasing: the interpreter of a compressed image's rebase opcodes
  (\<open>MachObject::readRebase\<close>, \<open>MachObject::rebaseAt\<close> of src/core/lnk_macho.cpp) and what a
  list of opcodes means, namely the words that have the slide added to them.
\<close>

section \<open>Constants of the Mach-O ABI\<close>

abbreviation (input) "REBASE_TYPE_POINTER \<equiv> 1 :: u8"
abbreviation (input) "REBASE_TYPE_TEXT_ABSOLUTE32 \<equiv> 2 :: u8"
abbreviation (input) "REBASE_OPCODE_MASK \<equiv> 0xF0 :: u8"
abbreviation (input) "REBASE_IMMEDIATE_MASK \<equiv> 0x0F :: u8"
abbreviation (input) "REBASE_OPCODE_DONE \<equiv> 0x00 :: u8"
abbreviation (input) "REBASE_OPCODE_SET_TYPE_IMM \<equiv> 0x10 :: u8"
abbreviation (input) "REBASE_OPCODE_SET_SEGMENT_AND_OFFSET_ULEB \<equiv> 0x20 :: u8"
abbreviation (input) "REBASE_OPCODE_ADD_ADDR_ULEB \<equiv> 0x30 :: u8"
abbreviation (input) "REBASE_OPCODE_ADD_ADDR_IMM_SCALED \<equiv> 0x40 :: u8"
abbreviation (input) "REBASE_OPCODE_DO_REBASE_IMM_TIMES \<equiv> 0x50 :: u8"
abbreviation (input) "REBASE_OPCODE_DO_REBASE_ULEB_TIMES \<equiv> 0x60 :: u8"
abbreviation (input) "REBASE_OPCODE_DO_REBASE_ADD_ADDR_ULEB \<equiv> 0x70 :: u8"
abbreviation (input) "REBASE_OPCODE_DO_REBASE_ULEB_TIMES_SKIPPING_ULEB \<equiv> 0x80 :: u8"

section \<open>The interpreter\<close>

definition rebaseAt :: "mem \<Rightarrow> u32 \<Rightarrow> u32 \<Rightarrow> u8 \<Rightarrow> mem res" where
  "rebaseAt m addr slide type =
     (if type = REBASE_TYPE_POINTER then bindR (rd32 m addr) (\<lambda>v. wr32 m addr (v + slide))
      else if type = REBASE_TYPE_TEXT_ABSOLUTE32 then bindR (rd32 m addr) (\<lambda>v. wr32 m addr (v + slide))
      else Inl (Halt BadRebaseType))"

record rebase_state =
  rb_type :: u8
  rb_segmentIndex :: nat
  rb_address :: u32
  rb_segmentEndAddress :: u32
  rb_p :: u32
  rb_done :: bool
  rb_mem :: mem

text \<open>
  One pass of a rebase loop: the bounds check, the word, the step to the next address. The
  opcodes that rebase a run of words differ in the count and the step only.
\<close>

definition rebase_one :: "image \<Rightarrow> u32 \<Rightarrow> rebase_state \<Rightarrow> rebase_state res" where
  "rebase_one im step st =
     (if rb_address st \<ge> rb_segmentEndAddress st then throwBadBindingAddress im (rb_segmentIndex st)
      else bindR (rebaseAt (rb_mem st) (rb_address st) (fSlide im) (rb_type st)) (\<lambda>m.
        Inr (st\<lparr>rb_mem := m, rb_address := rb_address st + step\<rparr>)))"

fun rebase_times :: "image \<Rightarrow> u32 \<Rightarrow> nat \<Rightarrow> rebase_state \<Rightarrow> rebase_state res" where
  "rebase_times im step 0 st = Inr st"
| "rebase_times im step (Suc n) st = bindR (rebase_one im step st) (rebase_times im step n)"

definition rebase_uleb :: "u32 \<Rightarrow> rebase_state \<Rightarrow> (u32 \<times> rebase_state) res" where
  "rebase_uleb end st =
     mapR (\<lambda>(v, p). (v, st\<lparr>rb_p := p\<rparr>)) (read_uleb128 (rb_mem st) (rb_p st) end)"

text \<open>The body of the loop: one opcode.\<close>

definition rebase_step :: "image \<Rightarrow> u32 \<Rightarrow> rebase_state \<Rightarrow> rebase_state res" where
  "rebase_step im end st =
     bindR (rd8 (rb_mem st) (rb_p st)) (\<lambda>byte.
     let immediate = byte AND REBASE_IMMEDIATE_MASK; opcode = byte AND REBASE_OPCODE_MASK;
         st = st\<lparr>rb_p := rb_p st + 1\<rparr>
     in if opcode = REBASE_OPCODE_DONE then Inr (st\<lparr>rb_done := True\<rparr>)
     else if opcode = REBASE_OPCODE_SET_TYPE_IMM then Inr (st\<lparr>rb_type := immediate\<rparr>)
     else if opcode = REBASE_OPCODE_SET_SEGMENT_AND_OFFSET_ULEB then
       (let segmentIndex = unat immediate; st = st\<lparr>rb_segmentIndex := segmentIndex\<rparr>
        in if segmentIndex > fSegmentsCount im then Inl (Halt BadSegmentCountForRebase)
        else
          bindR (segActualLoadAddr im segmentIndex) (\<lambda>base.
          bindR (rebase_uleb end st) (\<lambda>(offset, st).
          bindR (segActualEndAddr im segmentIndex) (\<lambda>segEnd.
            Inr (st\<lparr>rb_address := base + offset, rb_segmentEndAddress := segEnd\<rparr>)))))
     else if opcode = REBASE_OPCODE_ADD_ADDR_ULEB then
       bindR (rebase_uleb end st) (\<lambda>(offset, st).
         Inr (st\<lparr>rb_address := rb_address st + offset\<rparr>))
     else if opcode = REBASE_OPCODE_ADD_ADDR_IMM_SCALED then
       Inr (st\<lparr>rb_address := rb_address st + ucast immediate * 4\<rparr>)
     else if opcode = REBASE_OPCODE_DO_REBASE_IMM_TIMES then
       rebase_times im 4 (unat immediate) st
     else if opcode = REBASE_OPCODE_DO_REBASE_ULEB_TIMES then
       bindR (rebase_uleb end st) (\<lambda>(count, st). rebase_times im 4 (unat count) st)
     else if opcode = REBASE_OPCODE_DO_REBASE_ADD_ADDR_ULEB then
       bindR (rebase_one im 0 st) (\<lambda>st.
       bindR (rebase_uleb end st) (\<lambda>(offset, st).
         Inr (st\<lparr>rb_address := rb_address st + (offset + 4)\<rparr>)))
     else if opcode = REBASE_OPCODE_DO_REBASE_ULEB_TIMES_SKIPPING_ULEB then
       bindR (rebase_uleb end st) (\<lambda>(count, st).
       bindR (rebase_uleb end st) (\<lambda>(skip, st). rebase_times im (skip + 4) (unat count) st))
     else bindR (rd8 (rb_mem st) (rb_p st)) (\<lambda>_. Inl (Halt InvalidRebaseOpcode)))"

definition rebase_running :: "u32 \<Rightarrow> rebase_state \<Rightarrow> bool" where
  "rebase_running end st \<longleftrightarrow> \<not> rb_done st \<and> rb_p st < end"

text \<open>The address starts in the first segment.\<close>

definition readRebase :: "image \<Rightarrow> mem \<Rightarrow> u32 \<Rightarrow> u32 \<Rightarrow> mem res option" where
  "readRebase im m start end =
     (case (segActualLoadAddr im 0, segActualEndAddr im 0) of
        (Inr address, Inr segmentEndAddress) \<Rightarrow>
          map_option (mapR rb_mem) (c_while (rebase_running end) (rebase_step im end)
            \<lparr>rb_type = 0, rb_segmentIndex = 0, rb_address = address,
             rb_segmentEndAddress = segmentEndAddress, rb_p = start, rb_done = False, rb_mem = m\<rparr>)
      | (Inl e, _) \<Rightarrow> Some (Inl e)
      | (_, Inl e) \<Rightarrow> Some (Inl e))"

section \<open>What a step may do\<close>

text \<open>Rebasing changes the contents of mapped memory only, and leaves the opcode pointer alone.\<close>

lemma rebaseAt_same_dom: "rebaseAt m a slide t = Inr m' \<Longrightarrow> same_dom m m'"
  by (auto simp: rebaseAt_def split: if_splits dest: wr32_same_dom)

lemma rebase_one_inv:
  "rebase_one im step st = Inr st' \<Longrightarrow>
     same_dom (rb_mem st) (rb_mem st') \<and> rb_p st' = rb_p st \<and> rb_done st' = rb_done st"
  by (auto simp: rebase_one_def split: if_splits dest: rebaseAt_same_dom)

lemma rebase_times_inv:
  "rebase_times im step n st = Inr st' \<Longrightarrow>
     same_dom (rb_mem st) (rb_mem st') \<and> rb_p st' = rb_p st \<and> rb_done st' = rb_done st"
  by (induction n arbitrary: st) (fastforce dest!: rebase_one_inv intro: same_dom_trans)+

lemma rebase_uleb_inv:
  "rebase_uleb e st = Inr (v, st') \<Longrightarrow> rb_p st \<le> e \<Longrightarrow>
     rb_p st < rb_p st' \<and> rb_p st' \<le> e \<and> rb_mem st' = rb_mem st \<and> rb_done st' = rb_done st"
  by (auto simp: rebase_uleb_def dest: uleb.advance)

text \<open>
  A step that returns has moved the pointer forward and not past the end, and has mapped or
  unmapped nothing.
\<close>

lemma rebase_step_progress:
  assumes "rebase_step im e st = Inr st'" "rb_p st < e"
  shows "rb_p st < rb_p st' \<and> rb_p st' \<le> e \<and> same_dom (rb_mem st) (rb_mem st')"
proof -
  have next': "rb_p st < rb_p st + 1" "rb_p st + 1 \<le> e" using ptr_step [of "rb_p st" e] assms(2) by auto
  then show ?thesis
    using assms(1) unfolding rebase_step_def
    by (auto simp: Let_def split: if_splits
          dest!: rebase_times_inv rebase_one_inv rebase_uleb_inv)
qed

interpretation rebase: opcode_stream "rebase_step im e" rb_p "rebase_running e" for im e
  by unfold_locales (auto simp: rebase_running_def dest: rebase_step_progress)

lemma readRebase_returns: "\<exists>r. readRebase im m start e = Some r"
  using rebase.returns [of e im]
  by (fastforce simp: readRebase_def split: sum.split)

lemma readRebase_same_dom:
  assumes "readRebase im m start e = Some (Inr m')"
  shows "same_dom m m'"
proof -
  from assms obtain s t where loop: "c_while (rebase_running e) (rebase_step im e) s = Some (Inr t)"
      and "rb_mem s = m" "rb_mem t = m'"
    by (auto simp: readRebase_def split: sum.splits)
  from loop have "same_dom m (rb_mem t)"
    by (rule rebase.preserves [where P = "\<lambda>s. same_dom m (rb_mem s)"])
       (auto simp: \<open>rb_mem s = m\<close> rebase_running_def intro: same_dom_trans dest: rebase_step_progress)
  with \<open>rb_mem t = m'\<close> show ?thesis by simp
qed

section \<open>What the opcodes mean\<close>

datatype rebase_op =
    RDone | RSetType nat | RSetSegment nat nat | RAddAddr nat | RAddAddrScaled nat
  | RDoTimesImm nat | RDoTimes nat | RDoAddAddr nat | RDoTimesSkipping nat nat

definition opcode_byte :: "u8 \<Rightarrow> nat \<Rightarrow> u8" where
  "opcode_byte opcode imm = opcode OR of_nat imm"

fun rebase_encode :: "rebase_op \<Rightarrow> u8 list" where
  "rebase_encode RDone = [opcode_byte 0x00 0]"
| "rebase_encode (RSetType t) = [opcode_byte 0x10 t]"
| "rebase_encode (RSetSegment i off) = opcode_byte 0x20 i # uleb_encode off"
| "rebase_encode (RAddAddr n) = opcode_byte 0x30 0 # uleb_encode n"
| "rebase_encode (RAddAddrScaled n) = [opcode_byte 0x40 n]"
| "rebase_encode (RDoTimesImm n) = [opcode_byte 0x50 n]"
| "rebase_encode (RDoTimes n) = opcode_byte 0x60 0 # uleb_encode n"
| "rebase_encode (RDoAddAddr n) = opcode_byte 0x70 0 # uleb_encode n"
| "rebase_encode (RDoTimesSkipping n skip) = opcode_byte 0x80 0 # uleb_encode n @ uleb_encode skip"

text \<open>Immediates take four bits and the other operands 32.\<close>

fun rebase_op_ok :: "rebase_op \<Rightarrow> bool" where
  "rebase_op_ok RDone = True"
| "rebase_op_ok (RSetType t) = (t < 16)"
| "rebase_op_ok (RSetSegment i off) = (i < 16 \<and> off < 2 ^ 32)"
| "rebase_op_ok (RAddAddr n) = (n < 2 ^ 32)"
| "rebase_op_ok (RAddAddrScaled n) = (n < 16)"
| "rebase_op_ok (RDoTimesImm n) = (n < 16)"
| "rebase_op_ok (RDoTimes n) = (n < 2 ^ 32)"
| "rebase_op_ok (RDoAddAddr n) = (n < 2 ^ 32)"
| "rebase_op_ok (RDoTimesSkipping n skip) = (n < 2 ^ 32 \<and> skip < 2 ^ 32)"

text \<open>
  The words a list of opcodes rebases, in order: \<open>None\<close> where an address is beyond its
  segment, a type is not a rebase type or a segment does not exist.
\<close>

fun word_run :: "u32 \<Rightarrow> u32 \<Rightarrow> nat \<Rightarrow> u32 list" where
  "word_run a step 0 = []"
| "word_run a step (Suc n) = a # word_run (a + step) step n"

definition run_ok :: "u8 \<Rightarrow> u32 \<Rightarrow> u32 list \<Rightarrow> bool" where
  "run_ok t segEnd ts \<longleftrightarrow> ts = [] \<or>
     (t = REBASE_TYPE_POINTER \<or> t = REBASE_TYPE_TEXT_ABSOLUTE32) \<and> (\<forall>a \<in> set ts. a < segEnd)"

fun op_exec :: "image \<Rightarrow> rebase_op \<Rightarrow> u8 \<times> u32 \<times> u32 \<Rightarrow> (u32 list \<times> (u8 \<times> u32 \<times> u32)) option" where
  "op_exec im RDone (t, a, segEnd) = Some ([], (t, a, segEnd))"
| "op_exec im (RSetType t') (t, a, segEnd) = Some ([], (of_nat t', a, segEnd))"
| "op_exec im (RSetSegment i off) (t, a, segEnd) =
     (if i < length (fSegmentLoadCommands im) \<and> i \<le> fSegmentsCount im then
        let seg = fSegmentLoadCommands im ! i; base = vmaddr seg + fSlide im
        in Some ([], (t, base + of_nat off, base + vmsize seg))
      else None)"
| "op_exec im (RAddAddr n) (t, a, segEnd) = Some ([], (t, a + of_nat n, segEnd))"
| "op_exec im (RAddAddrScaled n) (t, a, segEnd) = Some ([], (t, a + of_nat n * 4, segEnd))"
| "op_exec im (RDoTimesImm n) (t, a, segEnd) =
     (if run_ok t segEnd (word_run a 4 n) then Some (word_run a 4 n, (t, a + of_nat n * 4, segEnd))
      else None)"
| "op_exec im (RDoTimes n) (t, a, segEnd) =
     (if run_ok t segEnd (word_run a 4 n) then Some (word_run a 4 n, (t, a + of_nat n * 4, segEnd))
      else None)"
| "op_exec im (RDoAddAddr n) (t, a, segEnd) =
     (if run_ok t segEnd [a] then Some ([a], (t, a + (of_nat n + 4), segEnd)) else None)"
| "op_exec im (RDoTimesSkipping n skip) (t, a, segEnd) =
     (if run_ok t segEnd (word_run a (of_nat skip + 4) n)
      then Some (word_run a (of_nat skip + 4) n, (t, a + of_nat n * (of_nat skip + 4), segEnd))
      else None)"

fun rebase_targets :: "image \<Rightarrow> rebase_op list \<Rightarrow> u8 \<times> u32 \<times> u32 \<Rightarrow> u32 list option" where
  "rebase_targets im [] st = Some []"
| "rebase_targets im (op # ops) st =
     (if op = RDone then Some []
      else case op_exec im op st of None \<Rightarrow> None
        | Some (ts, st') \<Rightarrow> map_option ((@) ts) (rebase_targets im ops st'))"

text \<open>Adding the slide to each of a list of words.\<close>

fun slide_words :: "u32 \<Rightarrow> mem \<Rightarrow> u32 list \<Rightarrow> mem res" where
  "slide_words slide m [] = Inr m"
| "slide_words slide m (a # as) =
     bindR (rd32 m a) (\<lambda>v. bindR (wr32 m a (v + slide)) (\<lambda>m. slide_words slide m as))"

lemma slide_words_append:
  "slide_words slide m (xs @ ys) = bindR (slide_words slide m xs) (\<lambda>m. slide_words slide m ys)"
  by (induction xs arbitrary: m) (simp_all add: bindR_assoc)

definition words_of :: "u32 list \<Rightarrow> u32 set" where
  "words_of ts = (\<Union>a \<in> set ts. word_bytes a)"

lemma words_of_simps [simp]:
  "words_of [] = {}" "words_of (a # as) = word_bytes a \<union> words_of as"
  "words_of (as @ bs) = words_of as \<union> words_of bs"
  by (auto simp: words_of_def)

lemma slide_words_frame:
  "slide_words slide m as = Inr m' \<Longrightarrow> b \<notin> words_of as \<Longrightarrow> m' b = m b"
  by (induction as arbitrary: m) (auto dest: wr32_frame)

lemma bytes_at_cong:
  "bytes_at m p bs \<Longrightarrow> (\<And>i. i < length bs \<Longrightarrow> m' (p + of_nat i) = m (p + of_nat i)) \<Longrightarrow> bytes_at m' p bs"
proof (induction bs arbitrary: p)
  case (Cons b bs)
  have "m' p = m p" using Cons.prems(2) [of 0] by simp
  moreover have "m' (p + 1 + of_nat i) = m (p + 1 + of_nat i)" if "i < length bs" for i
    using Cons.prems(2) [of "Suc i"] that by (simp add: add.assoc)
  ultimately show ?case using Cons by simp
qed simp

section \<open>The interpreter does what the opcodes mean\<close>

lemma and_0xF0_small: "i < 16 \<Longrightarrow> (of_nat i :: u8) AND 0xF0 = 0"
  and and_0x0F_small: "i < 16 \<Longrightarrow> (of_nat i :: u8) AND 0x0F = of_nat i"
proof -
  assume "i < 16"
  then have "take_bit 4 i = i" by (simp add: take_bit_eq_mod)
  then have *: "(of_nat i :: u8) = take_bit 4 (of_nat i)" by (simp flip: of_nat_take_bit)
  have "take_bit 4 x AND 0xF0 = 0" "take_bit 4 x AND 0x0F = take_bit 4 x" for x :: u8
    by (simp_all add: take_bit_eq_mask mask_eq_exp_minus_1 and.assoc)
  with * show "(of_nat i :: u8) AND 0xF0 = 0" "(of_nat i :: u8) AND 0x0F = of_nat i" by metis+
qed

lemma opcode_byte_fields:
  assumes "i < 16" "c AND 0xF0 = c" "c AND 0x0F = 0"
  shows "opcode_byte c i AND 0xF0 = c" "opcode_byte c i AND 0x0F = of_nat i"
  using assms by (simp_all add: opcode_byte_def bit.conj_disj_distrib2 and_0xF0_small and_0x0F_small)

lemma unat_small_imm: "i < 16 \<Longrightarrow> unat (of_nat i :: u8) = i"
  by (simp add: unsigned_of_nat take_bit_eq_mod)

lemma ucast_small_imm: "i < 16 \<Longrightarrow> (ucast (of_nat i :: u8) :: u32) = of_nat i"
  by (simp add: unsigned_of_nat take_bit_eq_mod)

lemma unat_of_nat_u32: "n < 2 ^ 32 \<Longrightarrow> unat (of_nat n :: u32) = n"
  by (simp add: unsigned_of_nat take_bit_eq_mod)

lemmas imm_simps = opcode_byte_fields unat_small_imm ucast_small_imm unat_of_nat_u32

lemma rebase_uleb_encode:
  assumes "bytes_at (rb_mem st) (rb_p st) (uleb_encode n)"
    "unat (rb_p st) + length (uleb_encode n) \<le> unat e" "n < 2 ^ 32"
  shows "rebase_uleb e st = Inr (of_nat n, st\<lparr>rb_p := rb_p st + uleb_size n\<rparr>)"
  using read_uleb128_encode [OF assms(1,2)] assms(3) by (simp add: rebase_uleb_def uleb_size_def)

lemma rebase_one_slides:
  "run_ok (rb_type st) (rb_segmentEndAddress st) [rb_address st] \<Longrightarrow>
   rebase_one im step st = mapR (\<lambda>m. st\<lparr>rb_mem := m, rb_address := rb_address st + step\<rparr>)
     (slide_words (fSlide im) (rb_mem st) [rb_address st])"
  by (auto simp: rebase_one_def run_ok_def rebaseAt_def mapR_def bindR_assoc not_le)

lemma rebase_times_slides:
  "run_ok (rb_type st) (rb_segmentEndAddress st) (word_run (rb_address st) step n) \<Longrightarrow>
   slide_words (fSlide im) (rb_mem st) (word_run (rb_address st) step n) = Inr m' \<Longrightarrow>
   rebase_times im step n st =
     Inr (st\<lparr>rb_mem := m', rb_address := rb_address st + of_nat n * step\<rparr>)"
proof (induction n arbitrary: st)
  case 0
  then show ?case by simp
next
  case (Suc n)
  let ?a = "rb_address st"
  from Suc.prems(2) obtain v m1 where m1: "rd32 (rb_mem st) ?a = Inr v"
      "wr32 (rb_mem st) ?a (v + fSlide im) = Inr m1"
      "slide_words (fSlide im) m1 (word_run (?a + step) step n) = Inr m'"
    by auto
  from Suc.prems(1) have "run_ok (rb_type st) (rb_segmentEndAddress st) [?a]"
    and rest: "run_ok (rb_type st) (rb_segmentEndAddress st) (word_run (?a + step) step n)"
    by (auto simp: run_ok_def)
  from rebase_one_slides [OF this(1), of im step] m1
  have one: "rebase_one im step st = Inr (st\<lparr>rb_mem := m1, rb_address := ?a + step\<rparr>)" by simp
  have "rebase_times im step n (st\<lparr>rb_mem := m1, rb_address := ?a + step\<rparr>) =
      Inr (st\<lparr>rb_mem := m', rb_address := ?a + step + of_nat n * step\<rparr>)"
    using Suc.IH [of "st\<lparr>rb_mem := m1, rb_address := ?a + step\<rparr>"] rest m1(3) by simp
  with one show ?case by (simp add: algebra_simps)
qed

text \<open>The bytes that are left of the stream, up to its end.\<close>

definition stream_at :: "rebase_state \<Rightarrow> u32 \<Rightarrow> u8 list \<Rightarrow> bool" where
  "stream_at st e bs \<longleftrightarrow> bytes_at (rb_mem st) (rb_p st) bs \<and> unat (rb_p st) + length bs = unat e"

lemma stream_at_Cons:
  assumes "stream_at st e (b # bs)"
  shows "rb_mem st (rb_p st) = Some b" "stream_at (st\<lparr>rb_p := rb_p st + 1\<rparr>) e bs"
proof -
  from assms show "rb_mem st (rb_p st) = Some b" by (simp add: stream_at_def)
  from assms have "rb_p st \<noteq> - 1"
    by (intro ptr_below_not_max [of "rb_p st" e]) (simp add: stream_at_def)
  with assms show "stream_at (st\<lparr>rb_p := rb_p st + 1\<rparr>) e bs"
    by (simp add: stream_at_def unat_ptr_Suc)
qed

lemma stream_at_uleb:
  assumes "stream_at st e (uleb_encode n @ bs)" "n < 2 ^ 32"
  shows "rebase_uleb e st = Inr (of_nat n, st\<lparr>rb_p := rb_p st + uleb_size n\<rparr>)"
    and "stream_at (st\<lparr>rb_p := rb_p st + uleb_size n\<rparr>) e bs"
proof -
  from assms(1) have bytes: "bytes_at (rb_mem st) (rb_p st) (uleb_encode n)"
      "bytes_at (rb_mem st) (rb_p st + uleb_size n) bs"
    and room: "unat (rb_p st) + length (uleb_encode n) + length bs = unat e"
    by (simp_all add: stream_at_def uleb_size_def)
  with assms(2) show "rebase_uleb e st = Inr (of_nat n, st\<lparr>rb_p := rb_p st + uleb_size n\<rparr>)"
    by (intro rebase_uleb_encode) simp_all
  have "unat (rb_p st + uleb_size n) = unat (rb_p st) + length (uleb_encode n)"
    using room unat_u32_less [of e]
    by (simp add: uleb_size_def unat_word_ariths unsigned_of_nat take_bit_eq_mod)
  with bytes room show "stream_at (st\<lparr>rb_p := rb_p st + uleb_size n\<rparr>) e bs"
    by (simp add: stream_at_def)
qed

definition abs_of :: "rebase_state \<Rightarrow> u8 \<times> u32 \<times> u32" where
  "abs_of st = (rb_type st, rb_address st, rb_segmentEndAddress st)"

lemma abs_of_simps [simp]:
  "abs_of (st\<lparr>rb_p := p\<rparr>) = abs_of st" "abs_of (st\<lparr>rb_segmentIndex := i\<rparr>) = abs_of st"
  by (simp_all add: abs_of_def)

lemma stream_at_cong:
  "stream_at st e bs \<Longrightarrow> rb_p st' = rb_p st \<Longrightarrow> rb_mem st' = rb_mem st \<Longrightarrow> stream_at st' e bs"
  by (simp add: stream_at_def)

text \<open>
  One opcode: the words it slides, the abstract state it leaves and the rest of the stream.
  The stream must not be among the words, since the interpreter reads an operand after it
  has rebased a word.
\<close>

lemma rebase_step_encode:
  assumes "op \<noteq> RDone" "rebase_op_ok op" "op_exec im op (abs_of st) = Some (ts, abs')"
    and stream: "stream_at st e (rebase_encode op @ bs)"
    and slides: "slide_words (fSlide im) (rb_mem st) ts = Inr m'"
    and intact: "stream_at (st\<lparr>rb_mem := m'\<rparr>) e (rebase_encode op @ bs)"
  shows "\<exists>st'. rebase_step im e st = Inr st' \<and> rb_mem st' = m' \<and> abs_of st' = abs' \<and>
    rb_done st' = rb_done st \<and> stream_at st' e bs"
proof (cases op)
  case RDone
  with assms(1) show ?thesis by simp
next
  case (RSetType t)
  with assms show ?thesis
    using stream_at_Cons [of st e "opcode_byte 0x10 t" bs]
    by (auto simp: rebase_step_def imm_simps Let_def abs_of_def intro: stream_at_cong)
next
  case (RSetSegment i off)
  let ?st = "st\<lparr>rb_p := rb_p st + 1, rb_segmentIndex := i\<rparr>"
  from RSetSegment stream have "stream_at (st\<lparr>rb_p := rb_p st + 1\<rparr>) e (uleb_encode off @ bs)"
    and byte: "rb_mem st (rb_p st) = Some (opcode_byte 0x20 i)"
    using stream_at_Cons [of st e "opcode_byte 0x20 i" "uleb_encode off @ bs"] by simp_all
  from this(1) have "stream_at ?st e (uleb_encode off @ bs)" by (rule stream_at_cong) simp_all
  from stream_at_uleb [OF this] assms RSetSegment byte show ?thesis
    by (auto simp: rebase_step_def imm_simps Let_def abs_of_def segActualLoadAddr_ok
          segActualEndAddr_ok split: if_splits intro: stream_at_cong)
next
  case (RAddAddr n)
  let ?st = "st\<lparr>rb_p := rb_p st + 1\<rparr>"
  from RAddAddr stream have "stream_at ?st e (uleb_encode n @ bs)"
    and byte: "rb_mem st (rb_p st) = Some (opcode_byte 0x30 0)"
    using stream_at_Cons [of st e "opcode_byte 0x30 0" "uleb_encode n @ bs"] by simp_all
  from stream_at_uleb [OF this(1)] assms RAddAddr byte show ?thesis
    by (auto simp: rebase_step_def imm_simps Let_def abs_of_def intro: stream_at_cong)
next
  case (RAddAddrScaled n)
  with assms show ?thesis
    using stream_at_Cons [of st e "opcode_byte 0x40 n" bs]
    by (auto simp: rebase_step_def imm_simps Let_def abs_of_def intro: stream_at_cong)
next
  case (RDoTimesImm n)
  let ?st = "st\<lparr>rb_p := rb_p st + 1\<rparr>"
  have byte: "rb_mem st (rb_p st) = Some (opcode_byte 0x50 n)"
    using RDoTimesImm stream stream_at_Cons(1) [of st e "opcode_byte 0x50 n" bs] by simp
  have rest: "stream_at (st\<lparr>rb_mem := m', rb_p := rb_p st + 1\<rparr>) e bs"
    using RDoTimesImm intact stream_at_Cons(2) [of "st\<lparr>rb_mem := m'\<rparr>" e "opcode_byte 0x50 n" bs] by simp
  have "rebase_times im 4 n ?st = Inr (?st\<lparr>rb_mem := m', rb_address := rb_address ?st + of_nat n * 4\<rparr>)"
    using RDoTimesImm assms(3) slides
    by (intro rebase_times_slides) (auto simp: abs_of_def split: if_splits)
  with byte rest assms RDoTimesImm show ?thesis
    by (auto simp: rebase_step_def imm_simps Let_def abs_of_def split: if_splits intro: stream_at_cong)
next
  case (RDoTimes n)
  let ?st = "st\<lparr>rb_p := rb_p st + 1\<rparr>" and ?st2 = "st\<lparr>rb_p := rb_p st + 1 + uleb_size n\<rparr>"
  have "stream_at ?st e (uleb_encode n @ bs)" "rb_mem st (rb_p st) = Some (opcode_byte 0x60 0)"
    using RDoTimes stream stream_at_Cons [of st e "opcode_byte 0x60 0" "uleb_encode n @ bs"] by simp_all
  note byte = this(2) and uleb = stream_at_uleb(1) [OF this(1)]
  have "stream_at (st\<lparr>rb_mem := m', rb_p := rb_p st + 1\<rparr>) e (uleb_encode n @ bs)"
    using RDoTimes intact stream_at_Cons(2) [of "st\<lparr>rb_mem := m'\<rparr>" e] by simp
  note rest = stream_at_uleb(2) [OF this]
  have "rebase_times im 4 n ?st2 = Inr (?st2\<lparr>rb_mem := m', rb_address := rb_address ?st2 + of_nat n * 4\<rparr>)"
    using RDoTimes assms(3) slides
    by (intro rebase_times_slides) (auto simp: abs_of_def split: if_splits)
  with byte uleb rest assms RDoTimes show ?thesis
    by (auto simp: rebase_step_def imm_simps Let_def abs_of_def split: if_splits intro: stream_at_cong)
next
  case (RDoAddAddr n)
  let ?st = "st\<lparr>rb_p := rb_p st + 1\<rparr>"
  let ?st1 = "st\<lparr>rb_p := rb_p st + 1, rb_mem := m', rb_address := rb_address st\<rparr>"
  have byte: "rb_mem st (rb_p st) = Some (opcode_byte 0x70 0)"
    using RDoAddAddr stream stream_at_Cons(1) [of st e "opcode_byte 0x70 0"] by simp
  have "stream_at (st\<lparr>rb_mem := m', rb_p := rb_p st + 1\<rparr>) e (uleb_encode n @ bs)"
    using RDoAddAddr intact stream_at_Cons(2) [of "st\<lparr>rb_mem := m'\<rparr>" e] by simp
  then have "stream_at ?st1 e (uleb_encode n @ bs)" by (rule stream_at_cong) simp_all
  note rest = stream_at_uleb [OF this]
  have "rebase_one im 0 ?st = Inr ?st1"
    using RDoAddAddr assms(3) slides rebase_one_slides [of ?st im 0]
    by (auto simp: abs_of_def mapR_def bindR_assoc split: if_splits)
  with byte rest assms RDoAddAddr show ?thesis
    by (auto simp: rebase_step_def imm_simps Let_def abs_of_def split: if_splits intro: stream_at_cong)
next
  case (RDoTimesSkipping n skip)
  let ?st = "st\<lparr>rb_p := rb_p st + 1\<rparr>"
    and ?st3 = "st\<lparr>rb_p := rb_p st + 1 + uleb_size n + uleb_size skip\<rparr>"
  have "stream_at ?st e (uleb_encode n @ uleb_encode skip @ bs)"
    "rb_mem st (rb_p st) = Some (opcode_byte 0x80 0)"
    using RDoTimesSkipping stream
      stream_at_Cons [of st e "opcode_byte 0x80 0" "uleb_encode n @ uleb_encode skip @ bs"] by simp_all
  note byte = this(2) and uleb = stream_at_uleb [OF this(1)]
  have "stream_at (st\<lparr>rb_mem := m', rb_p := rb_p st + 1\<rparr>) e (uleb_encode n @ uleb_encode skip @ bs)"
    using RDoTimesSkipping intact stream_at_Cons(2) [of "st\<lparr>rb_mem := m'\<rparr>" e] by simp
  note rest = stream_at_uleb(2) [OF this]
  have "rebase_times im (of_nat skip + 4) n ?st3 =
      Inr (?st3\<lparr>rb_mem := m', rb_address := rb_address ?st3 + of_nat n * (of_nat skip + 4)\<rparr>)"
    using RDoTimesSkipping assms(3) slides
    by (intro rebase_times_slides) (auto simp: abs_of_def split: if_splits)
  with byte uleb stream_at_uleb(1) [OF uleb(2)] rest stream_at_uleb(2) [OF rest] assms RDoTimesSkipping
  show ?thesis
    by (auto simp: rebase_step_def imm_simps Let_def abs_of_def split: if_splits intro: stream_at_cong)
qed

definition region :: "u32 \<Rightarrow> u32 \<Rightarrow> u32 set" where
  "region p e = {a. p \<le> a \<and> a < e}"

lemma stream_at_intact:
  assumes "stream_at st e bs" "slide_words slide (rb_mem st) ts = Inr m'"
    "words_of ts \<inter> region (rb_p st) e = {}"
  shows "stream_at (st\<lparr>rb_mem := m'\<rparr>) e bs"
proof -
  have "m' (rb_p st + of_nat i) = rb_mem st (rb_p st + of_nat i)" if "i < length bs" for i
  proof -
    have room: "unat (rb_p st) + length bs = unat e" using assms(1) by (simp add: stream_at_def)
    with that unat_u32_less [of e] have "unat (rb_p st + of_nat i) = unat (rb_p st) + i"
      by (simp add: unat_word_ariths unsigned_of_nat take_bit_eq_mod)
    with that room have "rb_p st + of_nat i \<in> region (rb_p st) e"
      by (simp add: region_def word_le_nat_alt word_less_nat_alt)
    with assms(3) slide_words_frame [OF assms(2)] show ?thesis by blast
  qed
  with assms(1) show ?thesis by (auto simp: stream_at_def intro: bytes_at_cong)
qed

lemma rebase_loop_refines:
  assumes "rebase_targets im ops (abs_of st) = Some ts" "list_all rebase_op_ok ops"
    "stream_at st e (concat (map rebase_encode ops))"
    "\<not> rb_done st"
    "slide_words (fSlide im) (rb_mem st) ts = Inr m'" "words_of ts \<inter> region (rb_p st) e = {}"
  shows "\<exists>st'. c_while (rebase_running e) (rebase_step im e) st = Some (Inr st') \<and> rb_mem st' = m'"
  using assms
proof (induction ops arbitrary: st ts)
  case Nil
  then have "\<not> rebase_running e st" by (simp add: rebase_running_def word_less_nat_alt stream_at_def)
  with Nil show ?case by (simp add: c_while_stop)
next
  case (Cons op ops)
  let ?bs = "concat (map rebase_encode ops)"
  have "rebase_encode op \<noteq> []" by (cases op) simp_all
  with Cons.prems(3,4) have run: "rebase_running e st"
    by (cases "rebase_encode op") (auto simp: rebase_running_def word_less_nat_alt stream_at_def)
  show ?case
  proof (cases "op = RDone")
    case True
    with Cons.prems(3) have "rb_mem st (rb_p st) = Some (opcode_byte 0 0)"
      by (auto simp: stream_at_def)
    then have "rebase_step im e st = Inr (st\<lparr>rb_p := rb_p st + 1, rb_done := True\<rparr>)"
      by (simp add: rebase_step_def imm_simps Let_def)
    with run Cons.prems(1,5) True show ?thesis
      by (auto simp: c_while_step c_while_stop rebase_running_def)
  next
    case False
    with Cons.prems(1) obtain ts1 abs1 ts2 where exec: "op_exec im op (abs_of st) = Some (ts1, abs1)"
        "rebase_targets im ops abs1 = Some ts2" "ts = ts1 @ ts2"
      by (auto split: option.splits)
    with Cons.prems(5) obtain m1 where m1: "slide_words (fSlide im) (rb_mem st) ts1 = Inr m1"
        "slide_words (fSlide im) m1 ts2 = Inr m'"
      by (auto simp: slide_words_append)
    have stream: "stream_at st e (rebase_encode op @ ?bs)" using Cons.prems(3) by simp
    from Cons.prems(6) exec(3) have "words_of ts1 \<inter> region (rb_p st) e = {}" by auto
    from rebase_step_encode [OF False _ exec(1) stream m1(1) stream_at_intact [OF stream m1(1) this]]
      Cons.prems(2)
    obtain st1 where st1: "rebase_step im e st = Inr st1" "rb_mem st1 = m1" "abs_of st1 = abs1"
        "rb_done st1 = rb_done st" "stream_at st1 e ?bs"
      by auto
    have "rb_p st < rb_p st1" using rebase_step_progress [OF st1(1)] run
      by (simp add: rebase_running_def)
    then have "region (rb_p st1) e \<subseteq> region (rb_p st) e" by (auto simp: region_def)
    with Cons.prems(6) exec(3) have "words_of ts2 \<inter> region (rb_p st1) e = {}" by auto
    then obtain st' where "c_while (rebase_running e) (rebase_step im e) st1 = Some (Inr st')" "rb_mem st' = m'"
      using Cons.IH [of st1 ts2] Cons.prems(2,4) st1 exec(2) m1(2) by auto
    with c_while_step [of "rebase_running e" st "rebase_step im e" st1] run st1(1)
    show ?thesis by simp
  qed
qed

text \<open>
  Sliding a list of words that do not overlap: each gets the slide added once, and nothing
  else changes.
\<close>

fun words_disjoint :: "u32 list \<Rightarrow> bool" where
  "words_disjoint [] = True"
| "words_disjoint (a # as) = (word_bytes a \<inter> words_of as = {} \<and> words_disjoint as)"

lemma slide_words_ok:
  assumes "words_disjoint ts" "list_all (mapped32 m) ts"
  shows "\<exists>m'. slide_words slide m ts = Inr m' \<and>
    (\<forall>a \<in> set ts. rd32 m' a = mapR (\<lambda>v. v + slide) (rd32 m a)) \<and>
    (\<forall>b. b \<notin> words_of ts \<longrightarrow> m' b = m b)"
  using assms
proof (induction ts arbitrary: m)
  case Nil
  then show ?case by simp
next
  case (Cons a as)
  from Cons.prems obtain v where v: "rd32 m a = Inr v"
    using rd32_ok_iff [of m a] by (auto simp: is_ok_iff)
  from Cons.prems obtain m1 where m1: "wr32 m a (v + slide) = Inr m1"
    using wr32_ok_iff [of m a "v + slide"] by (auto simp: is_ok_iff)
  from Cons.prems have "list_all (mapped32 m1) as"
    using wr32_dom [OF m1] by (auto simp: list_all_iff mapped32_dom)
  with Cons obtain m' where m': "slide_words slide m1 as = Inr m'"
      "\<forall>b \<in> set as. rd32 m' b = mapR (\<lambda>v. v + slide) (rd32 m1 b)"
      "\<forall>b. b \<notin> words_of as \<longrightarrow> m' b = m1 b" by fastforce
  have disj: "word_bytes a \<inter> words_of as = {}" using Cons.prems(1) by simp
  have "rd32 m' a = rd32 m1 a"
    using disj m'(3) by (intro rd32_cong_bytes) blast
  then have "rd32 m' a = mapR (\<lambda>v. v + slide) (rd32 m a)"
    using rd32_wr32 [OF m1] v by simp
  moreover have "rd32 m1 b = rd32 m b" if "b \<in> set as" for b
    using disj that by (intro rd32_wr32_other [OF m1]) (auto simp: words_of_def)
  moreover have "m' b = m b" if "b \<notin> words_of (a # as)" for b
    using that m'(3) wr32_frame [OF m1, of b] by simp
  ultimately show ?case using v m1 m' by auto
qed

lemma readRebase_correct:
  assumes segs: "fSegmentLoadCommands im \<noteq> []"
    and ops: "list_all rebase_op_ok ops" "bytes_at m start (concat (map rebase_encode ops))"
      "unat start + length (concat (map rebase_encode ops)) = unat e"
    and targets: "rebase_targets im ops (0, vmaddr (hd (fSegmentLoadCommands im)) + fSlide im,
      vmaddr (hd (fSegmentLoadCommands im)) + fSlide im + vmsize (hd (fSegmentLoadCommands im))) = Some ts"
    and mapped: "words_disjoint ts" "list_all (mapped32 m) ts" "words_of ts \<inter> region start e = {}"
  shows "\<exists>m'. readRebase im m start e = Some (Inr m') \<and>
    (\<forall>a \<in> set ts. rd32 m' a = mapR (\<lambda>v. v + fSlide im) (rd32 m a)) \<and>
    (\<forall>b. b \<notin> words_of ts \<longrightarrow> m' b = m b)"
proof -
  from slide_words_ok [OF mapped(1,2)] obtain m' where m': "slide_words (fSlide im) m ts = Inr m'"
      "\<forall>a \<in> set ts. rd32 m' a = mapR (\<lambda>v. v + fSlide im) (rd32 m a)"
      "\<forall>b. b \<notin> words_of ts \<longrightarrow> m' b = m b" by blast
  let ?seg = "hd (fSegmentLoadCommands im)"
  let ?st = "\<lparr>rb_type = 0, rb_segmentIndex = 0, rb_address = vmaddr ?seg + fSlide im,
    rb_segmentEndAddress = vmaddr ?seg + fSlide im + vmsize ?seg, rb_p = start,
    rb_done = False, rb_mem = m\<rparr>"
  have seg: "segActualLoadAddr im 0 = Inr (vmaddr ?seg + fSlide im)"
      "segActualEndAddr im 0 = Inr (vmaddr ?seg + fSlide im + vmsize ?seg)"
    using segs by (simp_all add: segActualLoadAddr_ok segActualEndAddr_ok hd_conv_nth)
  have "\<exists>st'. c_while (rebase_running e) (rebase_step im e) ?st = Some (Inr st') \<and> rb_mem st' = m'"
    using targets ops m'(1) mapped(3)
    by (intro rebase_loop_refines [where ops = ops and ts = ts]) (simp_all add: abs_of_def stream_at_def)
  with m' seg show ?thesis by (auto simp: readRebase_def)
qed

section \<open>Properties\<close>

text \<open>
  C5: the rebase interpreter ends on every stream of bytes, and whatever the stream says it
  only rewrites mapped memory.
\<close>

theorem readRebase_total:
  "\<exists>r. readRebase im m start e = Some r \<and> (case r of Inl _ \<Rightarrow> True | Inr m' \<Rightarrow> dom m' = dom m)"
  using readRebase_returns [of im m start e] readRebase_same_dom [of im m start e]
  by (fastforce simp: same_dom_def split: sum.split)

text \<open>
  C4: on a stream the link editor wrote, whose words are mapped, do not overlap and leave the
  stream alone, the interpreter adds the slide exactly once to each word the opcodes name and
  changes no other byte.
\<close>

theorem readRebase_slides:
  assumes "fSegmentLoadCommands im \<noteq> []"
    and "list_all rebase_op_ok ops" "bytes_at m start (concat (map rebase_encode ops))"
      "unat start + length (concat (map rebase_encode ops)) = unat e"
    and "rebase_targets im ops (0, vmaddr (hd (fSegmentLoadCommands im)) + fSlide im,
      vmaddr (hd (fSegmentLoadCommands im)) + fSlide im + vmsize (hd (fSegmentLoadCommands im))) = Some ts"
    and "words_disjoint ts" "list_all (mapped32 m) ts" "words_of ts \<inter> region start e = {}"
  shows "\<exists>m'. readRebase im m start e = Some (Inr m') \<and>
    (\<forall>a \<in> set ts. rd32 m' a = mapR (\<lambda>v. v + fSlide im) (rd32 m a)) \<and>
    (\<forall>b. b \<notin> words_of ts \<longrightarrow> m' b = m b)"
  using assms by (rule readRebase_correct)

text \<open>Two words of a data segment, rebased by four opcodes that follow them.\<close>

definition two_words :: mem where
  "two_words = mem_of 0x2000 [0x10, 0, 0, 0, 0xFF, 0xFF, 0, 0, 0x11, 0x20, 0, 0x52, 0]"

definition one_segment :: image where
  "one_segment = new_image\<lparr>fSegmentLoadCommands := [\<lparr>segname = ''__DATA'', vmaddr = 0x1000,
     vmsize = 8, fileoff = 0, filesize = 8, initprot = 3, sections = []\<rparr>],
     fSegmentsCount := 1, fSlide := 0x1000\<rparr>"

definition two_words_ops :: "rebase_op list" where
  "two_words_ops = [RSetType 1, RSetSegment 0 0, RDoTimesImm (Suc (Suc 0)), RDone]"

lemma two_words_ok:
  "rebase_targets one_segment two_words_ops (0, 0x2000, 0x2008) = Some [0x2000, 0x2004]"
  "list_all rebase_op_ok two_words_ops"
  "bytes_at two_words 0x2008 (concat (map rebase_encode two_words_ops))"
  "length (concat (map rebase_encode two_words_ops)) = 5"
  "words_disjoint [0x2000, 0x2004]" "list_all (mapped32 two_words) [0x2000, 0x2004]"
  "words_of [0x2000, 0x2004] \<inter> region 0x2008 0x200D = {}"
  by (auto simp: one_segment_def run_ok_def two_words_ops_def two_words_def mem_of_def
      opcode_byte_def uleb_encode.simps word_bytes_def mapped32_def region_def)

lemma one_segment_simps [simp]:
  "fSegmentLoadCommands one_segment \<noteq> []" "fSlide one_segment = 0x1000"
  "vmaddr (hd (fSegmentLoadCommands one_segment)) = 0x1000"
  "vmsize (hd (fSegmentLoadCommands one_segment)) = 8"
  by (simp_all add: one_segment_def)

lemma two_words_rebased: "\<exists>m'. readRebase one_segment two_words 0x2008 0x200D = Some (Inr m')"
  using readRebase_correct [OF _ two_words_ok(2,3), of one_segment "0x200D"] two_words_ok by fastforce

theorem readRebase_slides_witness:
  "\<exists>m'. readRebase one_segment two_words 0x2008 0x200D = Some (Inr m') \<and>
    rd32 m' 0x2000 = Inr 0x1010 \<and> rd32 m' 0x2004 = Inr 0x10FFF"
proof -
  have "rd32 two_words 0x2000 = Inr 0x10" "rd32 two_words 0x2004 = Inr 0xFFFF"
    by (simp_all add: two_words_def mem_of_def rd32_def rd8_def le32_def)
  then show ?thesis
    using readRebase_slides [OF _ two_words_ok(2,3), of one_segment "0x200D"] two_words_ok by fastforce
qed

end
