(* ===== verification/Bootstrap.thy ===== *)
theory Bootstrap
  imports Rebase
begin

text \<open>
  The linker relocating itself before anything else runs (src/core/lnk_bootstrap.cpp): its own
  copy of the rebase interpreter, which reports a malformed stream on the terminal and goes
  on, the scan of its load commands, and the slide of the main executable.
\<close>

datatype boot_msg =
    MsgBadRebaseType | MsgBadSegment | MsgBadImmTimes | MsgBadUlebTimes | MsgBadAddAddrUleb
  | MsgBadSkipping | MsgAbrt

record boot_state = rebase_state +
  bt_msgs :: "boot_msg list"

definition boot_print :: "boot_msg \<Rightarrow> boot_state \<Rightarrow> boot_state" where
  "boot_print msg st = st\<lparr>bt_msgs := bt_msgs st @ [msg]\<rparr>"

definition boot_rebaseAt :: "u32 \<Rightarrow> boot_state \<Rightarrow> boot_state res" where
  "boot_rebaseAt slide st =
     (let addr = rb_address st; m = rb_mem st; type = rb_type st in
      if type = REBASE_TYPE_POINTER then
        bindR (rd32 m addr) (\<lambda>v. bindR (wr32 m addr (v + slide)) (\<lambda>m. Inr (st\<lparr>rb_mem := m\<rparr>)))
      else if type = REBASE_TYPE_TEXT_ABSOLUTE32 then
        bindR (rd32 m addr) (\<lambda>v. bindR (wr32 m addr (v + slide)) (\<lambda>m. Inr (st\<lparr>rb_mem := m\<rparr>)))
      else Inr (boot_print MsgBadRebaseType st))"

text \<open>The bounds check only prints; the word is rebased all the same.\<close>

definition boot_one :: "boot_msg \<Rightarrow> u32 \<Rightarrow> u32 \<Rightarrow> boot_state \<Rightarrow> boot_state res" where
  "boot_one msg slide step st =
     (let st = (if rb_address st \<ge> rb_segmentEndAddress st then boot_print msg st else st) in
      bindR (boot_rebaseAt slide st) (\<lambda>st. Inr (st\<lparr>rb_address := rb_address st + step\<rparr>)))"

fun boot_times :: "boot_msg \<Rightarrow> u32 \<Rightarrow> u32 \<Rightarrow> nat \<Rightarrow> boot_state \<Rightarrow> boot_state res" where
  "boot_times msg slide step 0 st = Inr st"
| "boot_times msg slide step (Suc n) st =
     bindR (boot_one msg slide step st) (boot_times msg slide step n)"

definition boot_uleb :: "u32 \<Rightarrow> boot_state \<Rightarrow> (u32 \<times> boot_state) res" where
  "boot_uleb end st =
     mapR (\<lambda>(v, p). (v, st\<lparr>rb_p := p\<rparr>)) (read_uleb128 (rb_mem st) (rb_p st) end)"

text \<open>
  The segments are an array of 64 pointers on the stack of which the first \<open>segCount\<close> are
  set: an index past them reads a pointer that was never stored.
\<close>

definition boot_segment :: "macho_segment_command list \<Rightarrow> nat \<Rightarrow> macho_segment_command res" where
  "boot_segment segments index =
     (if index < length segments then Inr (segments ! index) else Inl Undefined)"

definition boot_step :: "macho_segment_command list \<Rightarrow> u32 \<Rightarrow> u32 \<Rightarrow> boot_state \<Rightarrow> boot_state res" where
  "boot_step segments slide end st =
     bindR (rd8 (rb_mem st) (rb_p st)) (\<lambda>byte.
     let immediate = byte AND REBASE_IMMEDIATE_MASK; opcode = byte AND REBASE_OPCODE_MASK;
         st = st\<lparr>rb_p := rb_p st + 1\<rparr>
     in if opcode = REBASE_OPCODE_DONE then Inr (st\<lparr>rb_done := True\<rparr>)
     else if opcode = REBASE_OPCODE_SET_TYPE_IMM then Inr (st\<lparr>rb_type := immediate\<rparr>)
     else if opcode = REBASE_OPCODE_SET_SEGMENT_AND_OFFSET_ULEB then
       (let segmentIndex = unat immediate; st = st\<lparr>rb_segmentIndex := segmentIndex\<rparr>;
            st = (if segmentIndex > length segments then boot_print MsgBadSegment st else st)
        in bindR (boot_segment segments segmentIndex) (\<lambda>seg.
           bindR (boot_uleb end st) (\<lambda>(offset, st).
             Inr (st\<lparr>rb_address := vmaddr seg + slide + offset,
                     rb_segmentEndAddress := vmaddr seg + vmsize seg + slide\<rparr>))))
     else if opcode = REBASE_OPCODE_ADD_ADDR_ULEB then
       bindR (boot_uleb end st) (\<lambda>(offset, st).
         Inr (st\<lparr>rb_address := rb_address st + offset\<rparr>))
     else if opcode = REBASE_OPCODE_ADD_ADDR_IMM_SCALED then
       Inr (st\<lparr>rb_address := rb_address st + ucast immediate * 4\<rparr>)
     else if opcode = REBASE_OPCODE_DO_REBASE_IMM_TIMES then
       boot_times MsgBadImmTimes slide 4 (unat immediate) st
     else if opcode = REBASE_OPCODE_DO_REBASE_ULEB_TIMES then
       bindR (boot_uleb end st) (\<lambda>(count, st). boot_times MsgBadUlebTimes slide 4 (unat count) st)
     else if opcode = REBASE_OPCODE_DO_REBASE_ADD_ADDR_ULEB then
       bindR (boot_one MsgBadAddAddrUleb slide 0 st) (\<lambda>st.
       bindR (boot_uleb end st) (\<lambda>(offset, st).
         Inr (st\<lparr>rb_address := rb_address st + (offset + 4)\<rparr>)))
     else if opcode = REBASE_OPCODE_DO_REBASE_ULEB_TIMES_SKIPPING_ULEB then
       bindR (boot_uleb end st) (\<lambda>(count, st).
       bindR (boot_uleb end st) (\<lambda>(skip, st).
         boot_times MsgBadSkipping slide (skip + 4) (unat count) st))
     else Inr (boot_print MsgAbrt st))"

definition boot_running :: "u32 \<Rightarrow> boot_state \<Rightarrow> bool" where
  "boot_running end st \<longleftrightarrow> \<not> rb_done st \<and> rb_p st < end"

text \<open>The stream's bounds are computed from the \<open>__LINKEDIT\<close> segment.\<close>

definition rebaseCompressed ::
    "mem \<Rightarrow> dyld_info_command \<Rightarrow> macho_segment_command \<Rightarrow> u32 \<Rightarrow> macho_segment_command list \<Rightarrow>
     (mem \<times> boot_msg list) res option" where
  "rebaseCompressed m dyldInfo linkEdit slide segments =
     (let base = (vmaddr linkEdit + slide) - fileoff linkEdit;
          start = rebase_off dyldInfo + base;
          end = rebase_size dyldInfo + rebase_off dyldInfo + base
      in case boot_segment segments 0 of
           Inl e \<Rightarrow> Some (Inl e)
         | Inr seg \<Rightarrow>
           map_option (mapR (\<lambda>st. (rb_mem st, bt_msgs st)))
             (c_while (boot_running end) (boot_step segments slide end)
               \<lparr>rb_type = 0, rb_segmentIndex = 0, rb_address = vmaddr seg + slide,
                rb_segmentEndAddress = vmaddr seg + slide + vmsize seg, rb_p = start,
                rb_done = False, rb_mem = m, bt_msgs = []\<rparr>))"

section \<open>The linker's own load commands\<close>

record linker_scan =
  ls_linkEdit :: "macho_segment_command option"
  ls_segments :: "macho_segment_command list"
  ls_dyldInfo :: "dyld_info_command option"

definition scan_command :: "load_command \<Rightarrow> linker_scan \<Rightarrow> linker_scan res" where
  "scan_command lc sc = (case lc of
     LC_SEGMENT seg \<Rightarrow>
       if length (ls_segments sc) \<ge> 64 then Inl Undefined
       else Inr (sc\<lparr>ls_segments := ls_segments sc @ [seg],
                ls_linkEdit := (if segname seg = ''__LINKEDIT'' then Some seg else ls_linkEdit sc)\<rparr>)
   | LC_DYLD_INFO_ONLY di \<Rightarrow> Inr (sc\<lparr>ls_dyldInfo := Some di\<rparr>)
   | _ \<Rightarrow> Inr sc)"

fun scan_commands :: "load_command list \<Rightarrow> linker_scan \<Rightarrow> linker_scan res" where
  "scan_commands [] sc = Inr sc"
| "scan_commands (lc # lcs) sc = bindR (scan_command lc sc) (scan_commands lcs)"

text \<open>
  Without a compressed link-edit table the linker prints and returns unrelocated; without a
  \<open>__LINKEDIT\<close> segment \<open>rebaseCompressed\<close> reads through NULL.
\<close>

definition rebaseLinker ::
    "mem \<Rightarrow> load_command list \<Rightarrow> u32 \<Rightarrow> (mem \<times> boot_msg list) res option" where
  "rebaseLinker m cmds slide =
     (case scan_commands cmds \<lparr>ls_linkEdit = None, ls_segments = [], ls_dyldInfo = None\<rparr> of
        Inl e \<Rightarrow> Some (Inl e)
      | Inr sc \<Rightarrow> (case ls_dyldInfo sc of
          None \<Rightarrow> Some (Inr (m, [MsgAbrt]))
        | Some di \<Rightarrow> (case ls_linkEdit sc of
            None \<Rightarrow> Some (Inl (Fault 0))
          | Some linkEdit \<Rightarrow> rebaseCompressed m di linkEdit slide (ls_segments sc))))"

fun slideOfMainExecutable :: "u32 \<Rightarrow> load_command list \<Rightarrow> u32" where
  "slideOfMainExecutable mh [] = 0"
| "slideOfMainExecutable mh (cmd # cmds) =
     (case cmd of
        LC_SEGMENT segCmd \<Rightarrow>
          if segname segCmd = ''__TEXT'' then mh - vmaddr segCmd else slideOfMainExecutable mh cmds
      | _ \<Rightarrow> slideOfMainExecutable mh cmds)"

section \<open>The bootstrap interpreter agrees with the image loader's\<close>

text \<open>
  Where the image loader's interpreter accepts an opcode the bootstrap one does the same and
  prints nothing.
\<close>

abbreviation "base_of st \<equiv> rebase_state.truncate (st :: boot_state)"

lemma truncate_simps [simp]:
  "rb_type (base_of st) = rb_type st" "rb_segmentIndex (base_of st) = rb_segmentIndex st"
  "rb_address (base_of st) = rb_address st"
  "rb_segmentEndAddress (base_of st) = rb_segmentEndAddress st"
  "rb_p (base_of st) = rb_p st" "rb_done (base_of st) = rb_done st" "rb_mem (base_of st) = rb_mem st"
  by (simp_all add: rebase_state.defs)

definition simulates :: "boot_state \<Rightarrow> rebase_state \<Rightarrow> bool" where
  "simulates bs rs \<longleftrightarrow> base_of bs = rs \<and> bt_msgs bs = []"

lemma simulatesE:
  assumes "simulates bs rs"
  obtains t i a e p d m where
    "bs = \<lparr>rb_type = t, rb_segmentIndex = i, rb_address = a, rb_segmentEndAddress = e, rb_p = p,
           rb_done = d, rb_mem = m, bt_msgs = []\<rparr>"
    "rs = \<lparr>rb_type = t, rb_segmentIndex = i, rb_address = a, rb_segmentEndAddress = e, rb_p = p,
           rb_done = d, rb_mem = m\<rparr>"
  using assms by (cases bs) (auto simp: simulates_def rebase_state.defs)

lemma simulates_updates [intro]:
  assumes "simulates bs rs"
  shows "simulates (bs\<lparr>rb_p := p\<rparr>) (rs\<lparr>rb_p := p\<rparr>)"
    "simulates (bs\<lparr>rb_segmentIndex := i\<rparr>) (rs\<lparr>rb_segmentIndex := i\<rparr>)"
  using assms by (auto elim!: simulatesE) (auto simp: simulates_def rebase_state.defs)

lemma boot_one_simulates:
  assumes "rebase_one im step rs = Inr rs'" "simulates bs rs"
  shows "\<exists>bs'. boot_one msg (fSlide im) step bs = Inr bs' \<and> simulates bs' rs'"
  using assms(2)
proof (rule simulatesE)
qed (use assms(1) in \<open>auto simp: rebase_one_def boot_one_def boot_rebaseAt_def rebaseAt_def Let_def
      simulates_def rebase_state.defs split: if_splits\<close>)

lemma boot_times_simulates:
  assumes "rebase_times im step n rs = Inr rs'" "simulates bs rs"
  shows "\<exists>bs'. boot_times msg (fSlide im) step n bs = Inr bs' \<and> simulates bs' rs'"
  using assms
proof (induction n arbitrary: rs bs)
  case (Suc n)
  then show ?case using boot_one_simulates [of im step rs _ bs msg] by fastforce
qed simp

lemma boot_uleb_simulates:
  assumes "rebase_uleb e rs = Inr (v, rs')" "simulates bs rs"
  shows "\<exists>bs'. boot_uleb e bs = Inr (v, bs') \<and> simulates bs' rs'"
  using assms(2)
proof (rule simulatesE)
qed (use assms(1) in \<open>auto simp: rebase_uleb_def boot_uleb_def simulates_def rebase_state.defs\<close>)

text \<open>A byte whose opcode is none of the nine is refused by the image loader.\<close>

lemma rebase_step_opcodes:
  assumes "rebase_step im e rs = Inr rs'" "rb_mem rs (rb_p rs) = Some byte"
  shows "byte AND REBASE_OPCODE_MASK \<in> {0x00, 0x10, 0x20, 0x30, 0x40, 0x50, 0x60, 0x70, 0x80}"
  using assms by (auto simp: rebase_step_def Let_def split: if_splits)

lemma boot_step_simulates:
  assumes step: "rebase_step im e rs = Inr rs'" and sim: "simulates bs rs"
    and segs: "fSegmentLoadCommands im = segments" "fSegmentsCount im = length segments"
  shows "\<exists>bs'. boot_step segments (fSlide im) e bs = Inr bs' \<and> simulates bs' rs'"
proof -
  from step obtain byte where byte: "rb_mem rs (rb_p rs) = Some byte"
    by (auto simp: rebase_step_def)
  let ?rs = "rs\<lparr>rb_p := rb_p rs + 1\<rparr>" and ?bs = "bs\<lparr>rb_p := rb_p bs + 1\<rparr>"
  let ?op = "byte AND REBASE_OPCODE_MASK" and ?imm = "byte AND REBASE_IMMEDIATE_MASK"
  have next': "simulates ?bs ?rs" and same: "rb_mem bs = rb_mem rs" "rb_p bs = rb_p rs"
    using sim by (auto elim!: simulatesE simp: simulates_def rebase_state.defs)
  note unfold = rebase_step_def boot_step_def Let_def byte same
  from rebase_step_opcodes [OF step byte]
  consider "?op = 0x00" | "?op = 0x10" | "?op = 0x20" | "?op = 0x30" | "?op = 0x40" | "?op = 0x50"
    | "?op = 0x60" | "?op = 0x70" | "?op = 0x80" by blast
  then show ?thesis
  proof cases
    case 1
    with step sim show ?thesis
      by (auto simp: unfold elim!: simulatesE) (auto simp: simulates_def rebase_state.defs)
  next
    case 2
    with step sim show ?thesis
      by (auto simp: unfold elim!: simulatesE) (auto simp: simulates_def rebase_state.defs)
  next
    case 3
    let ?rs2 = "?rs\<lparr>rb_segmentIndex := unat ?imm\<rparr>" and ?bs2 = "?bs\<lparr>rb_segmentIndex := unat ?imm\<rparr>"
    from 3 step obtain base off rs2 where *: "\<not> fSegmentsCount im < unat ?imm"
        "segActualLoadAddr im (unat ?imm) = Inr base" "rebase_uleb e ?rs2 = Inr (off, rs2)"
        "segActualEndAddr im (unat ?imm) = Inr (rb_segmentEndAddress rs')"
        "rs' = rs2\<lparr>rb_address := base + off, rb_segmentEndAddress := rb_segmentEndAddress rs'\<rparr>"
      by (auto simp: unfold split: if_splits)
    have "simulates ?bs2 ?rs2" using next' by (rule simulates_updates)
    from boot_uleb_simulates [OF *(3) this] obtain bs2 where
      bs2: "boot_uleb e ?bs2 = Inr (off, bs2)" "simulates bs2 rs2" by blast
    from *(2) segs(1) have "unat ?imm < length segments"
      by (auto simp: segActualLoadAddr_def segLoadCmd_def split: if_splits)
    with 3 * bs2 segs show ?thesis
      by (auto simp: unfold boot_segment_def segment_defs elim!: simulatesE)
         (auto simp: simulates_def rebase_state.defs add_ac)
  next
    case 4
    with step obtain off rs2 where *: "rebase_uleb e ?rs = Inr (off, rs2)"
        "rs' = rs2\<lparr>rb_address := rb_address rs2 + off\<rparr>"
      by (auto simp: unfold)
    from boot_uleb_simulates [OF *(1) next'] obtain bs2 where
      "boot_uleb e ?bs = Inr (off, bs2)" "simulates bs2 rs2" by blast
    with 4 * same show ?thesis
      by (auto simp: unfold elim!: simulatesE) (auto simp: simulates_def rebase_state.defs)
  next
    case 5
    with step sim show ?thesis
      by (auto simp: unfold elim!: simulatesE) (auto simp: simulates_def rebase_state.defs)
  next
    case 6
    with step have "rebase_times im 4 (unat ?imm) ?rs = Inr rs'" by (simp add: unfold)
    from boot_times_simulates [OF this next'] 6 show ?thesis by (simp add: unfold)
  next
    case 7
    with step obtain n rs2 where *: "rebase_uleb e ?rs = Inr (n, rs2)"
        "rebase_times im 4 (unat n) rs2 = Inr rs'"
      by (auto simp: unfold)
    from boot_uleb_simulates [OF *(1) next'] obtain bs2 where
      "boot_uleb e ?bs = Inr (n, bs2)" "simulates bs2 rs2" by blast
    with 7 * same boot_times_simulates [OF *(2)] show ?thesis by (simp add: unfold)
  next
    case 8
    with step obtain rs1 off rs2 where *: "rebase_one im 0 ?rs = Inr rs1"
        "rebase_uleb e rs1 = Inr (off, rs2)" "rs' = rs2\<lparr>rb_address := rb_address rs2 + (off + 4)\<rparr>"
      by (auto simp: unfold)
    from boot_one_simulates [OF *(1) next'] obtain bs1 where
      bs1: "boot_one MsgBadAddAddrUleb (fSlide im) 0 ?bs = Inr bs1" "simulates bs1 rs1" by blast
    from boot_uleb_simulates [OF *(2) bs1(2)] obtain bs2 where
      "boot_uleb e bs1 = Inr (off, bs2)" "simulates bs2 rs2" by blast
    with 8 * bs1 same show ?thesis
      by (auto simp: unfold elim!: simulatesE) (auto simp: simulates_def rebase_state.defs)
  next
    case 9
    with step obtain n rs2 sk rs3 where *: "rebase_uleb e ?rs = Inr (n, rs2)"
        "rebase_uleb e rs2 = Inr (sk, rs3)" "rebase_times im (sk + 4) (unat n) rs3 = Inr rs'"
      by (auto simp: unfold)
    from boot_uleb_simulates [OF *(1) next'] obtain bs2 where
      bs2: "boot_uleb e ?bs = Inr (n, bs2)" "simulates bs2 rs2" by blast
    from boot_uleb_simulates [OF *(2) bs2(2)] obtain bs3 where
      bs3: "boot_uleb e bs2 = Inr (sk, bs3)" "simulates bs3 rs3" by blast
    from boot_times_simulates [OF *(3) bs3(2)] 9 bs2 bs3 same show ?thesis by (simp add: unfold)
  qed
qed

text \<open>
  The linker's segments and slide, seen as those of an image whose every segment is counted.
\<close>

definition linker_image :: "macho_segment_command list \<Rightarrow> u32 \<Rightarrow> image" where
  "linker_image segments slide = new_image\<lparr>fSegmentLoadCommands := segments,
     fSegmentsCount := length segments, fSlide := slide\<rparr>"

lemma rebaseCompressed_agrees:
  assumes "segments \<noteq> []"
    and start: "start = rebase_off di + ((vmaddr linkEdit + slide) - fileoff linkEdit)"
    and run: "readRebase (linker_image segments slide) m start (start + rebase_size di) = Some (Inr m')"
  shows "rebaseCompressed m di linkEdit slide segments = Some (Inr (m', []))"
proof -
  let ?im = "linker_image segments slide" and ?e = "start + rebase_size di"
  let ?a = "vmaddr (segments ! 0) + slide"
  let ?rs = "\<lparr>rb_type = 0, rb_segmentIndex = 0, rb_address = ?a,
    rb_segmentEndAddress = ?a + vmsize (segments ! 0), rb_p = start, rb_done = False, rb_mem = m\<rparr>"
  let ?bs = "\<lparr>rb_type = 0, rb_segmentIndex = 0, rb_address = ?a,
    rb_segmentEndAddress = ?a + vmsize (segments ! 0), rb_p = start, rb_done = False, rb_mem = m,
    bt_msgs = []\<rparr>"
  have im: "fSegmentLoadCommands ?im = segments" "fSegmentsCount ?im = length segments" "fSlide ?im = slide"
    by (simp_all add: linker_image_def)
  from run assms(1) obtain rs where
    loop: "c_while (rebase_running ?e) (rebase_step ?im ?e) ?rs = Some (Inr rs)" "rb_mem rs = m'"
    by (auto simp: readRebase_def segActualLoadAddr_ok segActualEndAddr_ok im)
  have "\<exists>bs. c_while (boot_running ?e) (boot_step segments slide ?e) ?bs = Some (Inr bs) \<and> simulates bs rs"
  proof (rule c_while_simulation [where R = "\<lambda>r b. simulates b r", OF loop(1)])
    show "simulates ?bs ?rs" by (simp add: simulates_def rebase_state.defs)
    show "boot_running ?e b \<longleftrightarrow> rebase_running ?e r" if "simulates b r" for r b
      using that by (auto simp: boot_running_def rebase_running_def elim: simulatesE)
    show "\<exists>b'. boot_step segments slide ?e b = Inr b' \<and> simulates b' r'"
      if "simulates b r" "rebase_running ?e r" "rebase_step ?im ?e r = Inr r'" for r b r'
      using boot_step_simulates [OF that(3,1) im(1,2)] im(3) by simp
  qed
  then obtain bs where
    "c_while (boot_running ?e) (boot_step segments slide ?e) ?bs = Some (Inr bs)" "simulates bs rs"
    by blast
  moreover have "rb_mem bs = m'" "bt_msgs bs = []" using calculation(2) loop(2)
    by (auto simp: simulates_def)
  ultimately show ?thesis
    using assms(1) by (simp add: rebaseCompressed_def boot_segment_def Let_def start add_ac)
qed

section \<open>Properties\<close>

text \<open>
  C6: wherever the image loader's interpreter accepts the linker's own rebase stream, the
  bootstrap interpreter leaves the same memory and prints no complaint.
\<close>

theorem bootstrap_agrees_with_loader:
  assumes "segments \<noteq> []"
    and "start = rebase_off di + ((vmaddr linkEdit + slide) - fileoff linkEdit)"
    and "readRebase (linker_image segments slide) m start (start + rebase_size di) = Some (Inr m')"
  shows "rebaseCompressed m di linkEdit slide segments = Some (Inr (m', []))"
  using assms by (rule rebaseCompressed_agrees)

definition no_tables :: dyld_info_command where
  "no_tables = \<lparr>rebase_off = 0, rebase_size = 0, bind_off = 0, bind_size = 0, weak_bind_off = 0,
     weak_bind_size = 0, lazy_bind_off = 0, lazy_bind_size = 0, export_off = 0, export_size = 0\<rparr>"

theorem bootstrap_agrees_with_loader_witness:
  "\<exists>m'. rebaseCompressed two_words (no_tables\<lparr>rebase_off := 8, rebase_size := 5\<rparr>)
      (hd (fSegmentLoadCommands one_segment)) 0x1000 (fSegmentLoadCommands one_segment) = Some (Inr (m', []))"
proof -
  let ?segs = "fSegmentLoadCommands one_segment"
  have "linker_image ?segs 0x1000 = one_segment"
    by (simp add: linker_image_def one_segment_def)
  moreover obtain m' where "readRebase one_segment two_words 0x2008 0x200D = Some (Inr m')"
    using two_words_rebased by blast
  ultimately show ?thesis
    using bootstrap_agrees_with_loader [of ?segs "0x2008" "no_tables\<lparr>rebase_off := 8, rebase_size := 5\<rparr>"
        "hd ?segs" "0x1000" two_words m']
    by (auto simp: one_segment_def no_tables_def)
qed

end
