(* ===== verification/Symbols.thy ===== *)
theory Symbols
  imports MachoImage ExportTrie
begin

text \<open>
  Exported symbols of an image (src/core/lnk_macho.cpp): looking a name up in the image's own
  table, compressed or classic, then in the images it re-exports, and turning what was found
  into an address. A \<open>Symbol\<close> (src/core/macho.h) is the address of a table entry and the image
  that owns the table.
\<close>

record Symbol =
  sym_addr :: u32
  sym_inImage :: image_id

abbreviation (input) "EXPORT_SYMBOL_FLAGS_KIND_MASK \<equiv> 0x03 :: u32"
abbreviation (input) "EXPORT_SYMBOL_FLAGS_KIND_REGULAR \<equiv> 0x00 :: u32"
abbreviation (input) "EXPORT_SYMBOL_FLAGS_KIND_THREAD_LOCAL \<equiv> 0x01 :: u32"
abbreviation (input) "EXPORT_SYMBOL_FLAGS_REEXPORT \<equiv> 0x08 :: u32"
abbreviation (input) "EXPORT_SYMBOL_FLAGS_STUB_AND_RESOLVER \<equiv> 0x10 :: u32"
abbreviation (input) "N_ARM_THUMB_DEF \<equiv> 0x0008 :: u16"

section \<open>Looking a name up\<close>

text \<open>Reading a field through \<open>fDyldInfo\<close> or \<open>fDynamicInfo\<close> when it is NULL is a fault.\<close>

definition dyld_info :: "image \<Rightarrow> dyld_info_command res" where
  "dyld_info im = (case fDyldInfo im of None \<Rightarrow> Inl (Fault 0) | Some di \<Rightarrow> Inr di)"

definition dynamic_info :: "image \<Rightarrow> dysymtab_command res" where
  "dynamic_info im = (case fDynamicInfo im of None \<Rightarrow> Inl (Fault 0) | Some ds \<Rightarrow> Inr ds)"

definition findExportedSymbolCompressed ::
    "mem \<Rightarrow> u8 list \<Rightarrow> image_id \<Rightarrow> image \<Rightarrow> Symbol option res" where
  "findExportedSymbolCompressed m symbol this im =
     bindR (dyld_info im) (\<lambda>di.
     if export_size di = 0 then Inr None
     else
       let start = fLinkEditBase im + export_off di; end = start + export_size di in
       bindR (run_loop (trie_walk m start end symbol)) (\<lambda>foundNodeStart.
       case foundNodeStart of
         None \<Rightarrow> Inr None
       | Some p \<Rightarrow> bindR (read_uleb128 m p end) (\<lambda>(flags, _).
           if flags AND EXPORT_SYMBOL_FLAGS_REEXPORT \<noteq> 0 then Inl (Halt ReexportUnsupported)
           else Inr (Some \<lparr>sym_addr = p, sym_inImage = this\<rparr>))))"

definition findExportedSymbolClassic ::
    "mem \<Rightarrow> u8 list \<Rightarrow> image_id \<Rightarrow> image \<Rightarrow> Symbol option res" where
  "findExportedSymbolClassic m name this im =
     bindR (dynamic_info im) (\<lambda>ds.
     bindR
       (if tocoff ds = 0 then
          binary_search m name (fStrings im) (fSymtab im + 12 * iextdefsym ds) (nextdefsym ds)
        else
          binary_search_toc m name (fStrings im) (fSymtab im) (fLinkEditBase im + tocoff ds)
            (ntoc ds) (nextdefsym ds))
       (\<lambda>symb. Inr (map_option (\<lambda>a. \<lparr>sym_addr = a, sym_inImage = this\<rparr>) symb)))"

text \<open>
  The image's own table. Only a Mach-O image has one: the method of the other classes of image
  finds nothing.
\<close>

definition find_own :: "mem \<Rightarrow> u8 list \<Rightarrow> image_id \<Rightarrow> image \<Rightarrow> Symbol option res" where
  "find_own m symbol this im =
     (if fImageType im \<noteq> kImageTypeMachO then Inr None
      else if fIsClassic im then findExportedSymbolClassic m symbol this im
      else findExportedSymbolCompressed m symbol this im)"

definition reexports :: "image \<Rightarrow> image_id list" where
  "reexports im = (if fImageType im \<noteq> kImageTypeMachO then [] else fReExports im)"

text \<open>The images re-exported are asked in turn, and ask theirs: a cycle of them never ends.\<close>

partial_function (option) findExportedSymbol ::
    "images \<Rightarrow> mem \<Rightarrow> u8 list \<Rightarrow> image_id \<Rightarrow> Symbol option res option" where
  "findExportedSymbol ims m symbol this =
     (case image_of ims this of
        Inl e \<Rightarrow> Some (Inl e)
      | Inr im \<Rightarrow> (case find_own m symbol this im of
          Inl e \<Rightarrow> Some (Inl e)
        | Inr (Some symb) \<Rightarrow> Some (Inr (Some symb))
        | Inr None \<Rightarrow> first_some (\<lambda>rexp. findExportedSymbol ims m symbol rexp) (reexports im)))"

section \<open>The address of a symbol\<close>

definition exportedSymbolAddressCompressed :: "mem \<Rightarrow> image \<Rightarrow> Symbol \<Rightarrow> u32 res" where
  "exportedSymbolAddressCompressed m im symb =
     bindR (dyld_info im) (\<lambda>di.
     let exportNode = sym_addr symb; start = fLinkEditBase im + export_off di;
         end = start + export_size di in
     if exportNode < start \<or> exportNode > end then Inl (Halt SymbolNotInTrie)
     else bindR (read_uleb128 m exportNode end) (\<lambda>(flags, exportNode).
       if flags AND EXPORT_SYMBOL_FLAGS_KIND_MASK = EXPORT_SYMBOL_FLAGS_KIND_REGULAR then
         if flags AND EXPORT_SYMBOL_FLAGS_STUB_AND_RESOLVER \<noteq> 0 then Inl (Halt ResolverUnsupported)
         else mapR (\<lambda>(v, _). v + fHeader im) (read_uleb128 m exportNode end)
       else if flags AND EXPORT_SYMBOL_FLAGS_KIND_MASK = EXPORT_SYMBOL_FLAGS_KIND_THREAD_LOCAL then
         if flags AND EXPORT_SYMBOL_FLAGS_STUB_AND_RESOLVER \<noteq> 0 then Inl (Halt ExportKindUnsupported)
         else mapR (\<lambda>(v, _). v + fHeader im) (read_uleb128 m exportNode end)
       else Inl (Halt ExportKindUnsupported)))"

text \<open>An \<open>nlist\<close> entry: the value at offset 8, the descriptor at offset 6.\<close>

definition exportedSymbolAddressClassic :: "mem \<Rightarrow> image \<Rightarrow> Symbol \<Rightarrow> u32 res" where
  "exportedSymbolAddressClassic m im symb =
     bindR (rd32 m (sym_addr symb + 8)) (\<lambda>n_value.
     bindR (rd16 m (sym_addr symb + 6)) (\<lambda>n_desc.
       let result = n_value + fSlide im in
       Inr (if n_desc AND N_ARM_THUMB_DEF \<noteq> 0 then result OR 1 else result)))"

definition exportedSymbolAddress :: "images \<Rightarrow> mem \<Rightarrow> Symbol \<Rightarrow> u32 res" where
  "exportedSymbolAddress ims m symb =
     bindR (image_of ims (sym_inImage symb)) (\<lambda>im.
       if fImageType im \<noteq> kImageTypeMachO then Inr 0
       else if fIsClassic im then exportedSymbolAddressClassic m im symb
       else exportedSymbolAddressCompressed m im symb)"

section \<open>The search over re-exports\<close>

text \<open>The images a search from \<open>i\<close> may ask: \<open>i\<close> and what it re-exports, at any depth.\<close>

definition reexport_rel :: "images \<Rightarrow> (image_id \<times> image_id) set" where
  "reexport_rel ims = {(j, i). \<exists>im. ims i = Some im \<and> j \<in> set (reexports im)}"

lemma reexport_relI: "ims i = Some im \<Longrightarrow> j \<in> set (reexports im) \<Longrightarrow> (j, i) \<in> reexport_rel ims"
  by (auto simp: reexport_rel_def)

lemma findExportedSymbol_simp:
  "ims i = Some im \<Longrightarrow> findExportedSymbol ims m s i = (case find_own m s i im of
     Inl e \<Rightarrow> Some (Inl e)
   | Inr (Some symb) \<Rightarrow> Some (Inr (Some symb))
   | Inr None \<Rightarrow> first_some (findExportedSymbol ims m s) (reexports im))"
  by (subst findExportedSymbol.simps) simp

lemma option_res_cases [case_names error none some]:
  obtains e where "r = Inl e" | "r = Inr None" | y where "r = Inr (Some y)"
  by (cases r; cases "projr r") auto

lemma first_some_returns:
  "(\<And>x. x \<in> set xs \<Longrightarrow> \<exists>r. f x = Some r) \<Longrightarrow> \<exists>r. first_some f xs = Some r"
  by (induction xs) (fastforce split: sum.split option.split)+

lemma first_some_None:
  "first_some f xs = Some (Inr None) \<longleftrightarrow> (\<forall>x \<in> set xs. f x = Some (Inr None))"
  by (induction xs) (auto split: Option.bind_split sum.splits option.splits)

lemma first_some_Some:
  "first_some f xs = Some (Inr (Some y)) \<longleftrightarrow>
     (\<exists>ys x zs. xs = ys @ x # zs \<and> f x = Some (Inr (Some y)) \<and> (\<forall>z \<in> set ys. f z = Some (Inr None)))"
proof (induction xs)
  case (Cons x xs)
  show ?case
  proof (cases "f x = Some (Inr None)")
    case True
    then have "first_some f (x # xs) = first_some f xs" by simp
    moreover have "(\<exists>ys z zs. x # xs = ys @ z # zs \<and> f z = Some (Inr (Some y)) \<and> (\<forall>z \<in> set ys. f z = Some (Inr None)))
      \<longleftrightarrow> (\<exists>ys z zs. xs = ys @ z # zs \<and> f z = Some (Inr (Some y)) \<and> (\<forall>z \<in> set ys. f z = Some (Inr None)))"
      (is "?l \<longleftrightarrow> ?r")
    proof
      assume ?l
      then obtain ys z zs where *: "x # xs = ys @ z # zs" "f z = Some (Inr (Some y))"
        "\<forall>z \<in> set ys. f z = Some (Inr None)" by blast
      with True show ?r by (cases ys) auto
    next
      assume ?r
      then obtain ys z zs where "xs = ys @ z # zs" "f z = Some (Inr (Some y))"
        "\<forall>z \<in> set ys. f z = Some (Inr None)" by blast
      with True show ?l by (intro exI [of _ "x # ys"] exI [of _ z] exI [of _ zs]) simp
    qed
    ultimately show ?thesis using Cons.IH by simp
  next
    case False
    then have first: "first_some f (x # xs) = f x"
      by (cases "f x") (auto split: sum.split option.split)
    show ?thesis
    proof
      assume "first_some f (x # xs) = Some (Inr (Some y))"
      with first show "\<exists>ys z zs. x # xs = ys @ z # zs \<and> f z = Some (Inr (Some y)) \<and>
          (\<forall>z \<in> set ys. f z = Some (Inr None))"
        by (intro exI [of _ "[]"] exI [of _ x] exI [of _ xs]) simp
    next
      assume "\<exists>ys z zs. x # xs = ys @ z # zs \<and> f z = Some (Inr (Some y)) \<and>
          (\<forall>z \<in> set ys. f z = Some (Inr None))"
      then obtain ys z zs where *: "x # xs = ys @ z # zs" "f z = Some (Inr (Some y))"
          "\<forall>z \<in> set ys. f z = Some (Inr None)" by blast
      with False first show "first_some f (x # xs) = Some (Inr (Some y))"
        by (cases ys) (auto simp del: first_some.simps)
    qed
  qed
qed simp

text \<open>If no image re-exports itself, at any depth, the search ends.\<close>

lemma findExportedSymbol_returns:
  assumes "wf (reexport_rel ims)"
  shows "\<exists>r. findExportedSymbol ims m s i = Some r"
  using assms
proof (induction i rule: wf_induct_rule)
  case (less i)
  show ?case
  proof (cases "ims i")
    case None
    then show ?thesis by (subst findExportedSymbol.simps) (simp add: image_of_def)
  next
    case (Some im)
    have "\<exists>r. first_some (findExportedSymbol ims m s) (reexports im) = Some r"
      by (rule first_some_returns) (auto intro!: less reexport_relI [where im = im] Some)
    then show ?thesis
      by (auto simp: findExportedSymbol_simp [of ims i im, OF Some] split: sum.split option.split)
  qed
qed

text \<open>
  What is found is in the table of an image the search may ask; where nothing is found no
  table it may ask has the name.
\<close>

definition found_in :: "images \<Rightarrow> mem \<Rightarrow> u8 list \<Rightarrow> image_id \<Rightarrow> Symbol option \<Rightarrow> bool" where
  "found_in ims m s i r = (case r of
     Some symb \<Rightarrow> \<exists>j im. (j, i) \<in> (reexport_rel ims)\<^sup>* \<and> ims j = Some im \<and>
       find_own m s j im = Inr (Some symb)
   | None \<Rightarrow> \<forall>j. (j, i) \<in> (reexport_rel ims)\<^sup>* \<longrightarrow>
       (\<exists>im. ims j = Some im \<and> find_own m s j im = Inr None))"

lemma found_in_own:
  "ims i = Some im \<Longrightarrow> find_own m s i im = Inr (Some symb) \<Longrightarrow> found_in ims m s i (Some symb)"
  by (auto simp: found_in_def)

lemma found_in_reexport:
  assumes "(j, i) \<in> reexport_rel ims" "found_in ims m s j (Some symb)"
  shows "found_in ims m s i (Some symb)"
  using assms by (auto simp: found_in_def intro: rtrancl.rtrancl_into_rtrancl)

lemma found_in_nowhere:
  assumes "ims i = Some im" "find_own m s i im = Inr None"
    "\<forall>j \<in> set (reexports im). found_in ims m s j None"
  shows "found_in ims m s i None"
proof -
  have "\<exists>im. ims j = Some im \<and> find_own m s j im = Inr None" if "(j, i) \<in> (reexport_rel ims)\<^sup>*" for j
    using that
  proof (cases rule: rtranclE)
    case (step k)
    then have "k \<in> set (reexports im)" using assms(1) by (auto simp: reexport_rel_def)
    with assms(3) step(1) show ?thesis by (auto simp: found_in_def)
  qed (use assms in simp)
  then show ?thesis by (simp add: found_in_def)
qed

lemma findExportedSymbol_found:
  assumes "findExportedSymbol ims m s i = Some (Inr r)"
  shows "found_in ims m s i r"
proof -
  have "\<forall>r'. (Inr r :: Symbol option res) = Inr r' \<longrightarrow> found_in ims m s i r'"
  proof (rule findExportedSymbol.raw_induct
      [where P = "\<lambda>ims m s i r. \<forall>r'. r = Inr r' \<longrightarrow> found_in ims m s i r'", OF _ assms], intro allI impI)
    fix f ims m s i r r'
    assume IH: "\<And>ims m s i r. f ims m s i = Some r \<Longrightarrow> \<forall>r'. r = Inr r' \<longrightarrow> found_in ims m s i r'"
      and eq: "(case image_of ims i of Inl e \<Rightarrow> Some (Inl e)
        | Inr im \<Rightarrow> (case find_own m s i im of Inl e \<Rightarrow> Some (Inl e)
          | Inr (Some symb) \<Rightarrow> Some (Inr (Some symb))
          | Inr None \<Rightarrow> first_some (\<lambda>rexp. f ims m s rexp) (reexports im))) = Some r"
      and r: "r = Inr r'"
    from eq r obtain im where im: "ims i = Some im"
      by (cases "image_of ims i") auto
    show "found_in ims m s i r'"
    proof (cases "find_own m s i im" rule: option_res_cases)
      case (some symb)
      with eq im r found_in_own [of ims i im, OF im some] show ?thesis by simp
    next
      case none
      with eq im r have *: "first_some (f ims m s) (reexports im) = Some (Inr r')" by simp
      show ?thesis
      proof (cases r')
        case None
        with * have "\<forall>j \<in> set (reexports im). f ims m s j = Some (Inr None)"
          by (simp add: first_some_None)
        with IH have "\<forall>j \<in> set (reexports im). found_in ims m s j None" by blast
        with found_in_nowhere [of ims i im m s, OF im none] None show ?thesis by simp
      next
        case (Some symb)
        with * have "\<exists>j \<in> set (reexports im). f ims m s j = Some (Inr (Some symb))"
          by (auto simp: first_some_Some)
        then obtain j where j: "j \<in> set (reexports im)" "f ims m s j = Some (Inr (Some symb))"
          by blast
        from IH [OF j(2)] have "found_in ims m s j (Some symb)" by simp
        with found_in_reexport [OF reexport_relI [of ims i im, OF im j(1)]] Some show ?thesis by simp
      qed
    qed (use eq im r in simp)
  qed
  then show ?thesis by simp
qed

section \<open>Compressed exports, end to end\<close>

text \<open>
  The information of a name in the export trie: the flags of a plain or thread-local symbol,
  and the offset of its definition from the header.
\<close>

definition plain_export :: "nat \<Rightarrow> bool" where
  "plain_export flags \<longleftrightarrow> flags < 2 ^ 32 \<and>
     (of_nat flags AND EXPORT_SYMBOL_FLAGS_KIND_MASK = EXPORT_SYMBOL_FLAGS_KIND_REGULAR \<or>
      of_nat flags AND EXPORT_SYMBOL_FLAGS_KIND_MASK = EXPORT_SYMBOL_FLAGS_KIND_THREAD_LOCAL) \<and>
     of_nat flags AND EXPORT_SYMBOL_FLAGS_REEXPORT = 0 \<and>
     of_nat flags AND EXPORT_SYMBOL_FLAGS_STUB_AND_RESOLVER = 0"

definition exports :: "mem \<Rightarrow> image \<Rightarrow> etrie \<Rightarrow> bool" where
  "exports m im t \<longleftrightarrow> (case fDyldInfo im of None \<Rightarrow> False | Some di \<Rightarrow>
     let start = fLinkEditBase im + export_off di in
     export_size di \<noteq> 0 \<and> trie_at m start (start + export_size di) start t \<and> etrie_wf t)"

lemma export_info_read:
  assumes "info_at m start e q (uleb_encode flags @ uleb_encode off)" "flags < 2 ^ 32" "off < 2 ^ 32"
  shows "read_uleb128 m q e = Inr (of_nat flags, q + uleb_size flags)"
    and "\<exists>q'. read_uleb128 m (q + uleb_size flags) e = Inr (of_nat off, q')"
proof -
  from assms(1) have room: "unat q + length (uleb_encode flags) + length (uleb_encode off) < unat e"
    by (simp add: info_at_def)
  then have "unat (q + uleb_size flags) = unat q + length (uleb_encode flags)"
    using unat_u32_less [of e]
    by (simp add: uleb_size_def unat_word_ariths unsigned_of_nat take_bit_eq_mod)
  with room assms show "read_uleb128 m q e = Inr (of_nat flags, q + uleb_size flags)"
      "\<exists>q'. read_uleb128 m (q + uleb_size flags) e = Inr (of_nat off, q')"
    using read_uleb128_encode [of m q flags e] read_uleb128_encode [of m "q + uleb_size flags" off e]
    by (auto simp: info_at_def uleb_size_def)
qed

lemma exported_symbol_address:
  assumes "exports m im t" "0 \<notin> set s"
    "(s, uleb_encode flags @ uleb_encode off) \<in> set (etrie_entries t)"
    "plain_export flags" "off < 2 ^ 32"
  shows "\<exists>symb. findExportedSymbolCompressed m s i im = Inr (Some symb) \<and> sym_inImage symb = i \<and>
    exportedSymbolAddressCompressed m im symb = Inr (of_nat off + fHeader im)"
proof -
  from assms(1) obtain di where di: "fDyldInfo im = Some di" "export_size di \<noteq> 0"
    by (auto simp: exports_def Let_def split: option.splits)
  let ?start = "fLinkEditBase im + export_off di"
  let ?e = "?start + export_size di"
  from assms(1) di have trie: "trie_at m ?start ?e ?start t" "etrie_wf t"
    by (auto simp: exports_def Let_def)
  from trie_walk_correct [OF trie assms(2)] obtain r where r: "trie_walk m ?start ?e s = Some (Inr r)"
    "case r of None \<Rightarrow> s \<notin> fst ` set (etrie_entries t)
     | Some q \<Rightarrow> \<exists>info. (s, info) \<in> set (etrie_entries t) \<and> info_at m ?start ?e q info"
    by blast
  with assms(3) obtain q info where q: "r = Some q" "(s, info) \<in> set (etrie_entries t)"
      "info_at m ?start ?e q info"
    by (cases r) force+
  have info: "info = uleb_encode flags @ uleb_encode off"
    using lookup_entries(1) [OF trie(2)] assms(3) q(2) by (metis option.inject)
  note read = export_info_read [OF q(3) [unfolded info]]
  have inside: "\<not> q < ?start" "\<not> ?e < q"
    using q(3) by (auto simp: info_at_def not_less word_le_nat_alt)
  show ?thesis
    using assms(4,5) di r(1) q(1) read inside
    by (auto simp: findExportedSymbolCompressed_def exportedSymbolAddressCompressed_def dyld_info_def
        Let_def plain_export_def)
qed

lemma not_exported:
  assumes "exports m im t" "0 \<notin> set s" "s \<notin> fst ` set (etrie_entries t)"
  shows "findExportedSymbolCompressed m s i im = Inr None"
proof -
  from assms(1) obtain di where di: "fDyldInfo im = Some di" "export_size di \<noteq> 0"
    by (auto simp: exports_def Let_def split: option.splits)
  let ?start = "fLinkEditBase im + export_off di"
  let ?e = "?start + export_size di"
  from assms(1) di have trie: "trie_at m ?start ?e ?start t" "etrie_wf t"
    by (auto simp: exports_def Let_def)
  from trie_walk_correct [OF trie assms(2)] assms(3) have "trie_walk m ?start ?e s = Some (Inr None)"
    by (force split: option.splits)
  with di show ?thesis by (simp add: findExportedSymbolCompressed_def dyld_info_def)
qed

section \<open>Properties\<close>


text \<open>An image whose trie exports \<open>a\<close> at offset 0x20 from its header.\<close>

definition exporting_trie :: mem where
  "exporting_trie = mem_of 0x1000 [0, 1, 0x61, 0, 5, 2, 0, 0x20, 0]"

definition exporting_image :: image where
  "exporting_image = new_image\<lparr>fLinkEditBase := 0xF00, fHeader := 0x4000, fDyldInfo :=
     Some \<lparr>rebase_off = 0, rebase_size = 0, bind_off = 0, bind_size = 0, weak_bind_off = 0,
       weak_bind_size = 0, lazy_bind_off = 0, lazy_bind_size = 0, export_off = 0x100,
       export_size = 9\<rparr>\<rparr>"

abbreviation "exporting_etrie \<equiv> ETrie [] [([0x61], ETrie [0, 0x20] [])]"

lemma exporting_image_exports: "exports exporting_trie exporting_image exporting_etrie"
proof -
  have "trie_at exporting_trie 0x1000 0x1009 0x1000 exporting_etrie"
    by (intro trie_node kids_some [where off = 5] kids_none)
       (simp_all add: exporting_trie_def mem_of_def uleb_encode.simps uleb_size_def)
  then show ?thesis by (simp add: exports_def exporting_image_def)
qed



definition reexporting_images :: images where
  "reexporting_images = [0 \<mapsto> exporting_image\<lparr>fDyldInfo := Some ((the (fDyldInfo exporting_image))\<lparr>export_size := 0\<rparr>),
     fReExports := [1]\<rparr>, 1 \<mapsto> exporting_image]"


end
