(* ===== verification/ImageChain.thy ===== *)
theory ImageChain
  imports MachoImage
begin

text \<open>
  The chain of loaded images: the singly linked list through \<open>fNextImage\<close> that starts at
  \<open>sFirstImage\<close> (src/core/lnk.cpp), and the loop that visits it. The source writes that loop out
  in every routine: \<open>im = sFirstImage; while (im != NULL) { ...; im = im->nextImage(); }\<close>.
\<close>

section \<open>The chain\<close>

text \<open>The images from a pointer on, following \<open>fNextImage\<close> to the NULL at the end.\<close>

inductive chain :: "images \<Rightarrow> image_id option \<Rightarrow> image_id list \<Rightarrow> bool" for ims where
  chain_end: "chain ims None []"
| chain_next: "ims i = Some im \<Longrightarrow> chain ims (fNextImage im) xs \<Longrightarrow> chain ims (Some i) (i # xs)"

inductive_cases chain_NoneE: "chain ims None xs"
inductive_cases chain_SomeE: "chain ims (Some i) xs"
inductive_simps chain_Nil [simp]: "chain ims p []"
inductive_simps chain_Cons: "chain ims p (i # xs)"

lemma chain_None [simp]: "chain ims None xs \<longleftrightarrow> xs = []"
  by (auto elim: chain_NoneE intro: chain_end)

lemma chain_Some: "chain ims (Some i) xs \<longleftrightarrow>
    (\<exists>im ys. ims i = Some im \<and> xs = i # ys \<and> chain ims (fNextImage im) ys)"
  by (subst chain.simps) auto

lemma chain_fun: "chain ims p xs \<Longrightarrow> chain ims p ys \<Longrightarrow> xs = ys"
proof (induction p xs arbitrary: ys rule: chain.induct)
  case (chain_next i im xs)
  then obtain zs where zs: "ys = i # zs" "chain ims (fNextImage im) zs"
    by (auto simp: chain_Some)
  from chain_next.IH [OF zs(2)] zs(1) show ?case by simp
qed simp

text \<open>The links of the images, all that a chain depends on.\<close>

definition links :: "images \<Rightarrow> image_id \<Rightarrow> image_id option option" where
  "links ims i = map_option fNextImage (ims i)"

lemma chain_links:
  "chain ims p xs \<Longrightarrow> (\<And>i. i \<in> set xs \<Longrightarrow> links ims' i = links ims i) \<Longrightarrow> chain ims' p xs"
proof (induction p xs rule: chain.induct)
  case (chain_next i im xs)
  from chain_next.prems [of i] chain_next.hyps(1) obtain im' where
    "ims' i = Some im'" "fNextImage im' = fNextImage im"
    by (auto simp: links_def)
  with chain_next show ?case by (auto simp: chain_Some)
qed simp

lemma chain_in_dom: "chain ims p xs \<Longrightarrow> i \<in> set xs \<Longrightarrow> \<exists>im. ims i = Some im"
  by (induction p xs rule: chain.induct) auto

text \<open>A chain visits no image twice: following the links again from there would not end.\<close>

lemma chain_drop:
  assumes "chain ims p xs" "n < length xs"
  shows "chain ims (Some (xs ! n)) (drop n xs)"
  using assms
proof (induction p xs arbitrary: n rule: chain.induct)
  case (chain_next i im xs)
  show ?case
  proof (cases n)
    case 0
    with chain_next.hyps show ?thesis by (auto simp: chain_Some)
  next
    case (Suc k)
    with chain_next.IH [of k] chain_next.prems show ?thesis by simp
  qed
qed simp

lemma chain_distinct:
  assumes "chain ims p xs"
  shows "distinct xs"
proof (rule ccontr)
  assume "\<not> distinct xs"
  then obtain i j where ij: "i < length xs" "j < length xs" "i \<noteq> j" "xs ! i = xs ! j"
    by (auto simp: distinct_conv_nth)
  from chain_fun [OF chain_drop [OF assms ij(1)]] chain_drop [OF assms ij(2)] ij(4)
  have "drop i xs = drop j xs" by simp
  then have "length (drop i xs) = length (drop j xs)" by simp
  with ij show False by simp
qed

section \<open>Visiting the chain\<close>

text \<open>
  The body runs on a state that holds the images; the link is read after it has run, so a body
  that changed it would steer the visit.
\<close>

definition each_image ::
    "('s \<Rightarrow> images) \<Rightarrow> (image_id \<Rightarrow> 's \<Rightarrow> 's res) \<Rightarrow> image_id option \<Rightarrow> 's \<Rightarrow> 's res" where
  "each_image ims body im s = mapR snd (run_loop (c_while (\<lambda>(im, s). im \<noteq> None)
     (\<lambda>(im, s). bindR (body (the im) s) (\<lambda>s.
        mapR (\<lambda>img. (fNextImage img, s)) (image_of (ims s) (the im)))) (im, s)))"

fun foldR :: "('a \<Rightarrow> 's \<Rightarrow> 's res) \<Rightarrow> 'a list \<Rightarrow> 's \<Rightarrow> 's res" where
  "foldR body [] s = Inr s"
| "foldR body (x # xs) s = bindR (body x s) (foldR body xs)"

lemma foldR_append: "foldR body (xs @ ys) s = bindR (foldR body xs s) (foldR body ys)"
  by (induction xs arbitrary: s) (simp_all add: bindR_assoc cong: bindR_cong)

lemma foldR_invariant:
  assumes "foldR body xs s = Inr t" "P s" "\<And>x s s'. x \<in> set xs \<Longrightarrow> P s \<Longrightarrow> body x s = Inr s' \<Longrightarrow> P s'"
  shows "P t"
  using assms
proof (induction xs arbitrary: s)
  case (Cons x xs)
  from Cons.prems(1) obtain s1 where s1: "body x s = Inr s1" "foldR body xs s1 = Inr t" by auto
  from Cons.prems(3) [OF _ Cons.prems(2) s1(1)] have "P s1" by simp
  with Cons.prems(3) show ?case by (intro Cons.IH [OF s1(2)]) auto
qed simp

lemma each_image_end [simp]: "each_image ims body None s = Inr s"
  by (simp add: each_image_def c_while_stop)

lemma each_image_next:
  "each_image ims body (Some i) s = bindR (body i s) (\<lambda>s. bindR (image_of (ims s) i) (\<lambda>img.
     each_image ims body (fNextImage img) s))"
proof (cases "body i s")
  case (Inl e)
  then show ?thesis by (simp add: each_image_def c_while_fail)
next
  case (Inr s')
  then show ?thesis
    by (cases "image_of (ims s') i") (simp_all add: each_image_def c_while_fail c_while_step)
qed

text \<open>A body that keeps the links visits the chain as it was at the start, image by image.\<close>

lemma each_image_chain:
  assumes "chain (ims s) p xs"
    and keeps: "\<And>i s s'. body i s = Inr s' \<Longrightarrow> links (ims s') = links (ims s)"
  shows "each_image ims body p s = foldR body xs s"
  using assms(1)
proof (induction xs arbitrary: p s rule: list.induct)
  case (Cons i xs)
  then obtain im where im: "p = Some i" "ims s i = Some im" "chain (ims s) (fNextImage im) xs"
    by (auto simp: chain_Cons)
  show ?case
  proof (cases "body i s")
    case (Inr s')
    from keeps [OF this] have links: "links (ims s') = links (ims s)" .
    with im(2) obtain im' where im': "ims s' i = Some im'" "fNextImage im' = fNextImage im"
      by (auto simp: links_def dest!: fun_cong [of _ _ i])
    have "chain (ims s') (fNextImage im') xs"
      using im(3) links im'(2) by (auto intro: chain_links)
    from Cons.IH [OF this] im(1) im' Inr show ?thesis by (simp add: each_image_next)
  qed (simp add: im(1) each_image_next)
qed simp

end
