(* ===== verification/Bind.thy ===== *)
theory Bind
  imports Symbols Rebase ImageChain
begin

text \<open>
  Binding: \<open>lnk::resolve\<close> (src/core/lnk.cpp), which looks a name up along the chain of images,
  \<open>MachObject::bind\<close>, which stores what it found, and the three interpreters of binding opcodes
  \<open>readBind\<close>, \<open>readWeakBind\<close> and \<open>readLazyBind\<close> (src/core/lnk_macho.cpp).
\<close>

section \<open>Resolving a name\<close>

text \<open>
  The flat search from \<open>sFirstImage\<close> on. The two-level branch of the code is never taken: its
  condition ends in \<open>|| 1\<close>.
\<close>

partial_function (option) resolve_loop ::
    "images \<Rightarrow> mem \<Rightarrow> u8 list \<Rightarrow> image_id option \<Rightarrow> u32 option res option" where
  "resolve_loop ims m symbolName im =
     (if im = None then Some (Inr None)
      else Option.bind (findExportedSymbol ims m symbolName (the im)) (\<lambda>found. case found of
          Inl e \<Rightarrow> Some (Inl e)
        | Inr (Some symb) \<Rightarrow> Some (mapR Some (exportedSymbolAddress ims m symb))
        | Inr None \<Rightarrow> (case image_of ims (the im) of
            Inl e \<Rightarrow> Some (Inl e)
          | Inr img \<Rightarrow> resolve_loop ims m symbolName (fNextImage img))))"

text \<open>
  What the linker knows while it binds: the images, the first of the chain, and the count of
  names it could not resolve, which it hands out as the address of such a name.
\<close>

record link_env =
  env_images :: images
  env_first :: "image_id option"

definition resolve_name :: "link_env \<Rightarrow> mem \<Rightarrow> u32 \<Rightarrow> u8 list \<Rightarrow> (u32 \<times> u32) res" where
  "resolve_name env m sUnresolvedCount name =
     bindR (run_loop (resolve_loop (env_images env) m name (env_first env))) (\<lambda>r. case r of
       Some addr \<Rightarrow> Inr (addr, sUnresolvedCount)
     | None \<Rightarrow> Inr (sUnresolvedCount + 1, sUnresolvedCount + 1))"

definition resolve :: "link_env \<Rightarrow> mem \<Rightarrow> u32 \<Rightarrow> u32 \<Rightarrow> (u32 \<times> u32) res" where
  "resolve env m sUnresolvedCount symbolName =
     bindR (cstr_at m symbolName) (resolve_name env m sUnresolvedCount)"

section \<open>Binding one address\<close>

abbreviation (input) "BIND_TYPE_POINTER \<equiv> 1 :: u8"
abbreviation (input) "BIND_TYPE_TEXT_ABSOLUTE32 \<equiv> 2 :: u8"
abbreviation (input) "BIND_TYPE_TEXT_PCREL32 \<equiv> 3 :: u8"

definition update32 :: "mem \<Rightarrow> u32 \<Rightarrow> u32 \<Rightarrow> mem res" where
  "update32 m a v = bindR (rd32 m a) (\<lambda>old. if old \<noteq> v then wr32 m a v else Inr m)"

text \<open>
  \<open>fDependencies\<close> is an array of 128 pointers of which the first \<open>fDepCount\<close> are set; the
  ordinal is checked against the count but the entry, which is read and never used, may be one
  past them. Subtracting one from the smallest \<open>int\<close> overflows.
\<close>

definition target_image :: "image \<Rightarrow> int \<Rightarrow> unit res" where
  "target_image im ordinal =
     (if ordinal = - (2 ^ 31) then Inl Undefined
      else let reqOrdinal = ordinal - 1 in
      if reqOrdinal > int (length (fDependencies im)) then Inl (Halt OrdinalOutOfRange)
      else if ordinal > 0 \<and> reqOrdinal \<ge> 128 then Inl Undefined
      else Inr ())"

definition bind_at :: "mem \<Rightarrow> u32 \<Rightarrow> u8 \<Rightarrow> u32 \<Rightarrow> mem res" where
  "bind_at m address type newValue =
     (if type = BIND_TYPE_POINTER then update32 m address newValue
      else if type = BIND_TYPE_TEXT_ABSOLUTE32 then update32 m address newValue
      else if type = BIND_TYPE_TEXT_PCREL32 then update32 m address (newValue - (address + 4))
      else Inl (Halt BadBindType))"

definition bind ::
    "link_env \<Rightarrow> image \<Rightarrow> u32 \<Rightarrow> u8 \<Rightarrow> u32 \<Rightarrow> u32 \<Rightarrow> int \<Rightarrow> mem \<times> u32 \<Rightarrow> (mem \<times> u32) res" where
  "bind env im address type name addend ordinal = (\<lambda>(m, unresolved).
     bindR (target_image im ordinal) (\<lambda>_.
     bindR (resolve env m unresolved name) (\<lambda>(value, unresolved).
     bindR (bind_at m address type (value + addend)) (\<lambda>m. Inr (m, unresolved)))))"

section \<open>The interpreters\<close>

abbreviation (input) "BIND_OPCODE_MASK \<equiv> 0xF0 :: u8"
abbreviation (input) "BIND_IMMEDIATE_MASK \<equiv> 0x0F :: u8"
abbreviation (input) "BIND_OPCODE_DONE \<equiv> 0x00 :: u8"
abbreviation (input) "BIND_OPCODE_SET_DYLIB_ORDINAL_IMM \<equiv> 0x10 :: u8"
abbreviation (input) "BIND_OPCODE_SET_DYLIB_ORDINAL_ULEB \<equiv> 0x20 :: u8"
abbreviation (input) "BIND_OPCODE_SET_DYLIB_SPECIAL_IMM \<equiv> 0x30 :: u8"
abbreviation (input) "BIND_OPCODE_SET_SYMBOL_TRAILING_FLAGS_IMM \<equiv> 0x40 :: u8"
abbreviation (input) "BIND_OPCODE_SET_TYPE_IMM \<equiv> 0x50 :: u8"
abbreviation (input) "BIND_OPCODE_SET_ADDEND_SLEB \<equiv> 0x60 :: u8"
abbreviation (input) "BIND_OPCODE_SET_SEGMENT_AND_OFFSET_ULEB \<equiv> 0x70 :: u8"
abbreviation (input) "BIND_OPCODE_ADD_ADDR_ULEB \<equiv> 0x80 :: u8"
abbreviation (input) "BIND_OPCODE_DO_BIND \<equiv> 0x90 :: u8"
abbreviation (input) "BIND_OPCODE_DO_BIND_ADD_ADDR_ULEB \<equiv> 0xA0 :: u8"
abbreviation (input) "BIND_OPCODE_DO_BIND_ADD_ADDR_IMM_SCALED \<equiv> 0xB0 :: u8"
abbreviation (input) "BIND_OPCODE_DO_BIND_ULEB_TIMES_SKIPPING_ULEB \<equiv> 0xC0 :: u8"

record bind_state =
  bd_libraryOrdinal :: int
  bd_segmentIndex :: nat
  bd_symbolName :: u32
  bd_symbolFlags :: u8
  bd_addend :: u32
  bd_type :: u8
  bd_segmentEndAddress :: u32
  bd_address :: u32
  bd_pos :: u32
  bd_done :: bool
  bd_mem :: mem
  bd_unresolved :: u32

definition bind_uleb :: "u32 \<Rightarrow> bind_state \<Rightarrow> (u32 \<times> bind_state) res" where
  "bind_uleb end st =
     mapR (\<lambda>(v, p). (v, st\<lparr>bd_pos := p\<rparr>)) (read_uleb128 (bd_mem st) (bd_pos st) end)"

definition bind_sleb :: "u32 \<Rightarrow> bind_state \<Rightarrow> (u32 \<times> bind_state) res" where
  "bind_sleb end st =
     mapR (\<lambda>(v, p). (v, st\<lparr>bd_pos := p\<rparr>)) (read_sleb128 (bd_mem st) (bd_pos st) end)"

text \<open>Past the terminator of the string at an address.\<close>

function skip_cstr :: "mem \<Rightarrow> u32 \<Rightarrow> u32 res" where
  "skip_cstr m p = bindR (rd8 m p) (\<lambda>c.
     if p = - 1 then Inl Undefined else if c = 0 then Inr (p + 1) else skip_cstr m (p + 1))"
  by pat_completeness auto
termination
  by (relation "measure (\<lambda>(m, p). 2 ^ 32 - unat p)")
     (auto simp: unat_ptr_Suc intro!: diff_less_ptr)

declare skip_cstr.simps [simp del]

text \<open>The special ordinals are small negative numbers, sign-extended from eight bits.\<close>

definition special_ordinal :: "u8 \<Rightarrow> int" where
  "special_ordinal immediate =
     (if immediate = 0 then 0 else sint (BIND_OPCODE_MASK OR immediate))"

text \<open>The opcodes that set the state and that all three interpreters know.\<close>

definition bind_setter :: "image \<Rightarrow> u32 \<Rightarrow> u8 \<Rightarrow> u8 \<Rightarrow> bind_state \<Rightarrow> bind_state res option" where
  "bind_setter im end opcode immediate st =
     (if opcode = BIND_OPCODE_SET_DYLIB_ORDINAL_IMM then
        Some (Inr (st\<lparr>bd_libraryOrdinal := uint immediate\<rparr>))
      else if opcode = BIND_OPCODE_SET_DYLIB_ORDINAL_ULEB then
        Some (bindR (bind_uleb end st) (\<lambda>(v, st). Inr (st\<lparr>bd_libraryOrdinal := sint v\<rparr>)))
      else if opcode = BIND_OPCODE_SET_TYPE_IMM then Some (Inr (st\<lparr>bd_type := immediate\<rparr>))
      else if opcode = BIND_OPCODE_SET_ADDEND_SLEB then
        Some (bindR (bind_sleb end st) (\<lambda>(v, st). Inr (st\<lparr>bd_addend := v\<rparr>)))
      else if opcode = BIND_OPCODE_ADD_ADDR_ULEB then
        Some (bindR (bind_uleb end st) (\<lambda>(v, st). Inr (st\<lparr>bd_address := bd_address st + v\<rparr>)))
      else if opcode = BIND_OPCODE_SET_SEGMENT_AND_OFFSET_ULEB then
        Some (let segmentIndex = unat immediate; st = st\<lparr>bd_segmentIndex := segmentIndex\<rparr> in
          bindR (segActualLoadAddr im segmentIndex) (\<lambda>base.
          bindR (bind_uleb end st) (\<lambda>(v, st).
          bindR (segActualEndAddr im segmentIndex) (\<lambda>segEnd.
            Inr (st\<lparr>bd_address := base + v, bd_segmentEndAddress := segEnd\<rparr>)))))
      else if opcode = BIND_OPCODE_SET_SYMBOL_TRAILING_FLAGS_IMM then
        Some (bindR (skip_cstr (bd_mem st) (bd_pos st)) (\<lambda>p.
          Inr (st\<lparr>bd_symbolName := bd_pos st, bd_symbolFlags := immediate, bd_pos := p\<rparr>)))
      else None)"

text \<open>The bounds check, the binding, and the step to the next address.\<close>

definition bind_one :: "link_env \<Rightarrow> image \<Rightarrow> u32 \<Rightarrow> bind_state \<Rightarrow> bind_state res" where
  "bind_one env im step st =
     (if bd_address st \<ge> bd_segmentEndAddress st then throwBadBindingAddress im (bd_segmentIndex st)
      else bindR (bind env im (bd_address st) (bd_type st) (bd_symbolName st) (bd_addend st)
          (bd_libraryOrdinal st) (bd_mem st, bd_unresolved st)) (\<lambda>(m, unresolved).
        Inr (st\<lparr>bd_mem := m, bd_unresolved := unresolved, bd_address := bd_address st + step\<rparr>)))"

fun bind_times :: "link_env \<Rightarrow> image \<Rightarrow> u32 \<Rightarrow> nat \<Rightarrow> bind_state \<Rightarrow> bind_state res" where
  "bind_times env im step 0 st = Inr st"
| "bind_times env im step (Suc n) st = bindR (bind_one env im step st) (bind_times env im step n)"

definition readBind_step :: "link_env \<Rightarrow> image \<Rightarrow> u32 \<Rightarrow> bind_state \<Rightarrow> bind_state res" where
  "readBind_step env im end st =
     bindR (rd8 (bd_mem st) (bd_pos st)) (\<lambda>byte.
     let opcode = byte AND BIND_OPCODE_MASK; immediate = byte AND BIND_IMMEDIATE_MASK;
         st = st\<lparr>bd_pos := bd_pos st + 1\<rparr>
     in if opcode = BIND_OPCODE_DONE then Inr (st\<lparr>bd_done := True\<rparr>)
     else if opcode = BIND_OPCODE_SET_DYLIB_SPECIAL_IMM then
       Inr (st\<lparr>bd_libraryOrdinal := special_ordinal immediate\<rparr>)
     else if opcode = BIND_OPCODE_DO_BIND then bind_one env im 4 st
     else if opcode = BIND_OPCODE_DO_BIND_ADD_ADDR_ULEB then
       bindR (bind_one env im 0 st) (\<lambda>st.
       bindR (bind_uleb end st) (\<lambda>(v, st). Inr (st\<lparr>bd_address := bd_address st + (v + 4)\<rparr>)))
     else if opcode = BIND_OPCODE_DO_BIND_ADD_ADDR_IMM_SCALED then
       bind_one env im (ucast immediate * 4 + 4) st
     else if opcode = BIND_OPCODE_DO_BIND_ULEB_TIMES_SKIPPING_ULEB then
       bindR (bind_uleb end st) (\<lambda>(count, st).
       bindR (bind_uleb end st) (\<lambda>(skip, st).
         bind_times env im (skip + 4) (unat count) st))
     else (case bind_setter im end opcode immediate st of
         Some r \<Rightarrow> r
       | None \<Rightarrow> Inl (Halt InvalidBindOpcode)))"

text \<open>
  The weak interpreter checks the addresses and steps over them but binds nothing: the calls are
  commented out. It does not know the special ordinals, and \<open>BIND_OPCODE_DONE\<close> does not stop it.
\<close>

definition weak_one :: "image \<Rightarrow> u32 \<Rightarrow> bind_state \<Rightarrow> bind_state res" where
  "weak_one im step st =
     (if bd_address st \<ge> bd_segmentEndAddress st then throwBadBindingAddress im (bd_segmentIndex st)
      else Inr (st\<lparr>bd_address := bd_address st + step\<rparr>))"

fun weak_times :: "image \<Rightarrow> u32 \<Rightarrow> nat \<Rightarrow> bind_state \<Rightarrow> bind_state res" where
  "weak_times im step 0 st = Inr st"
| "weak_times im step (Suc n) st = bindR (weak_one im step st) (weak_times im step n)"

definition readWeakBind_step :: "image \<Rightarrow> u32 \<Rightarrow> bind_state \<Rightarrow> bind_state res" where
  "readWeakBind_step im end st =
     bindR (rd8 (bd_mem st) (bd_pos st)) (\<lambda>byte.
     let opcode = byte AND BIND_OPCODE_MASK; immediate = byte AND BIND_IMMEDIATE_MASK;
         st = st\<lparr>bd_pos := bd_pos st + 1\<rparr>
     in if opcode = BIND_OPCODE_DONE then Inr st
     else if opcode = BIND_OPCODE_DO_BIND then weak_one im 4 st
     else if opcode = BIND_OPCODE_DO_BIND_ADD_ADDR_ULEB then
       bindR (weak_one im 0 st) (\<lambda>st.
       bindR (bind_uleb end st) (\<lambda>(v, st). Inr (st\<lparr>bd_address := bd_address st + (v + 4)\<rparr>)))
     else if opcode = BIND_OPCODE_DO_BIND_ADD_ADDR_IMM_SCALED then
       weak_one im (ucast immediate * 4 + 4) st
     else if opcode = BIND_OPCODE_DO_BIND_ULEB_TIMES_SKIPPING_ULEB then
       bindR (bind_uleb end st) (\<lambda>(count, st).
       bindR (bind_uleb end st) (\<lambda>(skip, st).
         weak_times im (skip + 4) (unat count) st))
     else (case bind_setter im end opcode immediate st of
         Some r \<Rightarrow> r
       | None \<Rightarrow> Inl (Halt InvalidBindOpcode)))"

text \<open>
  The lazy interpreter binds one address at a time and refuses the compound opcodes;
  \<open>BIND_OPCODE_DONE\<close> does not stop it either, since it ends every entry of the lazy table.
\<close>

definition readLazyBind_step :: "link_env \<Rightarrow> image \<Rightarrow> u32 \<Rightarrow> bind_state \<Rightarrow> bind_state res" where
  "readLazyBind_step env im end st =
     bindR (rd8 (bd_mem st) (bd_pos st)) (\<lambda>byte.
     let opcode = byte AND BIND_OPCODE_MASK; immediate = byte AND BIND_IMMEDIATE_MASK;
         st = st\<lparr>bd_pos := bd_pos st + 1\<rparr>
     in if opcode = BIND_OPCODE_DONE then Inr st
     else if opcode = BIND_OPCODE_SET_DYLIB_SPECIAL_IMM then
       Inr (st\<lparr>bd_libraryOrdinal := special_ordinal immediate\<rparr>)
     else if opcode = BIND_OPCODE_DO_BIND then bind_one env im 4 st
     else (case bind_setter im end opcode immediate st of
         Some r \<Rightarrow> r
       | None \<Rightarrow> Inl (Halt InvalidLazyBindOpcode)))"

definition bind_running :: "u32 \<Rightarrow> bind_state \<Rightarrow> bool" where
  "bind_running end st \<longleftrightarrow> \<not> bd_done st \<and> bd_pos st < end"

definition bind_start :: "u8 \<Rightarrow> u32 \<Rightarrow> mem \<times> u32 \<Rightarrow> bind_state" where
  "bind_start type start = (\<lambda>(m, unresolved).
     \<lparr>bd_libraryOrdinal = 0, bd_segmentIndex = 0, bd_symbolName = 0, bd_symbolFlags = 0,
      bd_addend = 0, bd_type = type, bd_segmentEndAddress = 0, bd_address = 0, bd_pos = start,
      bd_done = False, bd_mem = m, bd_unresolved = unresolved\<rparr>)"

definition bind_result :: "bind_state res option \<Rightarrow> (mem \<times> u32) res" where
  "bind_result r = mapR (\<lambda>st. (bd_mem st, bd_unresolved st)) (run_loop r)"

definition readBind :: "link_env \<Rightarrow> image \<Rightarrow> u32 \<Rightarrow> u32 \<Rightarrow> mem \<times> u32 \<Rightarrow> (mem \<times> u32) res" where
  "readBind env im start end s =
     bind_result (c_while (bind_running end) (readBind_step env im end) (bind_start 0 start s))"

definition readWeakBind :: "image \<Rightarrow> u32 \<Rightarrow> u32 \<Rightarrow> mem \<times> u32 \<Rightarrow> (mem \<times> u32) res" where
  "readWeakBind im start end s =
     bind_result (c_while (bind_running end) (readWeakBind_step im end) (bind_start 0 start s))"

definition readLazyBind :: "link_env \<Rightarrow> image \<Rightarrow> u32 \<Rightarrow> u32 \<Rightarrow> mem \<times> u32 \<Rightarrow> (mem \<times> u32) res" where
  "readLazyBind env im start end s =
     bind_result (c_while (bind_running end) (readLazyBind_step env im end)
       (bind_start BIND_TYPE_POINTER start s))"

section \<open>The search along the chain\<close>

lemma resolve_loop_end: "resolve_loop ims m s None = Some (Inr None)"
  by (simp add: resolve_loop.simps)

lemma resolve_loop_next:
  "ims i = Some im \<Longrightarrow> resolve_loop ims m s (Some i) =
     Option.bind (findExportedSymbol ims m s i) (\<lambda>found. case found of
         Inl e \<Rightarrow> Some (Inl e)
       | Inr (Some symb) \<Rightarrow> Some (mapR Some (exportedSymbolAddress ims m symb))
       | Inr None \<Rightarrow> resolve_loop ims m s (fNextImage im))"
  by (subst resolve_loop.simps) (simp cong: sum.case_cong option.case_cong)

text \<open>
  The first image of the chain that has the name decides: its symbol's address is the result.
\<close>

definition resolved :: "images \<Rightarrow> mem \<Rightarrow> u8 list \<Rightarrow> image_id list \<Rightarrow> u32 option res \<Rightarrow> bool" where
  "resolved ims m s xs r = (case r of
     Inl e \<Rightarrow> True
   | Inr None \<Rightarrow> \<forall>i \<in> set xs. findExportedSymbol ims m s i = Some (Inr None)
   | Inr (Some a) \<Rightarrow> \<exists>ys i zs symb. xs = ys @ i # zs \<and>
       (\<forall>j \<in> set ys. findExportedSymbol ims m s j = Some (Inr None)) \<and>
       findExportedSymbol ims m s i = Some (Inr (Some symb)) \<and>
       exportedSymbolAddress ims m symb = Inr a)"

lemma resolved_Cons:
  assumes "findExportedSymbol ims m s i = Some (Inr None)" "resolved ims m s xs r"
  shows "resolved ims m s (i # xs) r"
proof (cases r rule: option_res_cases)
  case (some a)
  with assms(2) obtain ys j zs symb where *: "xs = ys @ j # zs"
      "\<forall>j \<in> set ys. findExportedSymbol ims m s j = Some (Inr None)"
      "findExportedSymbol ims m s j = Some (Inr (Some symb))"
      "exportedSymbolAddress ims m symb = Inr a"
    by (auto simp: resolved_def)
  have "i # xs = (i # ys) @ j # zs" "\<forall>j \<in> set (i # ys). findExportedSymbol ims m s j = Some (Inr None)"
    using * assms(1) by simp_all
  with *(3,4) show ?thesis unfolding resolved_def some sum.case option.case by blast
qed (use assms in \<open>auto simp: resolved_def\<close>)

lemma resolve_loop_first:
  assumes "chain ims p xs" "wf (reexport_rel ims)"
  shows "\<exists>r. resolve_loop ims m s p = Some r \<and> resolved ims m s xs r"
  using assms(1)
proof (induction p xs rule: chain.induct)
  case chain_end
  then show ?case by (simp add: resolve_loop_end resolved_def)
next
  case (chain_next i im xs)
  from findExportedSymbol_returns [OF assms(2)] obtain f where
    f: "findExportedSymbol ims m s i = Some f" by blast
  show ?case
  proof (cases f rule: option_res_cases)
    case none
    from chain_next.IH obtain r where "resolve_loop ims m s (fNextImage im) = Some r"
      "resolved ims m s xs r" by blast
    with f none chain_next.hyps resolved_Cons [of ims m s i xs r] show ?thesis
      by (simp add: resolve_loop_next)
  next
    case (some symb)
    have "resolved ims m s (i # xs) (mapR Some (exportedSymbolAddress ims m symb))"
    proof (cases "exportedSymbolAddress ims m symb")
      case (Inr a)
      with f some show ?thesis
        by (auto simp: resolved_def intro!: exI [of _ "[]"] exI [of _ symb])
    qed (simp add: resolved_def)
    with f some chain_next.hyps show ?thesis by (simp add: resolve_loop_next)
  qed (use f chain_next.hyps in \<open>simp add: resolve_loop_next resolved_def\<close>)
qed

section \<open>What the interpreters may do\<close>

text \<open>Binding one address changes that word only.\<close>

lemma update32_frame: "update32 m a v = Inr m' \<Longrightarrow> b \<notin> word_bytes a \<Longrightarrow> m' b = m b"
  by (auto simp: update32_def split: if_splits dest: wr32_frame)

lemma update32_reads: "update32 m a v = Inr m' \<Longrightarrow> rd32 m' a = Inr v"
  by (auto simp: update32_def split: if_splits dest: rd32_wr32)

lemma update32_same_dom: "update32 m a v = Inr m' \<Longrightarrow> same_dom m m'"
  by (auto simp: update32_def split: if_splits dest: wr32_same_dom)

lemma bind_at_frame: "bind_at m a t v = Inr m' \<Longrightarrow> b \<notin> word_bytes a \<Longrightarrow> m' b = m b"
  by (auto simp: bind_at_def split: if_splits dest: update32_frame)

lemma bind_at_same_dom: "bind_at m a t v = Inr m' \<Longrightarrow> same_dom m m'"
  by (auto simp: bind_at_def split: if_splits dest: update32_same_dom)

lemma bind_same_dom: "bind env im a t n ad ord (m, u) = Inr (m', u') \<Longrightarrow> same_dom m m'"
  by (auto simp: bind_def dest: bind_at_same_dom)

lemma bind_uleb_inv:
  "bind_uleb e st = Inr (v, st') \<Longrightarrow> bd_pos st \<le> e \<Longrightarrow> bd_pos st < bd_pos st' \<and> bd_pos st' \<le> e \<and>
     bd_mem st' = bd_mem st \<and> bd_unresolved st' = bd_unresolved st"
  by (auto simp: bind_uleb_def dest: uleb.advance)

lemma bind_sleb_inv:
  "bind_sleb e st = Inr (v, st') \<Longrightarrow> bd_pos st \<le> e \<Longrightarrow> bd_pos st < bd_pos st' \<and> bd_pos st' \<le> e \<and>
     bd_mem st' = bd_mem st \<and> bd_unresolved st' = bd_unresolved st"
  by (auto simp: bind_sleb_def dest: sleb.advance)

lemma skip_cstr_advance: "skip_cstr m p = Inr q \<Longrightarrow> p < q"
proof (induction m p rule: skip_cstr.induct)
  case (1 m p)
  then have "p \<noteq> - 1" by (subst (asm) (2) skip_cstr.simps) (auto split: if_splits)
  then have "p < p + 1" by (simp add: word_less_nat_alt unat_ptr_Suc)
  with 1 show ?case
    by (subst (asm) (2) skip_cstr.simps) (auto split: if_splits intro: less_trans)
qed

lemma bind_setter_inv:
  assumes "bind_setter im e opcode imm st = Some (Inr st')" "bd_pos st \<le> e"
  shows "bd_pos st \<le> bd_pos st' \<and> bd_mem st' = bd_mem st \<and> bd_unresolved st' = bd_unresolved st"
  using assms unfolding bind_setter_def Let_def
  by (auto split: if_splits dest!: bind_uleb_inv bind_sleb_inv skip_cstr_advance)

lemma bind_one_inv:
  "bind_one env im step st = Inr st' \<Longrightarrow>
     same_dom (bd_mem st) (bd_mem st') \<and> bd_pos st' = bd_pos st \<and> bd_done st' = bd_done st"
  by (auto simp: bind_one_def split: if_splits dest: bind_same_dom)

lemma bind_times_inv:
  "bind_times env im step n st = Inr st' \<Longrightarrow>
     same_dom (bd_mem st) (bd_mem st') \<and> bd_pos st' = bd_pos st \<and> bd_done st' = bd_done st"
  by (induction n arbitrary: st) (fastforce dest!: bind_one_inv intro: same_dom_trans)+

lemma weak_one_inv:
  "weak_one im step st = Inr st' \<Longrightarrow>
     bd_mem st' = bd_mem st \<and> bd_unresolved st' = bd_unresolved st \<and> bd_pos st' = bd_pos st"
  by (auto simp: weak_one_def split: if_splits)

lemma weak_times_inv:
  "weak_times im step n st = Inr st' \<Longrightarrow>
     bd_mem st' = bd_mem st \<and> bd_unresolved st' = bd_unresolved st \<and> bd_pos st' = bd_pos st"
  by (induction n arbitrary: st) (fastforce dest!: weak_one_inv)+

text \<open>
  A step moves the opcode pointer forward; it maps and unmaps nothing, and a step of the weak
  interpreter leaves the memory and the count of unresolved names alone.
\<close>

lemma step_setter:
  assumes "bind_setter im e opcode imm (st\<lparr>bd_pos := bd_pos st + 1\<rparr>) = Some (Inr st')" "bd_pos st < e"
  shows "bd_pos st < bd_pos st' \<and> bd_mem st' = bd_mem st \<and> bd_unresolved st' = bd_unresolved st"
proof -
  have "bd_pos st < bd_pos st + 1" "bd_pos st + 1 \<le> e"
    using ptr_step [of "bd_pos st" e] assms(2) by auto
  then show ?thesis using bind_setter_inv [OF assms(1)] by auto
qed

lemma readBind_step_progress:
  assumes "readBind_step env im e st = Inr st'" "bd_pos st < e"
  shows "bd_pos st < bd_pos st' \<and> same_dom (bd_mem st) (bd_mem st')"
proof -
  have next': "bd_pos st < bd_pos st + 1" "bd_pos st + 1 \<le> e"
    using ptr_step [of "bd_pos st" e] assms(2) by auto
  then show ?thesis
    using assms unfolding readBind_step_def
    by (auto simp: Let_def split: if_splits option.splits
        dest!: bind_times_inv bind_one_inv bind_uleb_inv dest: step_setter)
qed

lemma readLazyBind_step_progress:
  assumes "readLazyBind_step env im e st = Inr st'" "bd_pos st < e"
  shows "bd_pos st < bd_pos st' \<and> same_dom (bd_mem st) (bd_mem st')"
  using assms ptr_step [of "bd_pos st" e] unfolding readLazyBind_step_def
  by (auto simp: Let_def split: if_splits option.splits dest!: bind_one_inv dest: step_setter)

lemma readWeakBind_step_progress:
  assumes "readWeakBind_step im e st = Inr st'" "bd_pos st < e"
  shows "bd_pos st < bd_pos st' \<and> bd_mem st' = bd_mem st \<and> bd_unresolved st' = bd_unresolved st"
proof -
  have next': "bd_pos st < bd_pos st + 1" "bd_pos st + 1 \<le> e"
    using ptr_step [of "bd_pos st" e] assms(2) by auto
  then show ?thesis
    using assms unfolding readWeakBind_step_def
    by (auto simp: Let_def split: if_splits option.splits
        dest!: weak_times_inv weak_one_inv bind_uleb_inv dest: step_setter)
qed

interpretation nonlazy: opcode_stream "readBind_step env im e" bd_pos "bind_running e" for env im e
  by unfold_locales (auto simp: bind_running_def dest: readBind_step_progress)

interpretation weak: opcode_stream "readWeakBind_step im e" bd_pos "bind_running e" for im e
  by unfold_locales (auto simp: bind_running_def dest: readWeakBind_step_progress)

interpretation lazy: opcode_stream "readLazyBind_step env im e" bd_pos "bind_running e" for env im e
  by unfold_locales (auto simp: bind_running_def dest: readLazyBind_step_progress)

lemma bind_result_InrE:
  assumes "bind_result r = Inr (m, u)"
  obtains st where "r = Some (Inr st)" "bd_mem st = m" "bd_unresolved st = u"
  using assms by (auto simp: bind_result_def)

lemma bind_start_simps [simp]:
  "bd_mem (bind_start t p (m, u)) = m" "bd_unresolved (bind_start t p (m, u)) = u"
  "bd_pos (bind_start t p (m, u)) = p" "bd_done (bind_start t p (m, u)) = False"
  by (simp_all add: bind_start_def)

lemma readBind_same_dom:
  assumes "readBind env im start e (m, u) = Inr (m', u')"
  shows "same_dom m m'"
proof -
  from assms obtain st where st: "c_while (bind_running e) (readBind_step env im e) (bind_start 0 start (m, u)) =
      Some (Inr st)" "bd_mem st = m'"
    unfolding readBind_def by (rule bind_result_InrE)
  from st(1) have "same_dom m (bd_mem st)"
    by (rule nonlazy.preserves [where P = "\<lambda>s. same_dom m (bd_mem s)"])
       (auto simp: bind_running_def intro: same_dom_trans dest: readBind_step_progress)
  with st(2) show ?thesis by simp
qed

lemma readLazyBind_same_dom:
  assumes "readLazyBind env im start e (m, u) = Inr (m', u')"
  shows "same_dom m m'"
proof -
  from assms obtain st where st: "c_while (bind_running e) (readLazyBind_step env im e)
      (bind_start BIND_TYPE_POINTER start (m, u)) = Some (Inr st)" "bd_mem st = m'"
    unfolding readLazyBind_def by (rule bind_result_InrE)
  from st(1) have "same_dom m (bd_mem st)"
    by (rule lazy.preserves [where P = "\<lambda>s. same_dom m (bd_mem s)"])
       (auto simp: bind_running_def intro: same_dom_trans dest: readLazyBind_step_progress)
  with st(2) show ?thesis by simp
qed

lemma readWeakBind_pure:
  assumes "readWeakBind im start e (m, u) = Inr (m', u')"
  shows "m' = m \<and> u' = u"
proof -
  from assms obtain st where st: "c_while (bind_running e) (readWeakBind_step im e)
      (bind_start 0 start (m, u)) = Some (Inr st)" "bd_mem st = m'" "bd_unresolved st = u'"
    unfolding readWeakBind_def by (rule bind_result_InrE)
  from st(1) have "bd_mem st = m \<and> bd_unresolved st = u"
    by (rule weak.preserves [where P = "\<lambda>s. bd_mem s = m \<and> bd_unresolved s = u"])
       (auto simp: bind_running_def dest: readWeakBind_step_progress)
  with st show ?thesis by simp
qed

section \<open>What may never end\<close>

context opcode_stream
begin

text \<open>An error the loop ends in is one of a step.\<close>

lemma errors:
  assumes "c_while running step s = Some (Inl e)" "P s"
    and "\<And>s s'. P s \<Longrightarrow> running s \<Longrightarrow> step s = Inr s' \<Longrightarrow> P s'"
    and "\<And>s e. P s \<Longrightarrow> running s \<Longrightarrow> step s = Inl e \<Longrightarrow> E e"
  shows "E e"
proof -
  have "\<exists>r. c_while running step s = Some r \<and> (case r of Inl e \<Rightarrow> E e | Inr t \<Rightarrow> P t \<and> \<not> running t)"
  proof (rule c_while_total [where f = "\<lambda>s. 2 ^ 32 - unat (pos s)"])
    fix s s'
    assume s: "P s" "running s" "step s = Inr s'"
    with progress have "unat (pos s) < unat (pos s')" by (simp add: word_less_nat_alt)
    with unat_u32_less [of "pos s'"] assms(3) [OF s]
    show "P s' \<and> 2 ^ 32 - unat (pos s') < 2 ^ 32 - unat (pos s)" by simp
  qed (use assms in auto)
  then show ?thesis using assms(1) by simp
qed

end

named_theorems no_hang "results that are not a loop that never ends"

lemma rd8_no_hang [no_hang]: "rd8 m a \<noteq> Inl Hang"
  by (simp add: rd8_def split: option.split)

lemma rd32_no_hang [no_hang]: "rd32 m a \<noteq> Inl Hang"
  by (auto simp: rd32_def bindR_eq_Inl_iff no_hang)

lemma wr32_no_hang [no_hang]: "wr32 m a v \<noteq> Inl Hang"
  by (simp add: wr32_def)

lemma uleb_no_hang [no_hang]: "read_uleb128 m p e \<noteq> Inl Hang"
proof -
  have "read_uleb128_loop m e p r b \<noteq> Inl Hang" for r b
  proof (induction m e p r b rule: read_uleb128_loop.induct)
    case (1 m e p r b)
    then show ?case
      by (subst read_uleb128_loop.simps) (auto simp: bindR_eq_Inl_iff no_hang Let_def)
  qed
  then show ?thesis by (auto simp: read_uleb128_def mapR_def bindR_eq_Inl_iff)
qed

lemma sleb_no_hang [no_hang]: "read_sleb128 m p e \<noteq> Inl Hang"
proof -
  have "read_sleb128_loop m e p r b \<noteq> Inl Hang" for r b
  proof (induction m e p r b rule: read_sleb128_loop.induct)
    case (1 m e p r b)
    then show ?case
      by (subst read_sleb128_loop.simps) (auto simp: bindR_eq_Inl_iff no_hang Let_def)
  qed
  then show ?thesis by (auto simp: read_sleb128_def mapR_def bindR_eq_Inl_iff Let_def split: if_splits prod.splits)
qed

lemma skip_cstr_no_hang [no_hang]: "skip_cstr m p \<noteq> Inl Hang"
proof (induction m p rule: skip_cstr.induct)
  case (1 m p)
  then show ?case by (subst skip_cstr.simps) (auto simp: bindR_eq_Inl_iff no_hang)
qed

lemma segments_no_hang [no_hang]:
  "segActualLoadAddr im i \<noteq> Inl Hang" "segActualEndAddr im i \<noteq> Inl Hang" "throwBadBindingAddress im i \<noteq> Inl Hang"
  by (auto simp: segActualEndAddr_def segActualLoadAddr_def segLoadCmd_def throwBadBindingAddress_def
      mapR_def bindR_eq_Inl_iff)

lemma bind_setter_no_hang [no_hang]: "bind_setter im e opcode imm st \<noteq> Some (Inl Hang)"
  by (auto simp: bind_setter_def bind_uleb_def bind_sleb_def mapR_def bindR_eq_Inl_iff no_hang Let_def split: prod.splits)

lemma weak_no_hang [no_hang]: "weak_one im k st \<noteq> Inl Hang" "weak_times im k n st \<noteq> Inl Hang"
proof -
  show one: "weak_one im k st \<noteq> Inl Hang" for st by (auto simp: weak_one_def no_hang)
  show "weak_times im k n st \<noteq> Inl Hang"
    by (induction n arbitrary: st) (auto simp: bindR_eq_Inl_iff one)
qed

lemma bind_uleb_no_hang [no_hang]: "bind_uleb e st \<noteq> Inl Hang"
  by (auto simp: bind_uleb_def mapR_def bindR_eq_Inl_iff no_hang)

lemma weak_step_no_hang [no_hang]: "readWeakBind_step im e st \<noteq> Inl Hang"
  by (auto simp: readWeakBind_step_def bindR_eq_Inl_iff no_hang Let_def split: option.split prod.splits)

text \<open>A look-up that never ends, in a memory with the same addresses.\<close>

definition lookup_hangs :: "link_env \<Rightarrow> mem \<Rightarrow> bool" where
  "lookup_hangs env m \<longleftrightarrow> (\<exists>m' unresolved name. dom m' = dom m \<and> resolve env m' unresolved name = Inl Hang)"

lemma lookup_hangs_dom: "same_dom m m' \<Longrightarrow> lookup_hangs env m' \<Longrightarrow> lookup_hangs env m"
  by (simp add: lookup_hangs_def same_dom_def)

lemma bind_at_no_hang [no_hang]: "bind_at m a t v \<noteq> Inl Hang"
  by (auto simp: bind_at_def update32_def bindR_eq_Inl_iff no_hang)

lemma bind_one_hang: "bind_one env im step st = Inl Hang \<Longrightarrow> lookup_hangs env (bd_mem st)"
  by (auto simp: bind_one_def bind_def target_image_def bindR_eq_Inl_iff no_hang lookup_hangs_def Let_def split: if_splits)

lemma bind_times_hang: "bind_times env im step n st = Inl Hang \<Longrightarrow> lookup_hangs env (bd_mem st)"
proof (induction n arbitrary: st)
  case (Suc n)
  then consider "bind_one env im step st = Inl Hang"
    | st' where "bind_one env im step st = Inr st'" "bind_times env im step n st' = Inl Hang"
    by (auto simp: bindR_eq_Inl_iff)
  then show ?case
    by cases (auto dest: bind_one_hang Suc.IH bind_one_inv intro: lookup_hangs_dom)
qed simp

lemma readBind_step_hang:
  assumes "readBind_step env im e st = Inl Hang" "bd_pos st < e"
  shows "lookup_hangs env (bd_mem st)"
  using assms ptr_step [of "bd_pos st" e] unfolding readBind_step_def
  by (auto simp: bindR_eq_Inl_iff no_hang Let_def split: if_splits option.splits prod.splits
      dest!: bind_one_hang bind_times_hang bind_uleb_inv)

lemma readLazyBind_step_hang: "readLazyBind_step env im e st = Inl Hang \<Longrightarrow> lookup_hangs env (bd_mem st)"
  unfolding readLazyBind_step_def
  by (auto simp: bindR_eq_Inl_iff no_hang Let_def split: if_splits option.splits dest!: bind_one_hang)

lemma bind_result_hang: "bind_result r = Inl Hang \<Longrightarrow> r = None \<or> r = Some (Inl Hang)"
  by (cases r) (auto simp: bind_result_def mapR_def bindR_eq_Inl_iff)

lemma readBind_hang:
  assumes "readBind env im start e (m, u) = Inl Hang"
  shows "lookup_hangs env m"
proof -
  from bind_result_hang [OF assms [unfolded readBind_def]]
    nonlazy.returns [of e env im "bind_start 0 start (m, u)"]
  have "c_while (bind_running e) (readBind_step env im e) (bind_start 0 start (m, u)) = Some (Inl Hang)" by auto
  then have "Hang = Hang \<longrightarrow> lookup_hangs env m"
  proof (rule nonlazy.errors [where P = "\<lambda>s. same_dom m (bd_mem s)" and E = "\<lambda>err. err = Hang \<longrightarrow> lookup_hangs env m"])
    fix s s'
    assume "same_dom m (bd_mem s)" "bind_running e s" "readBind_step env im e s = Inr s'"
    then show "same_dom m (bd_mem s')"
      by (auto simp: bind_running_def dest!: readBind_step_progress intro: same_dom_trans)
  next
    fix s err
    assume "same_dom m (bd_mem s)" "bind_running e s" "readBind_step env im e s = Inl err"
    then show "err = Hang \<longrightarrow> lookup_hangs env m"
      by (auto simp: bind_running_def dest: readBind_step_hang intro: lookup_hangs_dom)
  qed simp
  then show ?thesis by simp
qed

lemma readLazyBind_hang:
  assumes "readLazyBind env im start e (m, u) = Inl Hang"
  shows "lookup_hangs env m"
proof -
  from bind_result_hang [OF assms [unfolded readLazyBind_def]]
    lazy.returns [of e env im "bind_start BIND_TYPE_POINTER start (m, u)"]
  have "c_while (bind_running e) (readLazyBind_step env im e) (bind_start BIND_TYPE_POINTER start (m, u)) =
    Some (Inl Hang)" by auto
  then have "Hang = Hang \<longrightarrow> lookup_hangs env m"
  proof (rule lazy.errors [where P = "\<lambda>s. same_dom m (bd_mem s)" and E = "\<lambda>err. err = Hang \<longrightarrow> lookup_hangs env m"])
    fix s s'
    assume "same_dom m (bd_mem s)" "bind_running e s" "readLazyBind_step env im e s = Inr s'"
    then show "same_dom m (bd_mem s')"
      by (auto simp: bind_running_def dest!: readLazyBind_step_progress intro: same_dom_trans)
  next
    fix s err
    assume "same_dom m (bd_mem s)" "bind_running e s" "readLazyBind_step env im e s = Inl err"
    then show "err = Hang \<longrightarrow> lookup_hangs env m"
      by (auto dest: readLazyBind_step_hang intro: lookup_hangs_dom)
  qed simp
  then show ?thesis by simp
qed

lemma readWeakBind_no_hang: "readWeakBind im start e s \<noteq> Inl Hang"
proof
  assume "readWeakBind im start e s = Inl Hang"
  from bind_result_hang [OF this [unfolded readWeakBind_def]]
    weak.returns [of e im "bind_start 0 start s"]
  have "c_while (bind_running e) (readWeakBind_step im e) (bind_start 0 start s) = Some (Inl Hang)" by auto
  then have "Hang \<noteq> Hang"
    by (rule weak.errors [where P = "\<lambda>s. True" and E = "\<lambda>err. err \<noteq> Hang"]) (auto simp: no_hang)
  then show False by simp
qed

section \<open>Properties\<close>

text \<open>
  C11: resolving a name along the chain of images asks them in order, and the first that has the
  name, itself or through its re-exports, gives the address; only if none has it is the name
  unresolved. The search ends whenever no image re-exports itself.
\<close>

theorem resolve_takes_first:
  assumes "chain ims p xs" "wf (reexport_rel ims)"
  shows "\<exists>r. resolve_loop ims m s p = Some r \<and> resolved ims m s xs r"
  using assms by (rule resolve_loop_first)

theorem resolve_takes_first_witness:
  "\<exists>r. resolve_loop [1 \<mapsto> exporting_image] exporting_trie [0x61] (Some 1) = Some r \<and>
    resolved [1 \<mapsto> exporting_image] exporting_trie [0x61] [1] r"
proof (rule resolve_takes_first)
  show "chain [1 \<mapsto> exporting_image] (Some 1) [1]"
    by (simp add: chain_Cons exporting_image_def new_image_def)
  show "wf (reexport_rel [1 \<mapsto> exporting_image])"
    by (simp add: reexport_rel_def reexports_def exporting_image_def new_image_def)
qed

text \<open>
  C16: the interpreter of weak bindings ends on every stream of bytes and changes neither the memory
  nor the count of unresolved names. Those of the other bindings end as well, in a
  result or an error other than a loop that never ends, if no look-up of a name loops for ever, in
  the memory they start with or one with the same addresses mapped; they map and unmap nothing.
\<close>

theorem bind_interpreters_safe:
  assumes "\<not> lookup_hangs env m"
  shows "(case readBind env im start e (m, u) of Inl err \<Rightarrow> err \<noteq> Hang | Inr (m', u') \<Rightarrow> dom m' = dom m) \<and>
   (case readLazyBind env im start e (m, u) of Inl err \<Rightarrow> err \<noteq> Hang | Inr (m', u') \<Rightarrow> dom m' = dom m) \<and>
   (case readWeakBind im start e (m, u) of Inl err \<Rightarrow> err \<noteq> Hang | Inr (m', u') \<Rightarrow> m' = m \<and> u' = u)"
  using assms readBind_hang [of env im start e m u] readLazyBind_hang [of env im start e m u]
    readBind_same_dom [of env im start e m u] readLazyBind_same_dom [of env im start e m u]
    readWeakBind_no_hang [of im start e "(m, u)"] readWeakBind_pure [of im start e m u]
  by (auto simp: same_dom_def split: sum.split)

text \<open>An image that exports nothing: looking a name up ends there.\<close>

lemma cstr_at_no_hang [no_hang]: "cstr_at m p \<noteq> Inl Hang"
proof (induction m p rule: cstr_at.induct)
  case (1 m p)
  then show ?case by (subst cstr_at.simps) (auto simp: mapR_def bindR_eq_Inl_iff no_hang)
qed

definition silent_image :: image where
  "silent_image = exporting_image\<lparr>fDyldInfo := Some ((the (fDyldInfo exporting_image))\<lparr>export_size := 0\<rparr>)\<rparr>"

lemma bind_interpreters_safe_witness:
  "case readBind \<lparr>env_images = [0 \<mapsto> silent_image], env_first = Some 0\<rparr> silent_image 0x1000 0x1002
      (mem_of 0x1000 [0x11, 0x90], 0) of
     Inl err \<Rightarrow> err \<noteq> Hang | Inr (m', u') \<Rightarrow> dom m' = dom (mem_of 0x1000 [0x11, 0x90])"
proof -
  let ?env = "\<lparr>env_images = [0 \<mapsto> silent_image], env_first = Some 0\<rparr>"
  have "findExportedSymbol [0 \<mapsto> silent_image] m s 0 = Some (Inr None)" for m s
    by (simp add: findExportedSymbol_simp find_own_def findExportedSymbolCompressed_def dyld_info_def
        reexports_def silent_image_def exporting_image_def new_image_def)
  then have "resolve_loop [0 \<mapsto> silent_image] m s (Some 0) = Some (Inr None)" for m s
    by (simp add: resolve_loop_next resolve_loop_end) (simp add: silent_image_def exporting_image_def new_image_def resolve_loop_end)
  then have "resolve ?env m u p \<noteq> Inl Hang" for m u p
    by (auto simp: resolve_def resolve_name_def bindR_eq_Inl_iff no_hang)
  then have "\<not> lookup_hangs ?env (mem_of 0x1000 [0x11, 0x90])" by (simp add: lookup_hangs_def)
  from bind_interpreters_safe [OF this, of silent_image "0x1000" "0x1002" 0] show ?thesis by simp
qed

end
