(* ===== verification/BindSpec.thy ===== *)
theory BindSpec
  imports Bind
begin

text \<open>
  What binding opcodes mean, and that the interpreters do it: a list of opcodes stands for a
  list of bindings (an address, the way to store there, a name, an addend and a library
  ordinal), and running \<open>readBind\<close> or \<open>readLazyBind\<close> on the bytes of the opcodes is the same as
  performing the bindings one after the other.
\<close>

section \<open>The meaning of the opcodes\<close>

datatype bind_op =
    BDone | BOrdinal nat | BOrdinalUleb nat | BSpecial nat | BSymbol "u8 list" nat | BType nat
  | BAddend int | BSegment nat nat | BAddAddr nat | BDoBind | BDoBindAddAddr nat
  | BDoBindScaled nat | BDoBindTimes nat nat

fun bind_encode :: "bind_op \<Rightarrow> u8 list" where
  "bind_encode BDone = [opcode_byte 0x00 0]"
| "bind_encode (BOrdinal n) = [opcode_byte 0x10 n]"
| "bind_encode (BOrdinalUleb n) = opcode_byte 0x20 0 # uleb_encode n"
| "bind_encode (BSpecial n) = [opcode_byte 0x30 n]"
| "bind_encode (BSymbol s flags) = opcode_byte 0x40 flags # s @ [0]"
| "bind_encode (BType t) = [opcode_byte 0x50 t]"
| "bind_encode (BAddend n) = opcode_byte 0x60 0 # sleb_encode n"
| "bind_encode (BSegment i off) = opcode_byte 0x70 i # uleb_encode off"
| "bind_encode (BAddAddr n) = opcode_byte 0x80 0 # uleb_encode n"
| "bind_encode BDoBind = [opcode_byte 0x90 0]"
| "bind_encode (BDoBindAddAddr n) = opcode_byte 0xA0 0 # uleb_encode n"
| "bind_encode (BDoBindScaled n) = [opcode_byte 0xB0 n]"
| "bind_encode (BDoBindTimes n skip) = opcode_byte 0xC0 0 # uleb_encode n @ uleb_encode skip"

fun bind_op_ok :: "bind_op \<Rightarrow> bool" where
  "bind_op_ok BDone = True"
| "bind_op_ok (BOrdinal n) = (n < 16)"
| "bind_op_ok (BOrdinalUleb n) = (n < 2 ^ 32)"
| "bind_op_ok (BSpecial n) = (n < 16)"
| "bind_op_ok (BSymbol s flags) = (0 \<notin> set s \<and> flags < 16)"
| "bind_op_ok (BType t) = (t < 16)"
| "bind_op_ok (BAddend n) = (- (2 ^ 31) \<le> n \<and> n < 2 ^ 31)"
| "bind_op_ok (BSegment i off) = (i < 16 \<and> off < 2 ^ 32)"
| "bind_op_ok (BAddAddr n) = (n < 2 ^ 32)"
| "bind_op_ok BDoBind = True"
| "bind_op_ok (BDoBindAddAddr n) = (n < 2 ^ 32)"
| "bind_op_ok (BDoBindScaled n) = (n < 16)"
| "bind_op_ok (BDoBindTimes n skip) = (n < 2 ^ 32 \<and> skip < 2 ^ 32)"

datatype binding = Binding (b_address: u32) (b_type: u8) (b_name: "u8 list") (b_addend: u32) (b_ordinal: int)

record bind_abs =
  ba_ordinal :: int
  ba_type :: u8
  ba_addend :: u32
  ba_name :: "u8 list option"
  ba_address :: u32
  ba_end :: u32

text \<open>
  The bindings of a run of addresses: \<open>None\<close> where no name was set or an address is beyond its
  segment.
\<close>

definition bindings :: "bind_abs \<Rightarrow> u32 list \<Rightarrow> binding list option" where
  "bindings st as = (if as = [] then Some [] else case ba_name st of None \<Rightarrow> None
     | Some s \<Rightarrow> if \<forall>a \<in> set as. a < ba_end st
         then Some (map (\<lambda>a. Binding a (ba_type st) s (ba_addend st) (ba_ordinal st)) as) else None)"

fun bind_exec :: "image \<Rightarrow> bind_op \<Rightarrow> bind_abs \<Rightarrow> (binding list \<times> bind_abs) option" where
  "bind_exec im BDone st = Some ([], st)"
| "bind_exec im (BOrdinal n) st = Some ([], st\<lparr>ba_ordinal := int n\<rparr>)"
| "bind_exec im (BOrdinalUleb n) st = Some ([], st\<lparr>ba_ordinal := sint (of_nat n :: u32)\<rparr>)"
| "bind_exec im (BSpecial n) st =
     Some ([], st\<lparr>ba_ordinal := if n = 0 then 0 else int n - 16\<rparr>)"
| "bind_exec im (BSymbol s flags) st = Some ([], st\<lparr>ba_name := Some s\<rparr>)"
| "bind_exec im (BType t) st = Some ([], st\<lparr>ba_type := of_nat t\<rparr>)"
| "bind_exec im (BAddend n) st = Some ([], st\<lparr>ba_addend := of_int n\<rparr>)"
| "bind_exec im (BSegment i off) st =
     (if i < length (fSegmentLoadCommands im) then
        let seg = fSegmentLoadCommands im ! i; base = vmaddr seg + fSlide im
        in Some ([], st\<lparr>ba_address := base + of_nat off, ba_end := base + vmsize seg\<rparr>)
      else None)"
| "bind_exec im (BAddAddr n) st = Some ([], st\<lparr>ba_address := ba_address st + of_nat n\<rparr>)"
| "bind_exec im BDoBind st =
     map_option (\<lambda>bs. (bs, st\<lparr>ba_address := ba_address st + 4\<rparr>)) (bindings st [ba_address st])"
| "bind_exec im (BDoBindAddAddr n) st =
     map_option (\<lambda>bs. (bs, st\<lparr>ba_address := ba_address st + (of_nat n + 4)\<rparr>)) (bindings st [ba_address st])"
| "bind_exec im (BDoBindScaled n) st =
     map_option (\<lambda>bs. (bs, st\<lparr>ba_address := ba_address st + (of_nat n * 4 + 4)\<rparr>)) (bindings st [ba_address st])"
| "bind_exec im (BDoBindTimes n skip) st =
     map_option (\<lambda>bs. (bs, st\<lparr>ba_address := ba_address st + of_nat n * (of_nat skip + 4)\<rparr>))
       (bindings st (word_run (ba_address st) (of_nat skip + 4) n))"

text \<open>The lazy interpreter knows the simple binding only.\<close>

fun lazy_exec :: "image \<Rightarrow> bind_op \<Rightarrow> bind_abs \<Rightarrow> (binding list \<times> bind_abs) option" where
  "lazy_exec im (BDoBindAddAddr n) st = None"
| "lazy_exec im (BDoBindScaled n) st = None"
| "lazy_exec im (BDoBindTimes n skip) st = None"
| "lazy_exec im op st = bind_exec im op st"

fun bind_targets ::
    "(bind_op \<Rightarrow> bind_abs \<Rightarrow> (binding list \<times> bind_abs) option) \<Rightarrow> (bind_op \<Rightarrow> bool) \<Rightarrow>
     bind_op list \<Rightarrow> bind_abs \<Rightarrow> binding list option" where
  "bind_targets exec stops [] st = Some []"
| "bind_targets exec stops (op # ops) st =
     (if stops op then Some []
      else case exec op st of None \<Rightarrow> None
        | Some (bs, st') \<Rightarrow> map_option ((@) bs) (bind_targets exec stops ops st'))"

text \<open>Performing a list of bindings.\<close>

definition bind_named :: "link_env \<Rightarrow> image \<Rightarrow> binding \<Rightarrow> mem \<times> u32 \<Rightarrow> (mem \<times> u32) res" where
  "bind_named env im b = (\<lambda>(m, unresolved).
     bindR (target_image im (b_ordinal b)) (\<lambda>_.
     bindR (resolve_name env m unresolved (b_name b)) (\<lambda>(value, unresolved).
     bindR (bind_at m (b_address b) (b_type b) (value + b_addend b)) (\<lambda>m. Inr (m, unresolved)))))"

fun bind_all :: "link_env \<Rightarrow> image \<Rightarrow> binding list \<Rightarrow> mem \<times> u32 \<Rightarrow> (mem \<times> u32) res" where
  "bind_all env im [] s = Inr s"
| "bind_all env im (b # bs) s = bindR (bind_named env im b s) (bind_all env im bs)"

lemma bind_all_append:
  "bind_all env im (xs @ ys) s = bindR (bind_all env im xs s) (bind_all env im ys)"
  by (induction xs arbitrary: s) (simp_all add: bindR_assoc cong: bindR_cong)

section \<open>The stream\<close>

text \<open>
  \<open>R\<close> is the part of the memory that holds the stream: no binding writes to it, so it stays part
  of the memory, and every byte the interpreter reads from the stream is in it.
\<close>

definition stream_in :: "mem \<Rightarrow> u32 \<Rightarrow> u32 \<Rightarrow> u8 list \<Rightarrow> bool" where
  "stream_in R p e bs \<longleftrightarrow> bytes_at R p bs \<and> unat p + length bs = unat e"

lemma bytes_at_mono: "bytes_at R p bs \<Longrightarrow> R \<subseteq>\<^sub>m m \<Longrightarrow> bytes_at m p bs"
  by (induction bs arbitrary: p) (auto simp: map_le_def dom_def dest!: spec)

lemma stream_in_Cons:
  assumes "stream_in R p e (b # bs)"
  shows "R p = Some b" "stream_in R (p + 1) e bs"
proof -
  from assms have "p \<noteq> - 1"
    by (intro ptr_below_not_max [of p e]) (simp add: stream_in_def)
  with assms show "R p = Some b" "stream_in R (p + 1) e bs"
    by (simp_all add: stream_in_def unat_ptr_Suc)
qed

lemma stream_in_append:
  assumes "stream_in R p e (xs @ bs)"
  shows "bytes_at R p xs" "unat p + length xs \<le> unat e" "stream_in R (p + of_nat (length xs)) e bs"
proof -
  from assms have room: "unat p + length xs + length bs = unat e" and "bytes_at R p xs"
    "bytes_at R (p + of_nat (length xs)) bs" by (simp_all add: stream_in_def)
  moreover have "unat (p + of_nat (length xs)) = unat p + length xs"
    using room unat_u32_less [of e]
    by (simp add: unat_word_ariths unsigned_of_nat take_bit_eq_mod)
  ultimately show "bytes_at R p xs" "unat p + length xs \<le> unat e"
    "stream_in R (p + of_nat (length xs)) e bs" by (simp_all add: stream_in_def)
qed

lemma stream_in_uleb:
  assumes "stream_in R p e (uleb_encode n @ bs)" "R \<subseteq>\<^sub>m m" "n < 2 ^ 32"
  shows "read_uleb128 m p e = Inr (of_nat n, p + uleb_size n)" "stream_in R (p + uleb_size n) e bs"
  using read_uleb128_encode [OF bytes_at_mono [OF stream_in_append(1) [OF assms(1)] assms(2)]
      stream_in_append(2) [OF assms(1)]] stream_in_append(3) [OF assms(1)] assms(3)
  by (simp_all add: uleb_size_def)

lemma stream_in_sleb:
  assumes "stream_in R p e (sleb_encode n @ bs)" "R \<subseteq>\<^sub>m m" "- (2 ^ 31) \<le> n" "n < 2 ^ 31"
  shows "read_sleb128 m p e = Inr (of_int n, p + of_nat (length (sleb_encode n)))"
    and "stream_in R (p + of_nat (length (sleb_encode n))) e bs"
  using read_sleb128_encode [OF bytes_at_mono [OF stream_in_append(1) [OF assms(1)] assms(2)]
      stream_in_append(2) [OF assms(1)] assms(3,4)] stream_in_append(3) [OF assms(1)]
  by simp_all

text \<open>A name in the stream: stepped over by the interpreter, and read back when it is resolved.\<close>

lemma not_max: "unat (p :: u32) + n < 4294967295 \<Longrightarrow> p \<noteq> - 1"
  by (auto simp: unsigned_minus_1_eq_mask mask_eq_exp_minus_1)

lemma name_read:
  "bytes_at m p (s @ [0]) \<Longrightarrow> 0 \<notin> set s \<Longrightarrow> unat p + length s + 1 < 2 ^ 32 \<Longrightarrow>
     cstr_at m p = Inr s \<and> skip_cstr m p = Inr (p + of_nat (length s) + 1)"
proof (induction s arbitrary: p)
  case Nil
  then have "p \<noteq> - 1" by (intro not_max [of p 0]) simp
  with Nil show ?case by (simp add: cstr_at.simps [of m p] skip_cstr.simps [of m p])
next
  case (Cons c s)
  then have "p \<noteq> - 1" by (intro not_max [of p "length (c # s)"]) simp
  then have "unat (p + 1) = Suc (unat p)" by (rule unat_ptr_Suc)
  with Cons \<open>p \<noteq> - 1\<close> show ?case
    by (simp add: cstr_at.simps [of m p] skip_cstr.simps [of m p] add_ac)
qed

definition name_in :: "mem \<Rightarrow> u32 \<Rightarrow> u8 list \<Rightarrow> bool" where
  "name_in R p s \<longleftrightarrow> bytes_at R p (s @ [0]) \<and> 0 \<notin> set s \<and> unat p + length s + 1 < 2 ^ 32"

lemma name_in_read: "name_in R p s \<Longrightarrow> R \<subseteq>\<^sub>m m \<Longrightarrow> cstr_at m p = Inr s"
  using name_read [of m p s] bytes_at_mono [of R p "s @ [0]" m] by (simp add: name_in_def)

lemma stream_in_name:
  assumes "stream_in R p e ((s @ [0]) @ bs)" "R \<subseteq>\<^sub>m m" "0 \<notin> set s"
  shows "name_in R p s" "skip_cstr m p = Inr (p + of_nat (length s) + 1)"
    "stream_in R (p + of_nat (length s) + 1) e bs"
proof -
  have bytes: "bytes_at R p (s @ [0])" and "unat p + length s + 1 \<le> unat e"
    and rest: "stream_in R (p + of_nat (length (s @ [0]))) e bs"
    using stream_in_append [OF assms(1)] by simp_all
  then have room: "unat p + length s + 1 < 2 ^ 32" using unat_u32_less [of e] by simp
  with bytes assms(3) show "name_in R p s" by (simp add: name_in_def)
  show "skip_cstr m p = Inr (p + of_nat (length s) + 1)"
    using name_read [OF bytes_at_mono [OF bytes assms(2)] assms(3) room] by simp
  show "stream_in R (p + of_nat (length s) + 1) e bs" using rest by (simp add: add_ac)
qed

section \<open>The state of an interpreter and what it stands for\<close>

definition bind_rel :: "mem \<Rightarrow> bind_state \<Rightarrow> bind_abs \<Rightarrow> bool" where
  "bind_rel R st ab \<longleftrightarrow> R \<subseteq>\<^sub>m bd_mem st \<and> bd_libraryOrdinal st = ba_ordinal ab \<and>
     bd_type st = ba_type ab \<and> bd_addend st = ba_addend ab \<and> bd_address st = ba_address ab \<and>
     bd_segmentEndAddress st = ba_end ab \<and>
     (case ba_name ab of None \<Rightarrow> True | Some s \<Rightarrow> name_in R (bd_symbolName st) s)"

lemma bind_rel_simps [simp]:
  "bind_rel R (st\<lparr>bd_pos := p\<rparr>) ab = bind_rel R st ab"
  "bind_rel R (st\<lparr>bd_segmentIndex := i\<rparr>) ab = bind_rel R st ab"
  "bind_rel R (st\<lparr>bd_symbolFlags := f\<rparr>) ab = bind_rel R st ab"
  "bind_rel R (st\<lparr>bd_unresolved := u\<rparr>) ab = bind_rel R st ab"
  "bind_rel R (st\<lparr>bd_done := d\<rparr>) ab = bind_rel R st ab"
  by (simp_all add: bind_rel_def cong: option.case_cong)

lemma bind_rel_set [intro]:
  assumes "bind_rel R st ab"
  shows "bind_rel R (st\<lparr>bd_libraryOrdinal := n\<rparr>) (ab\<lparr>ba_ordinal := n\<rparr>)"
    "bind_rel R (st\<lparr>bd_type := t\<rparr>) (ab\<lparr>ba_type := t\<rparr>)"
    "bind_rel R (st\<lparr>bd_addend := a\<rparr>) (ab\<lparr>ba_addend := a\<rparr>)"
    "bind_rel R (st\<lparr>bd_address := p\<rparr>) (ab\<lparr>ba_address := p\<rparr>)"
    "bind_rel R (st\<lparr>bd_address := p, bd_segmentEndAddress := q\<rparr>) (ab\<lparr>ba_address := p, ba_end := q\<rparr>)"
    "name_in R q s \<Longrightarrow> bind_rel R (st\<lparr>bd_symbolName := q\<rparr>) (ab\<lparr>ba_name := Some s\<rparr>)"
    "R \<subseteq>\<^sub>m m \<Longrightarrow> bind_rel R (st\<lparr>bd_mem := m\<rparr>) ab"
  using assms by (simp_all add: bind_rel_def cong: option.case_cong)

text \<open>A binding keeps the stream when its word is not part of it.\<close>

lemma bind_named_keeps:
  assumes "bind_named env im b (m, u) = Inr (m', u')" "R \<subseteq>\<^sub>m m" "word_bytes (b_address b) \<inter> dom R = {}"
  shows "R \<subseteq>\<^sub>m m'"
proof -
  from assms(1) obtain v where v: "bind_at m (b_address b) (b_type b) v = Inr m'"
    by (auto simp: bind_named_def)
  show ?thesis
    unfolding map_le_def
  proof
    fix a assume a: "a \<in> dom R"
    with assms(3) have "m' a = m a" by (intro bind_at_frame [OF v]) auto
    with a assms(2) show "R a = m' a" by (simp add: map_le_def)
  qed
qed

lemma bind_resolves:
  assumes "bind_rel R st ab" "ba_name ab = Some s"
  shows "bind env im (bd_address st) (bd_type st) (bd_symbolName st) (bd_addend st)
      (bd_libraryOrdinal st) (bd_mem st, u) =
    bind_named env im (Binding (ba_address ab) (ba_type ab) s (ba_addend ab) (ba_ordinal ab)) (bd_mem st, u)"
  using assms name_in_read [of R "bd_symbolName st" s "bd_mem st"]
  by (simp add: bind_def bind_named_def resolve_def bind_rel_def)

text \<open>One binding, and a run of them.\<close>

lemma bind_one_refines:
  assumes rel: "bind_rel R st ab" and bs: "bindings ab [ba_address ab] = Some bs"
    and all: "bind_all env im bs (bd_mem st, bd_unresolved st) = Inr (m', u')"
    and apart: "word_bytes (ba_address ab) \<inter> dom R = {}"
  shows "bind_one env im step st =
      Inr (st\<lparr>bd_mem := m', bd_unresolved := u', bd_address := ba_address ab + step\<rparr>) \<and> R \<subseteq>\<^sub>m m'"
proof -
  from bs obtain s where s: "ba_name ab = Some s" "ba_address ab < ba_end ab"
    "bs = [Binding (ba_address ab) (ba_type ab) s (ba_addend ab) (ba_ordinal ab)]"
    by (auto simp: bindings_def split: option.splits if_splits)
  have named: "bind_named env im (Binding (ba_address ab) (ba_type ab) s (ba_addend ab) (ba_ordinal ab))
      (bd_mem st, bd_unresolved st) = Inr (m', u')"
    using all s(3) by simp
  have "R \<subseteq>\<^sub>m m'"
    by (rule bind_named_keeps [OF named]) (use rel apart in \<open>simp_all add: bind_rel_def\<close>)
  moreover have "\<not> ba_end ab \<le> ba_address ab" using s(2) by simp
  ultimately show ?thesis
    using named rel bind_resolves [OF rel s(1), of env im "bd_unresolved st"]
    by (simp add: bind_one_def bind_rel_def)
qed

lemma bindings_Cons:
  assumes "bindings ab (a # as) = Some bs"
  obtains b bs' where "bs = b # bs'" "bindings ab [a] = Some [b]" "bindings ab as = Some bs'"
  using assms by (auto simp: bindings_def split: option.splits if_splits)

lemma bindings_address: "bindings (ab\<lparr>ba_address := p\<rparr>) as = bindings ab as"
  by (cases "ba_name ab") (simp_all add: bindings_def)

lemma bind_times_refines:
  assumes "bind_rel R st ab" "bindings ab (word_run (ba_address ab) step n) = Some bs"
    "bind_all env im bs (bd_mem st, bd_unresolved st) = Inr (m', u')"
    "words_of (word_run (ba_address ab) step n) \<inter> dom R = {}"
  shows "bind_times env im step n st = Inr (st\<lparr>bd_mem := m', bd_unresolved := u',
      bd_address := ba_address ab + of_nat n * step\<rparr>) \<and> R \<subseteq>\<^sub>m m'"
  using assms
proof (induction n arbitrary: st ab bs)
  case 0
  then show ?case by (simp add: bindings_def bind_rel_def)
next
  case (Suc n)
  let ?a = "ba_address ab"
  from Suc.prems(2) have "bindings ab (?a # word_run (?a + step) step n) = Some bs" by simp
  then obtain b bs' where bs: "bs = b # bs'" "bindings ab [?a] = Some [b]"
      "bindings ab (word_run (?a + step) step n) = Some bs'"
    by (rule bindings_Cons)
  with Suc.prems(3) obtain m1 u1 where b: "bind_named env im b (bd_mem st, bd_unresolved st) = Inr (m1, u1)"
    "bind_all env im bs' (m1, u1) = Inr (m', u')" by auto
  let ?st = "st\<lparr>bd_mem := m1, bd_unresolved := u1, bd_address := ?a + step\<rparr>"
  let ?ab = "ab\<lparr>ba_address := ?a + step\<rparr>"
  have one: "bind_one env im step st = Inr ?st" "R \<subseteq>\<^sub>m m1"
    using bind_one_refines [OF Suc.prems(1) bs(2), of env im m1 u1 step] b(1) Suc.prems(4) by auto
  have "bind_rel R (st\<lparr>bd_mem := m1\<rparr>) ab" using one(2) Suc.prems(1) by auto
  then have "bind_rel R ?st ?ab" by (simp add: bind_rel_def cong: option.case_cong)
  then have "bind_times env im step n ?st = Inr (?st\<lparr>bd_mem := m', bd_unresolved := u',
      bd_address := ba_address ?ab + of_nat n * step\<rparr>) \<and> R \<subseteq>\<^sub>m m'"
    using b(2) bs(3) Suc.prems(4) by (intro Suc.IH) (auto simp: bindings_address)
  with one show ?case by (simp add: algebra_simps)
qed

section \<open>One opcode\<close>

definition step_ok ::
    "mem \<Rightarrow> u32 \<Rightarrow> u8 list \<Rightarrow> bind_abs \<Rightarrow> mem \<times> u32 \<Rightarrow> bind_state \<Rightarrow> bind_state res \<Rightarrow> bool" where
  "step_ok R e bs ab' res st r \<longleftrightarrow> (\<exists>st'. r = Inr st' \<and> (bd_mem st', bd_unresolved st') = res \<and>
     bind_rel R st' ab' \<and> bd_done st' = bd_done st \<and> stream_in R (bd_pos st') e bs)"

lemma step_okI:
  "r = Inr st' \<Longrightarrow> bd_mem st' = m' \<Longrightarrow> bd_unresolved st' = u' \<Longrightarrow> bind_rel R st' ab' \<Longrightarrow>
     bd_done st' = bd_done st \<Longrightarrow> stream_in R (bd_pos st') e bs \<Longrightarrow> step_ok R e bs ab' (m', u') st r"
  by (simp add: step_ok_def)

text \<open>The setters are the same for every interpreter.\<close>

fun is_setter :: "bind_op \<Rightarrow> bool" where
  "is_setter (BOrdinal n) = True" | "is_setter (BOrdinalUleb n) = True"
| "is_setter (BSymbol s f) = True" | "is_setter (BType t) = True" | "is_setter (BAddend n) = True"
| "is_setter (BSegment i off) = True" | "is_setter (BAddAddr n) = True" | "is_setter op = False"

lemma uint_small_imm: "n < 16 \<Longrightarrow> uint (of_nat n :: u8) = int n"
  by (simp add: uint_nat unat_small_imm)

lemma rel_mem: "bind_rel R st ab \<Longrightarrow> R \<subseteq>\<^sub>m bd_mem st"
  by (simp add: bind_rel_def)

lemma bind_setter_refines:
  assumes "is_setter op" "bind_op_ok op" "bind_exec im op ab = Some (acts, ab')"
    and stream: "stream_in R (bd_pos st) e (bind_encode op @ bs)" and rel: "bind_rel R st ab"
  shows "acts = [] \<and> (\<exists>byte. bd_mem st (bd_pos st) = Some byte \<and>
    byte AND BIND_OPCODE_MASK \<notin> {0x00, 0x30, 0x90, 0xA0, 0xB0, 0xC0} \<and>
    (\<exists>r. bind_setter im e (byte AND BIND_OPCODE_MASK) (byte AND BIND_IMMEDIATE_MASK)
        (st\<lparr>bd_pos := bd_pos st + 1\<rparr>) = Some r \<and>
      step_ok R e bs ab' (bd_mem st, bd_unresolved st) st r))"
proof -
  obtain byte bs' where byte: "bind_encode op = byte # bs'" by (cases op) auto
  with stream have first: "R (bd_pos st) = Some byte" and rest: "stream_in R (bd_pos st + 1) e (bs' @ bs)"
    using stream_in_Cons [of R "bd_pos st" e byte "bs' @ bs"] by simp_all
  have mem: "bd_mem st (bd_pos st) = Some byte"
    using rel_mem [OF rel] first by (auto simp: map_le_def dom_def dest!: spec [of _ "bd_pos st"])
  let ?st = "st\<lparr>bd_pos := bd_pos st + 1\<rparr>" and ?op = "byte AND BIND_OPCODE_MASK"
    and ?imm = "byte AND BIND_IMMEDIATE_MASK"
  have rel': "bind_rel R ?st ab" and le: "R \<subseteq>\<^sub>m bd_mem st" using rel rel_mem by simp_all
  have result: "acts = [] \<and> (?op \<notin> {0x00, 0x30, 0x90, 0xA0, 0xB0, 0xC0} \<and>
      (\<exists>r. bind_setter im e ?op ?imm ?st = Some r \<and>
        step_ok R e bs ab' (bd_mem st, bd_unresolved st) st r))"
    if "acts = []" "?op = c" "c \<notin> {0x00, 0x30, 0x90, 0xA0, 0xB0, 0xC0}"
      "bind_setter im e c ?imm ?st = Some (Inr st')" "bd_mem st' = bd_mem st"
      "bd_unresolved st' = bd_unresolved st" "bind_rel R st' ab'" "bd_done st' = bd_done st"
      "stream_in R (bd_pos st') e bs" for c st'
    using that by (auto simp: step_ok_def)
  have goal: "acts = [] \<and> (?op \<notin> {0x00, 0x30, 0x90, 0xA0, 0xB0, 0xC0} \<and>
    (\<exists>r. bind_setter im e ?op ?imm ?st = Some r \<and>
      step_ok R e bs ab' (bd_mem st, bd_unresolved st) st r))"
    using assms(1)
  proof (cases op)
    case (BOrdinal n)
    show ?thesis
      by (rule result [of "0x10" "?st\<lparr>bd_libraryOrdinal := int n\<rparr>"])
         (use BOrdinal assms(2,3) byte rest rel in
           \<open>auto simp: bind_setter_def imm_simps bind_rel_def uint_small_imm cong: option.case_cong\<close>)
  next
    case (BType t)
    show ?thesis
      by (rule result [of "0x50" "?st\<lparr>bd_type := of_nat t\<rparr>"])
         (use BType assms(2,3) byte rest rel in
           \<open>auto simp: bind_setter_def imm_simps bind_rel_def cong: option.case_cong\<close>)
  next
    case (BOrdinalUleb n)
    with rest byte have s: "stream_in R (bd_pos st + 1) e (uleb_encode n @ bs)" by simp
    show ?thesis
      by (rule result [of "0x20" "?st\<lparr>bd_pos := bd_pos st + 1 + uleb_size n,
            bd_libraryOrdinal := sint (of_nat n :: u32)\<rparr>"])
         (use BOrdinalUleb assms(2,3) byte rel
           stream_in_uleb [OF s le] in \<open>auto simp: bind_setter_def imm_simps bind_rel_def bind_uleb_def cong: option.case_cong\<close>)
  next
    case (BAddend n)
    with rest byte have s: "stream_in R (bd_pos st + 1) e (sleb_encode n @ bs)" by simp
    show ?thesis
      by (rule result [of "0x60" "?st\<lparr>bd_pos := bd_pos st + 1 + of_nat (length (sleb_encode n)),
            bd_addend := of_int n\<rparr>"])
         (use BAddend assms(2,3) byte rel
           stream_in_sleb [OF s le] in \<open>auto simp: bind_setter_def imm_simps bind_rel_def bind_sleb_def cong: option.case_cong\<close>)
  next
    case (BAddAddr n)
    with rest byte have s: "stream_in R (bd_pos st + 1) e (uleb_encode n @ bs)" by simp
    have "bd_address st = ba_address ab" using rel by (simp add: bind_rel_def)
    then show ?thesis
      by (intro result [of "0x80" "?st\<lparr>bd_pos := bd_pos st + 1 + uleb_size n,
            bd_address := ba_address ab + of_nat n\<rparr>"])
         (use BAddAddr assms(2,3) byte rel
           stream_in_uleb [OF s le] in \<open>auto simp: bind_setter_def imm_simps bind_rel_def bind_uleb_def cong: option.case_cong\<close>)
  next
    case (BSegment i off)
    with rest byte have s: "stream_in R (bd_pos st + 1) e (uleb_encode off @ bs)" by simp
    let ?seg = "fSegmentLoadCommands im ! i"
    let ?base = "vmaddr ?seg + fSlide im"
    show ?thesis
      by (rule result [of "0x70" "?st\<lparr>bd_segmentIndex := i, bd_pos := bd_pos st + 1 + uleb_size off,
            bd_address := ?base + of_nat off, bd_segmentEndAddress := ?base + vmsize ?seg\<rparr>"])
         (use BSegment assms(2,3) byte rel
           stream_in_uleb [OF s le] in \<open>auto simp: bind_setter_def imm_simps bind_rel_def bind_uleb_def
             segActualLoadAddr_ok segActualEndAddr_ok Let_def split: if_splits cong: option.case_cong\<close>)
  next
    case (BSymbol s f)
    with rest byte have n: "stream_in R (bd_pos st + 1) e ((s @ [0]) @ bs)" by simp
    show ?thesis
      by (rule result [of "0x40" "?st\<lparr>bd_symbolName := bd_pos st + 1, bd_symbolFlags := of_nat f,
            bd_pos := bd_pos st + 1 + of_nat (length s) + 1\<rparr>"])
         (use BSymbol assms(2,3) byte stream_in_name [OF n le]
           rel in \<open>auto simp: bind_setter_def imm_simps bind_rel_def cong: option.case_cong\<close>)
  qed simp_all
  with mem show ?thesis by blast
qed

lemma special_ordinal_small:
  assumes "n < 16"
  shows "special_ordinal (of_nat n) = (if n = 0 then 0 else int n - 16)"
proof -
  have "n \<in> {0, 1, 2, 3, 4, 5, 6, 7, 8, 9, 10, 11, 12, 13, 14, 15}"
    using assms by (simp add: numeral_eq_Suc less_Suc_eq)
  then show ?thesis by (auto simp: special_ordinal_def)
qed

lemma first_byte:
  assumes "stream_in R p e (byte # bs)" "R \<subseteq>\<^sub>m m"
  shows "m p = Some byte"
  using stream_in_Cons(1) [OF assms(1)] assms(2) by (auto simp: map_le_def dom_def dest!: spec [of _ p])

text \<open>The address words of a list of bindings.\<close>

definition binding_words :: "binding list \<Rightarrow> u32 set" where
  "binding_words bs = words_of (map b_address bs)"

lemma binding_words_simps [simp]:
  "binding_words [] = {}" "binding_words (bs @ bs') = binding_words bs \<union> binding_words bs'"
  by (simp_all add: binding_words_def)

lemma bindings_words: "bindings ab as = Some bs \<Longrightarrow> binding_words bs = words_of as"
  by (auto simp: bindings_def binding_words_def comp_def split: option.splits if_splits)

lemma readBind_special:
  assumes "n < 16" "bind_exec im (BSpecial n) ab = Some (acts, ab')"
    and stream: "stream_in R (bd_pos st) e (bind_encode (BSpecial n) @ bs)" and rel: "bind_rel R st ab"
  shows "acts = [] \<and> bd_mem st (bd_pos st) = Some (opcode_byte 0x30 n) \<and>
    bind_rel R (st\<lparr>bd_pos := bd_pos st + 1, bd_libraryOrdinal := special_ordinal (of_nat n)\<rparr>) ab' \<and>
    stream_in R (bd_pos st + 1) e bs"
  using assms first_byte [of R "bd_pos st" e _ bs "bd_mem st"] rel_mem [OF rel] stream_in_Cons(2)
  by (auto simp: bind_rel_def special_ordinal_small cong: option.case_cong)

lemma do_bind_refines:
  assumes "bind_exec im BDoBind ab = Some (acts, ab')"
    and stream: "stream_in R (bd_pos st) e (bind_encode BDoBind @ bs)" and rel: "bind_rel R st ab"
    and all: "bind_all env im acts (bd_mem st, bd_unresolved st) = Inr (m', u')"
    and apart: "binding_words acts \<inter> dom R = {}"
  shows "bd_mem st (bd_pos st) = Some (opcode_byte 0x90 0) \<and>
    step_ok R e bs ab' (m', u') st (bind_one env im 4 (st\<lparr>bd_pos := bd_pos st + 1\<rparr>))"
proof -
  let ?st = "st\<lparr>bd_pos := bd_pos st + 1\<rparr>"
  from assms(1) have bs: "bindings ab [ba_address ab] = Some acts"
      "ab' = ab\<lparr>ba_address := ba_address ab + 4\<rparr>" by auto
  have rel': "bind_rel R ?st ab" using rel by simp
  have one: "bind_one env im 4 ?st =
      Inr (?st\<lparr>bd_mem := m', bd_unresolved := u', bd_address := ba_address ab + 4\<rparr>) \<and> R \<subseteq>\<^sub>m m'"
    by (rule bind_one_refines [OF rel' bs(1)]) (use all apart bindings_words [OF bs(1)] in simp_all)
  have "step_ok R e bs ab' (m', u') st (bind_one env im 4 ?st)"
    by (rule step_okI [OF one [THEN conjunct1]])
       (use one rel bs(2) stream stream_in_Cons(2) in \<open>auto simp: bind_rel_def cong: option.case_cong\<close>)
  then show ?thesis using stream first_byte rel_mem [OF rel] by auto
qed

lemma readBind_step_compound:
  assumes "op = BDoBindAddAddr n \<or> op = BDoBindScaled n \<or> op = BDoBindTimes n skip" "bind_op_ok op"
    and exec: "bind_exec im op ab = Some (acts, ab')"
    and stream: "stream_in R (bd_pos st) e (bind_encode op @ bs)" and rel: "bind_rel R st ab"
    and all: "bind_all env im acts (bd_mem st, bd_unresolved st) = Inr (m', u')"
    and apart: "binding_words acts \<inter> dom R = {}"
  shows "step_ok R e bs ab' (m', u') st (readBind_step env im e st)"
proof -
  let ?st = "st\<lparr>bd_pos := bd_pos st + 1\<rparr>" and ?a = "ba_address ab"
  have le: "R \<subseteq>\<^sub>m bd_mem st" and rel': "bind_rel R ?st ab" using rel rel_mem by simp_all
  note first = first_byte [OF _ le, of "bd_pos st" e] and stream' = stream_in_Cons(2) [of R "bd_pos st" e]
  consider (add) "op = BDoBindAddAddr n" | (scaled) "op = BDoBindScaled n" | (times) "op = BDoBindTimes n skip"
    using assms(1) by blast
  then show ?thesis
  proof cases
    case add
    with exec have bs: "bindings ab [?a] = Some acts" "ab' = ab\<lparr>ba_address := ?a + (of_nat n + 4)\<rparr>"
      by auto
    have one: "bind_one env im 0 ?st = Inr (?st\<lparr>bd_mem := m', bd_unresolved := u', bd_address := ?a + 0\<rparr>)"
        "R \<subseteq>\<^sub>m m'"
      using bind_one_refines [OF rel' bs(1), of env im m' u' 0] all apart bindings_words [OF bs(1)]
      by simp_all
    from add stream have s: "stream_in R (bd_pos st + 1) e (uleb_encode n @ bs)" using stream' by simp
    from stream_in_uleb [OF s one(2)] assms(2) add
    have uleb: "read_uleb128 m' (bd_pos st + 1) e = Inr (of_nat n, bd_pos st + 1 + uleb_size n)"
        "stream_in R (bd_pos st + 1 + uleb_size n) e bs" by simp_all
    have "readBind_step env im e st = Inr (st\<lparr>bd_pos := bd_pos st + 1 + uleb_size n, bd_mem := m',
        bd_unresolved := u', bd_address := ?a + (of_nat n + 4)\<rparr>)"
      using add stream first [of "opcode_byte 0xA0 0"] one(1) uleb(1)
      by (simp add: readBind_step_def imm_simps Let_def bind_uleb_def)
    then show ?thesis
      by (rule step_okI) (use uleb(2) one(2) rel bs(2) in \<open>simp_all add: bind_rel_def cong: option.case_cong\<close>)
  next
    case scaled
    with exec have bs: "bindings ab [?a] = Some acts" "ab' = ab\<lparr>ba_address := ?a + (of_nat n * 4 + 4)\<rparr>"
      by auto
    let ?r = "?st\<lparr>bd_mem := m', bd_unresolved := u', bd_address := ?a + (of_nat n * 4 + 4)\<rparr>"
    have one: "bind_one env im (of_nat n * 4 + 4) ?st = Inr ?r" "R \<subseteq>\<^sub>m m'"
      using bind_one_refines [OF rel' bs(1), of env im m' u' "of_nat n * 4 + 4"] all apart
        bindings_words [OF bs(1)] by simp_all
    have "readBind_step env im e st = Inr ?r"
      using scaled stream first [of "opcode_byte 0xB0 n"] one(1) assms(2)
      by (simp add: readBind_step_def imm_simps Let_def)
    then show ?thesis
      by (rule step_okI)
         (use stream stream' scaled one(2) rel bs(2) in \<open>simp_all add: bind_rel_def cong: option.case_cong\<close>)
  next
    case times
    let ?ws = "word_run ?a (of_nat skip + 4) n"
    from times exec have bs: "bindings ab ?ws = Some acts"
        "ab' = ab\<lparr>ba_address := ?a + of_nat n * (of_nat skip + 4)\<rparr>" by auto
    let ?p = "bd_pos st + 1 + uleb_size n + uleb_size skip"
    let ?r = "st\<lparr>bd_pos := ?p, bd_mem := m', bd_unresolved := u',
      bd_address := ?a + of_nat n * (of_nat skip + 4)\<rparr>"
    have rel2: "bind_rel R (st\<lparr>bd_pos := ?p\<rparr>) ab" using rel by simp
    have run: "bind_times env im (of_nat skip + 4) n (st\<lparr>bd_pos := ?p\<rparr>) = Inr ?r" "R \<subseteq>\<^sub>m m'"
      using bind_times_refines [OF rel2 bs(1), of env im m' u'] all apart bindings_words [OF bs(1)]
      by simp_all
    from times stream have s: "stream_in R (bd_pos st + 1) e (uleb_encode n @ uleb_encode skip @ bs)"
      using stream' by simp
    from assms(2) times have small: "n < 2 ^ 32" "skip < 2 ^ 32" by simp_all
    note uleb = stream_in_uleb [OF s le small(1)]
    note uleb2 = stream_in_uleb [OF uleb(2) le small(2)]
    have "readBind_step env im e st = Inr ?r"
      using times stream first [of "opcode_byte 0xC0 0"] run(1) uleb(1) uleb2(1) small
      by (simp add: readBind_step_def imm_simps Let_def bind_uleb_def)
    then show ?thesis
      by (rule step_okI) (use uleb2(2) run(2) rel bs(2) in \<open>simp_all add: bind_rel_def cong: option.case_cong\<close>)
  qed
qed

lemma setter_opcode_cases:
  assumes "bind_mem (bd_pos st) = Some byte"
    "byte AND BIND_OPCODE_MASK \<notin> {0x00, 0x30, 0x90, 0xA0, 0xB0, 0xC0}"
    "bind_mem = bd_mem st"
    "bind_setter im e (byte AND BIND_OPCODE_MASK) (byte AND BIND_IMMEDIATE_MASK)
      (st\<lparr>bd_pos := bd_pos st + 1\<rparr>) = Some r"
  shows "readBind_step env im e st = r" "readLazyBind_step env im e st = r"
  using assms by (simp_all add: readBind_step_def readLazyBind_step_def Let_def)

lemma readBind_step_refines:
  assumes "op \<noteq> BDone" "bind_op_ok op" "bind_exec im op ab = Some (acts, ab')"
    "stream_in R (bd_pos st) e (bind_encode op @ bs)" "bind_rel R st ab"
    "bind_all env im acts (bd_mem st, bd_unresolved st) = Inr (m', u')"
    "binding_words acts \<inter> dom R = {}"
  shows "step_ok R e bs ab' (m', u') st (readBind_step env im e st)"
proof -
  consider (setter) "is_setter op" | (special) n where "op = BSpecial n" | (bind) "op = BDoBind"
    | (compound) n skip where "op = BDoBindAddAddr n \<or> op = BDoBindScaled n \<or> op = BDoBindTimes n skip"
    using assms(1) by (cases op) auto
  then show ?thesis
  proof cases
    case setter
    from bind_setter_refines [OF setter assms(2-5)] assms(6) setter_opcode_cases(1)
    show ?thesis by auto
  next
    case special
    with readBind_special [of n im ab acts ab' R st e bs] assms have *: "acts = []"
      "bd_mem st (bd_pos st) = Some (opcode_byte 0x30 n)"
      "bind_rel R (st\<lparr>bd_pos := bd_pos st + 1, bd_libraryOrdinal := special_ordinal (of_nat n)\<rparr>) ab'"
      "stream_in R (bd_pos st + 1) e bs" "n < 16" by auto
    then show ?thesis using assms(6)
      by (intro step_okI [where st' = "st\<lparr>bd_pos := bd_pos st + 1,
          bd_libraryOrdinal := special_ordinal (of_nat n)\<rparr>"])
         (simp_all add: readBind_step_def imm_simps Let_def)
  next
    case bind
    with do_bind_refines [of im ab acts ab' R st e bs env m' u'] assms show ?thesis
      by (simp add: readBind_step_def imm_simps Let_def)
  next
    case compound
    from readBind_step_compound [OF compound assms(2-7)] show ?thesis .
  qed
qed

lemma readLazyBind_step_refines:
  assumes "bind_op_ok op" "lazy_exec im op ab = Some (acts, ab')"
    "stream_in R (bd_pos st) e (bind_encode op @ bs)" "bind_rel R st ab"
    "bind_all env im acts (bd_mem st, bd_unresolved st) = Inr (m', u')"
    "binding_words acts \<inter> dom R = {}"
  shows "step_ok R e bs ab' (m', u') st (readLazyBind_step env im e st)"
proof -
  consider (setter) "is_setter op" | (special) n where "op = BSpecial n" | (bind) "op = BDoBind"
    | (finish) "op = BDone"
    using assms(2) by (cases op) auto
  then show ?thesis
  proof cases
    case setter
    with assms(2) have "bind_exec im op ab = Some (acts, ab')" by (cases op) auto
    from bind_setter_refines [OF setter assms(1) this assms(3,4)] assms(5) setter_opcode_cases(2)
    show ?thesis by auto
  next
    case special
    with readBind_special [of n im ab acts ab' R st e bs] assms have *: "acts = []"
      "bd_mem st (bd_pos st) = Some (opcode_byte 0x30 n)"
      "bind_rel R (st\<lparr>bd_pos := bd_pos st + 1, bd_libraryOrdinal := special_ordinal (of_nat n)\<rparr>) ab'"
      "stream_in R (bd_pos st + 1) e bs" "n < 16" by auto
    then show ?thesis using assms(5)
      by (intro step_okI [where st' = "st\<lparr>bd_pos := bd_pos st + 1,
          bd_libraryOrdinal := special_ordinal (of_nat n)\<rparr>"])
         (simp_all add: readLazyBind_step_def imm_simps Let_def)
  next
    case bind
    with do_bind_refines [of im ab acts ab' R st e bs env m' u'] assms show ?thesis
      by (simp add: readLazyBind_step_def imm_simps Let_def)
  next
    case finish
    with assms first_byte [of R "bd_pos st" e "opcode_byte 0x00 0" bs "bd_mem st"]
      stream_in_Cons(2) [of R "bd_pos st" e "opcode_byte 0x00 0" bs] rel_mem [OF assms(4)]
    show ?thesis
      by (intro step_okI [where st' = "st\<lparr>bd_pos := bd_pos st + 1\<rparr>"])
         (simp_all add: readLazyBind_step_def imm_simps Let_def)
  qed
qed

section \<open>A stream of opcodes\<close>

text \<open>What an interpreter owes for its loop to perform the bindings its opcodes stand for.\<close>

locale binding_interpreter =
  fixes step :: "bind_state \<Rightarrow> bind_state res"
    and exec :: "bind_op \<Rightarrow> bind_abs \<Rightarrow> (binding list \<times> bind_abs) option"
    and stops :: "bind_op \<Rightarrow> bool" and env :: link_env and im :: image and e :: u32
  assumes refines: "\<not> stops op \<Longrightarrow> bind_op_ok op \<Longrightarrow> exec op ab = Some (acts, ab') \<Longrightarrow>
      stream_in R (bd_pos st) e (bind_encode op @ bs) \<Longrightarrow> bind_rel R st ab \<Longrightarrow>
      bind_all env im acts (bd_mem st, bd_unresolved st) = Inr (m', u') \<Longrightarrow>
      binding_words acts \<inter> dom R = {} \<Longrightarrow> step_ok R e bs ab' (m', u') st (step st)"
    and stopping: "stops op \<Longrightarrow> stream_in R (bd_pos st) e (bind_encode op @ bs) \<Longrightarrow>
      R \<subseteq>\<^sub>m bd_mem st \<Longrightarrow> step st = Inr (st\<lparr>bd_pos := bd_pos st + 1, bd_done := True\<rparr>)"
begin

lemma loop_refines:
  assumes "bind_targets exec stops ops ab = Some acts" "list_all bind_op_ok ops"
    "stream_in R (bd_pos st) e (concat (map bind_encode ops))" "bind_rel R st ab" "\<not> bd_done st"
    "bind_all env im acts (bd_mem st, bd_unresolved st) = Inr (m', u')"
    "binding_words acts \<inter> dom R = {}"
  shows "bind_result (c_while (bind_running e) step st) = Inr (m', u')"
  using assms
proof (induction ops arbitrary: st ab acts)
  case Nil
  then have "\<not> bind_running e st" by (simp add: bind_running_def word_less_nat_alt stream_in_def)
  with Nil show ?case by (simp add: c_while_stop bind_result_def)
next
  case (Cons op ops)
  have stream: "stream_in R (bd_pos st) e (bind_encode op @ concat (map bind_encode ops))"
    using Cons.prems(3) by simp
  have "bind_encode op \<noteq> []" by (cases op) simp_all
  with stream Cons.prems(5) have run: "bind_running e st"
    by (cases "bind_encode op") (auto simp: bind_running_def word_less_nat_alt stream_in_def)
  show ?case
  proof (cases "stops op")
    case True
    note stop = stopping [OF True stream rel_mem [OF Cons.prems(4)]]
    have "\<not> bind_running e (st\<lparr>bd_pos := bd_pos st + 1, bd_done := True\<rparr>)"
      by (simp add: bind_running_def)
    then have "c_while (bind_running e) step st =
        Some (Inr (st\<lparr>bd_pos := bd_pos st + 1, bd_done := True\<rparr>))"
      using run stop by (simp add: c_while_step c_while_stop)
    with True Cons.prems(1,6) show ?thesis by (simp add: bind_result_def)
  next
    case False
    with Cons.prems(1) obtain acts1 ab1 acts2 where exec: "exec op ab = Some (acts1, ab1)"
        "bind_targets exec stops ops ab1 = Some acts2" "acts = acts1 @ acts2"
      by (auto split: option.splits)
    with Cons.prems(6) obtain m1 u1 where all:
        "bind_all env im acts1 (bd_mem st, bd_unresolved st) = Inr (m1, u1)"
        "bind_all env im acts2 (m1, u1) = Inr (m', u')"
      by (auto simp: bind_all_append)
    have ok: "bind_op_ok op" "list_all bind_op_ok ops" using Cons.prems(2) by simp_all
    have apart: "binding_words acts1 \<inter> dom R = {}" "binding_words acts2 \<inter> dom R = {}"
      using Cons.prems(7) exec(3) by auto
    from refines [OF False ok(1) exec(1) stream Cons.prems(4) all(1) apart(1)]
    obtain st1 where st1: "step st = Inr st1" "bd_mem st1 = m1" "bd_unresolved st1 = u1"
        "bind_rel R st1 ab1" "bd_done st1 = bd_done st"
        "stream_in R (bd_pos st1) e (concat (map bind_encode ops))"
      by (auto simp: step_ok_def)
    have "bind_result (c_while (bind_running e) step st1) = Inr (m', u')"
      using Cons.prems(5) st1 all(2)
      by (intro Cons.IH [OF exec(2) ok(2) st1(6,4) _ _ apart(2)]) simp_all
    with c_while_step [of "bind_running e" st step, OF run st1(1)] show ?thesis by simp
  qed
qed

end

interpretation readBind: binding_interpreter "readBind_step env im e" "bind_exec im"
    "\<lambda>op. op = BDone" env im e for env im e
proof unfold_locales
  show "step_ok R e bs ab' (m', u') st (readBind_step env im e st)"
    if "op \<noteq> BDone" "bind_op_ok op" "bind_exec im op ab = Some (acts, ab')"
      "stream_in R (bd_pos st) e (bind_encode op @ bs)" "bind_rel R st ab"
      "bind_all env im acts (bd_mem st, bd_unresolved st) = Inr (m', u')"
      "binding_words acts \<inter> dom R = {}" for op ab acts ab' R st bs m' u'
    using that by (rule readBind_step_refines)
  show "readBind_step env im e st = Inr (st\<lparr>bd_pos := bd_pos st + 1, bd_done := True\<rparr>)"
    if "op = BDone" "stream_in R (bd_pos st) e (bind_encode op @ bs)" "R \<subseteq>\<^sub>m bd_mem st" for op R st bs
    using that first_byte [of R "bd_pos st" e "opcode_byte 0x00 0" bs "bd_mem st"]
    by (simp add: readBind_step_def imm_simps Let_def)
qed

interpretation readLazyBind: binding_interpreter "readLazyBind_step env im e" "lazy_exec im"
    "\<lambda>op. False" env im e for env im e
  by unfold_locales (rule readLazyBind_step_refines, simp_all)

definition start_abs :: "u8 \<Rightarrow> bind_abs" where
  "start_abs type = \<lparr>ba_ordinal = 0, ba_type = type, ba_addend = 0, ba_name = None, ba_address = 0,
     ba_end = 0\<rparr>"

lemma start_rel: "bind_rel (m |` S) (bind_start type p (m, u)) (start_abs type)"
  by (simp add: bind_rel_def bind_start_def start_abs_def map_le_def)

text \<open>The bytes of the opcodes fill the stream, and no binding writes to it.\<close>

definition bind_stream :: "mem \<Rightarrow> u32 \<Rightarrow> u32 \<Rightarrow> bind_op list \<Rightarrow> bool" where
  "bind_stream m start e ops \<longleftrightarrow> list_all bind_op_ok ops \<and>
     stream_in (m |` region start e) start e (concat (map bind_encode ops))"

lemma readBind_correct:
  assumes "bind_stream m start e ops"
    and "bind_targets (bind_exec im) (\<lambda>op. op = BDone) ops (start_abs 0) = Some acts"
    and "binding_words acts \<inter> region start e = {}"
    and "bind_all env im acts (m, u) = Inr (m', u')"
  shows "readBind env im start e (m, u) = Inr (m', u')"
  unfolding readBind_def using assms
  by (intro readBind.loop_refines [where R = "m |` region start e", OF _ _ _ start_rel])
     (auto simp: bind_stream_def)

lemma readLazyBind_correct:
  assumes "bind_stream m start e ops"
    and "bind_targets (lazy_exec im) (\<lambda>op. False) ops (start_abs BIND_TYPE_POINTER) = Some acts"
    and "binding_words acts \<inter> region start e = {}"
    and "bind_all env im acts (m, u) = Inr (m', u')"
  shows "readLazyBind env im start e (m, u) = Inr (m', u')"
  unfolding readLazyBind_def using assms
  by (intro readLazyBind.loop_refines [where R = "m |` region start e", OF _ _ _ start_rel])
     (auto simp: bind_stream_def)

section \<open>Properties\<close>

text \<open>
  C10: on the bytes of a list of binding opcodes \<open>readBind\<close> performs exactly the bindings the
  opcodes stand for, in their order, provided no binding writes into the opcodes themselves.
\<close>

theorem readBind_performs_bindings:
  assumes "bind_stream m start e ops"
    and "bind_targets (bind_exec im) (\<lambda>op. op = BDone) ops (start_abs 0) = Some acts"
    and "binding_words acts \<inter> region start e = {}"
    and "bind_all env im acts (m, u) = Inr (m', u')"
  shows "readBind env im start e (m, u) = Inr (m', u')"
  using assms by (rule readBind_correct)

text \<open>A word of a data segment, bound to a name that no image has.\<close>

definition one_binding :: mem where
  "one_binding = mem_of 0x2000 [0, 0, 0, 0, 0x40, 0x61, 0, 0x51, 0x70, 0x00, 0x90, 0x00]"

definition one_binding_ops :: "bind_op list" where
  "one_binding_ops = [BSymbol [0x61] 0, BType 1, BSegment 0 0, BDoBind, BDone]"

abbreviation "no_images \<equiv> \<lparr>env_images = Map.empty, env_first = None\<rparr>"

definition one_binding_done :: mem where
  "one_binding_done = one_binding(0x2000 \<mapsto> 1, 0x2001 \<mapsto> 0, 0x2002 \<mapsto> 0, 0x2003 \<mapsto> 0)"

lemma one_binding_facts:
  "bind_stream one_binding 0x2004 0x200C one_binding_ops"
  "bind_targets (bind_exec one_segment) (\<lambda>op. op = BDone) one_binding_ops (start_abs 0) =
     Some [Binding 0x2000 1 [0x61] 0 0]"
  "bind_targets (lazy_exec one_segment) (\<lambda>op. False) one_binding_ops (start_abs 1) =
     Some [Binding 0x2000 1 [0x61] 0 0]"
  "binding_words [Binding 0x2000 1 [0x61] 0 0] \<inter> region 0x2004 0x200C = {}"
  "bind_all no_images one_segment [Binding 0x2000 1 [0x61] 0 0] (one_binding, 0) = Inr (one_binding_done, 1)"
  by (auto simp: bind_stream_def stream_in_def one_binding_ops_def one_binding_def region_def mem_of_def
      restrict_map_def opcode_byte_def uleb_encode.simps start_abs_def one_segment_def bindings_def
      binding_words_def word_bytes_def bind_named_def target_image_def resolve_name_def
      resolve_loop_end bind_at_def update32_def rd32_def rd8_def le32_def wr32_def byte_of_def
      one_binding_done_def new_image_def fun_eq_iff)

theorem readBind_performs_bindings_witness:
  "readBind no_images one_segment 0x2004 0x200C (one_binding, 0) = Inr (one_binding_done, 1)"
  using one_binding_facts(1,2,4,5) by (rule readBind_performs_bindings)

text \<open>
  C14: \<open>readLazyBind\<close> performs the same bindings for the opcodes it knows; the end marker, which
  follows every entry of the lazy table, does not stop it.
\<close>

theorem readLazyBind_performs_bindings:
  assumes "bind_stream m start e ops"
    and "bind_targets (lazy_exec im) (\<lambda>op. False) ops (start_abs BIND_TYPE_POINTER) = Some acts"
    and "binding_words acts \<inter> region start e = {}"
    and "bind_all env im acts (m, u) = Inr (m', u')"
  shows "readLazyBind env im start e (m, u) = Inr (m', u')"
  using assms by (rule readLazyBind_correct)

theorem readLazyBind_performs_bindings_witness:
  "readLazyBind no_images one_segment 0x2004 0x200C (one_binding, 0) = Inr (one_binding_done, 1)"
  using one_binding_facts(1,3,4,5) by (rule readLazyBind_performs_bindings)

end
