(* ===== verification/Classic.thy ===== *)
theory Classic
  imports Bind
begin

text \<open>
  Classic link-edit information (src/core/lnk_macho.cpp): local relocations, the indirect symbol
  table and external relocations of images without compressed tables, and the two triggers
  \<open>doRebase\<close> and \<open>doBindSymbols\<close> that choose between the two formats.
\<close>

section \<open>Relocation entries\<close>

text \<open>
  An entry takes eight bytes. A plain one holds an address, then 24 bits of symbol number, the
  length in bits 25 and 26 and the type in the top four bits; a scattered one, marked by the top
  bit, packs its type, length and a 24-bit address into the first word.
\<close>

abbreviation (input) "R_SCATTERED \<equiv> 0x80000000 :: u32"
abbreviation (input) "R_ABS \<equiv> 0 :: u32"
abbreviation (input) "RELOC_SIZE \<equiv> 2 :: u32"
abbreviation (input) "GENERIC_RELOC_VANILLA \<equiv> 0 :: u32"
abbreviation (input) "POINTER_RELOC \<equiv> 0 :: u32"
abbreviation (input) "ARM_RELOC_PB_LA_PTR \<equiv> 4 :: u32"

record relocation_info =
  r_word0 :: u32
  r_word1 :: u32

definition r_address :: "relocation_info \<Rightarrow> u32" where "r_address r = r_word0 r"
definition r_symbolnum :: "relocation_info \<Rightarrow> u32" where "r_symbolnum r = r_word1 r AND 0xFFFFFF"
definition r_length :: "relocation_info \<Rightarrow> u32" where "r_length r = drop_bit 25 (r_word1 r) AND 3"
definition r_type :: "relocation_info \<Rightarrow> u32" where "r_type r = drop_bit 28 (r_word1 r)"
definition sr_address :: "relocation_info \<Rightarrow> u32" where "sr_address r = r_word0 r AND 0xFFFFFF"
definition sr_type :: "relocation_info \<Rightarrow> u32" where "sr_type r = drop_bit 24 (r_word0 r) AND 15"
definition sr_length :: "relocation_info \<Rightarrow> u32" where "sr_length r = drop_bit 28 (r_word0 r) AND 3"

definition read_reloc :: "mem \<Rightarrow> u32 \<Rightarrow> relocation_info res" where
  "read_reloc m p = bindR (rd32 m p) (\<lambda>w0. bindR (rd32 m (p + 4)) (\<lambda>w1.
     Inr \<lparr>r_word0 = w0, r_word1 = w1\<rparr>))"

definition add_slide :: "mem \<Rightarrow> u32 \<Rightarrow> u32 \<Rightarrow> mem res" where
  "add_slide m a slide = bindR (rd32 m a) (\<lambda>v. wr32 m a (v + slide))"

section \<open>Local relocations\<close>

text \<open>\<open>fSegmentSlides\<close> is never assigned, so every entry keeps the zero it is created with.\<close>

definition fSegmentSlides :: "nat \<Rightarrow> u32" where
  "fSegmentSlides i = 0"

definition classic_reloc :: "u32 \<Rightarrow> u32 \<Rightarrow> u32 \<Rightarrow> mem \<Rightarrow> mem res" where
  "classic_reloc slide relocBase p m =
     bindR (read_reloc m p) (\<lambda>reloc.
     if r_address reloc AND R_SCATTERED = 0 then
       if r_symbolnum reloc = R_ABS then Inl (Halt AbsoluteLocalReloc)
       else if r_length reloc = RELOC_SIZE then
         if r_type reloc = GENERIC_RELOC_VANILLA then add_slide m (r_address reloc + relocBase) slide
         else Inl (Halt BadLocalRelocType)
       else Inl (Halt BadLocalRelocLength)
     else if sr_length reloc = RELOC_SIZE then
       let locationToFix = sr_address reloc + fSegmentSlides 1 in
       if sr_type reloc = GENERIC_RELOC_VANILLA then add_slide m locationToFix slide
       else if sr_type reloc = ARM_RELOC_PB_LA_PTR then Inr m
       else Inl (Halt BadScatteredRelocType)
     else Inl (Halt BadScatteredRelocLength))"

text \<open>A loop over an array of eight-byte entries, up to the address past the last.\<close>

definition each_reloc :: "(u32 \<Rightarrow> 's \<Rightarrow> 's res) \<Rightarrow> u32 \<Rightarrow> u32 \<Rightarrow> 's \<Rightarrow> 's res" where
  "each_reloc body start end s =
     mapR snd (run_loop (c_while (\<lambda>(p, s). p < end) (\<lambda>(p, s). mapR (Pair (p + 8)) (body p s)) (start, s)))"

definition classicRebase :: "image \<Rightarrow> mem \<Rightarrow> mem res" where
  "classicRebase im m =
     bindR (getClassicRelocBase im) (\<lambda>relocBase.
     case fDynamicInfo im of
       None \<Rightarrow> Inl (Halt NoDynamicInfo)
     | Some ds \<Rightarrow>
         let relocsStart = fLinkEditBase im + locreloff ds; relocsEnd = relocsStart + 8 * nlocrel ds in
         each_reloc (classic_reloc (fSlide im) relocBase) relocsStart relocsEnd m)"

section \<open>Indirect symbols\<close>

abbreviation (input) "SECTION_TYPE \<equiv> 0xFF :: u32"
abbreviation (input) "S_NON_LAZY_SYMBOL_POINTERS \<equiv> 6 :: u32"
abbreviation (input) "S_LAZY_SYMBOL_POINTERS \<equiv> 7 :: u32"
abbreviation (input) "INDIRECT_SYMBOL_LOCAL \<equiv> 0x80000000 :: u32"
abbreviation (input) "INDIRECT_SYMBOL_ABS \<equiv> 0x40000000 :: u32"

definition GET_LIBRARY_ORDINAL :: "u16 \<Rightarrow> u8" where
  "GET_LIBRARY_ORDINAL n_desc = ucast (drop_bit 8 n_desc)"

definition indirect_one :: "link_env \<Rightarrow> image \<Rightarrow> u32 \<Rightarrow> u32 \<Rightarrow> mem \<times> u32 \<Rightarrow> (mem \<times> u32) res" where
  "indirect_one env im entry ptrToBind = (\<lambda>(m, unresolved).
     bindR (rd32 m entry) (\<lambda>symbolIndex.
     if symbolIndex = INDIRECT_SYMBOL_LOCAL then
       mapR (\<lambda>m. (m, unresolved)) (add_slide m ptrToBind (fSlide im))
     else if symbolIndex = INDIRECT_SYMBOL_ABS then Inl (Halt AbsoluteIndirectSymbol)
     else if symbolIndex = 0 then Inl (Halt MalformedClassicImage)
     else
       let nl = fSymtab im + 12 * symbolIndex in
       bindR (rd32 m nl) (\<lambda>n_strx.
       bindR (rd16 m (nl + 6)) (\<lambda>n_desc.
         bind env im ptrToBind BIND_TYPE_POINTER (fStrings im + n_strx) 0
           (uint (GET_LIBRARY_ORDINAL n_desc)) (m, unresolved)))))"

fun indirect_loop :: "link_env \<Rightarrow> image \<Rightarrow> nat \<Rightarrow> u32 \<Rightarrow> u32 \<Rightarrow> mem \<times> u32 \<Rightarrow> (mem \<times> u32) res" where
  "indirect_loop env im 0 entry ptrToBind s = Inr s"
| "indirect_loop env im (Suc n) entry ptrToBind s =
     bindR (indirect_one env im entry ptrToBind s) (indirect_loop env im n (entry + 4) (ptrToBind + 4))"

fun indirect_sections :: "link_env \<Rightarrow> image \<Rightarrow> u32 \<Rightarrow> macho_section list \<Rightarrow> mem \<times> u32 \<Rightarrow> (mem \<times> u32) res" where
  "indirect_sections env im indirectTable [] s = Inr s"
| "indirect_sections env im indirectTable (sect # sects) s =
     (let type = sect_flags sect AND SECTION_TYPE; elementCount = unat (sect_size sect) div 4 in
      bindR
        (if type = S_NON_LAZY_SYMBOL_POINTERS \<or> type = S_LAZY_SYMBOL_POINTERS then
           indirect_loop env im elementCount (indirectTable + 4 * reserved1 sect)
             (sect_addr sect + fSlide im) s
         else Inr s)
        (indirect_sections env im indirectTable sects))"

fun indirect_commands :: "link_env \<Rightarrow> image \<Rightarrow> u32 \<Rightarrow> load_command list \<Rightarrow> mem \<times> u32 \<Rightarrow> (mem \<times> u32) res" where
  "indirect_commands env im indirectTable [] s = Inr s"
| "indirect_commands env im indirectTable (cmd # cmds) s =
     bindR (case cmd of LC_SEGMENT seg \<Rightarrow> indirect_sections env im indirectTable (sections seg) s
            | _ \<Rightarrow> Inr s)
       (indirect_commands env im indirectTable cmds)"

definition classicBindIndirect :: "link_env \<Rightarrow> image \<Rightarrow> mem \<times> u32 \<Rightarrow> (mem \<times> u32) res" where
  "classicBindIndirect env im s =
     bindR (dynamic_info im) (\<lambda>ds.
       indirect_commands env im (fLinkEditBase im + indirectsymoff ds) (fCommands im) s)"

section \<open>External relocations\<close>

abbreviation (input) "N_TYPE \<equiv> 0x0E :: u8"
abbreviation (input) "N_SECT \<equiv> 0x0E :: u8"

definition extern_reloc :: "link_env \<Rightarrow> image \<Rightarrow> u32 \<Rightarrow> u32 \<Rightarrow> mem \<times> u32 \<Rightarrow> (mem \<times> u32) res" where
  "extern_reloc env im relocBase p = (\<lambda>(m, unresolved).
     bindR (read_reloc m p) (\<lambda>reloc.
     if r_length reloc = RELOC_SIZE then
       if r_type reloc = POINTER_RELOC then
         let undefinedSymbol = fSymtab im + 12 * r_symbolnum reloc;
             location = r_address reloc + relocBase in
         bindR (rd32 m location) (\<lambda>value.
         bindR (rd8 m (undefinedSymbol + 4)) (\<lambda>n_type.
         bindR (rd16 m (undefinedSymbol + 6)) (\<lambda>n_desc.
         if n_type AND N_TYPE = N_SECT \<and> n_desc AND N_ARM_THUMB_DEF \<noteq> 0 then
           Inl (Halt ThumbExternReloc)
         else
           bindR (rd32 m (undefinedSymbol + 8)) (\<lambda>n_value.
           bindR (rd32 m undefinedSymbol) (\<lambda>n_strx.
             bind env im location BIND_TYPE_POINTER (fStrings im + n_strx) (value - n_value)
               (uint (GET_LIBRARY_ORDINAL n_desc)) (m, unresolved))))))
       else Inl (Halt BadExternRelocType)
     else Inl (Halt BadExternRelocSize)))"

definition classicBindExterns :: "link_env \<Rightarrow> image \<Rightarrow> mem \<times> u32 \<Rightarrow> (mem \<times> u32) res" where
  "classicBindExterns env im s =
     bindR (getClassicRelocBase im) (\<lambda>relocBase.
     bindR (dynamic_info im) (\<lambda>ds.
       let relocsStart = fLinkEditBase im + extreloff ds; relocsEnd = relocsStart + 8 * nextrel ds in
       each_reloc (extern_reloc env im relocBase) relocsStart relocsEnd s))"

section \<open>Rebasing and binding an image\<close>

definition doBindSymbols :: "link_env \<Rightarrow> image \<Rightarrow> mem \<times> u32 \<Rightarrow> (mem \<times> u32) res" where
  "doBindSymbols env im s =
     (if fImageType im \<noteq> kImageTypeMachO then Inr s
      else if fIsClassic im then
        bindR (classicBindIndirect env im s) (classicBindExterns env im)
      else (case fDyldInfo im of
          None \<Rightarrow> Inl (Halt NoDyldInfo)
        | Some di \<Rightarrow>
            let base = fLinkEditBase im in
            bindR (readBind env im (base + bind_off di) (base + bind_off di + bind_size di) s) (\<lambda>s.
            bindR (readWeakBind im (base + weak_bind_off di)
                (base + weak_bind_off di + weak_bind_size di) s) (\<lambda>s.
              readLazyBind env im (base + lazy_bind_off di)
                (base + lazy_bind_off di + lazy_bind_size di) s))))"

definition doRebase :: "image \<Rightarrow> mem \<Rightarrow> mem res" where
  "doRebase im m =
     (if fImageType im \<noteq> kImageTypeMachO then Inr m
      else if fIsClassic im then (if \<not> fIsSplitSeg im then classicRebase im m else Inr m)
      else bindR (dyld_info im) (\<lambda>di.
        let start = fLinkEditBase im + rebase_off di in
        run_loop (readRebase im m start (start + rebase_size di))))"

section \<open>What local relocations mean\<close>

text \<open>The word an entry rebases, if it rebases one.\<close>

definition reloc_target :: "mem \<Rightarrow> u32 \<Rightarrow> u32 \<Rightarrow> u32 list option" where
  "reloc_target m relocBase p = (case read_reloc m p of Inl _ \<Rightarrow> None | Inr reloc \<Rightarrow>
     if r_address reloc AND R_SCATTERED = 0 then
       if r_symbolnum reloc \<noteq> R_ABS \<and> r_length reloc = RELOC_SIZE \<and> r_type reloc = GENERIC_RELOC_VANILLA
       then Some [r_address reloc + relocBase] else None
     else if sr_length reloc = RELOC_SIZE then
       if sr_type reloc = GENERIC_RELOC_VANILLA then Some [sr_address reloc]
       else if sr_type reloc = ARM_RELOC_PB_LA_PTR then Some [] else None
     else None)"

fun reloc_targets :: "mem \<Rightarrow> u32 \<Rightarrow> u32 \<Rightarrow> nat \<Rightarrow> u32 list option" where
  "reloc_targets m relocBase p 0 = Some []"
| "reloc_targets m relocBase p (Suc n) =
     (case reloc_target m relocBase p of None \<Rightarrow> None
      | Some ts \<Rightarrow> map_option ((@) ts) (reloc_targets m relocBase (p + 8) n))"

lemma classic_reloc_slides:
  "reloc_target m relocBase p = Some ts \<Longrightarrow> classic_reloc slide relocBase p m = slide_words slide m ts"
  by (auto simp: reloc_target_def classic_reloc_def add_slide_def fSegmentSlides_def Let_def
      split: sum.splits if_splits)

lemma each_reloc_step:
  "p < e \<Longrightarrow> body p s = Inr s' \<Longrightarrow> each_reloc body p e s = each_reloc body (p + 8) e s'"
  by (simp add: each_reloc_def c_while_step)

lemma each_reloc_stop: "\<not> p < e \<Longrightarrow> each_reloc body p e s = Inr s"
  by (simp add: each_reloc_def c_while_stop)

lemma read_reloc_cong:
  assumes "\<And>a. a \<in> word_bytes p \<union> word_bytes (p + 4) \<Longrightarrow> m' a = m a"
  shows "read_reloc m' p = read_reloc m p"
proof -
  have "rd32 m' p = rd32 m p" "rd32 m' (p + 4) = rd32 m (p + 4)"
    using assms by (auto intro!: rd32_cong_bytes)
  then show ?thesis by (simp add: read_reloc_def)
qed

text \<open>The bytes of an entry, and of the entries after it, up to the end of the array.\<close>

lemma entry_in_region:
  assumes "unat p + 8 * Suc n = unat e"
  shows "word_bytes p \<union> word_bytes (p + 4) \<subseteq> region p e" "unat (p + 8) + 8 * n = unat e"
    "region (p + 8) e \<subseteq> region p e" "p < e"
proof -
  have small: "unat p + 8 * Suc n < 2 ^ 32" using assms unat_u32_less [of e] by simp
  have add: "unat (p + of_nat k) = unat p + k" if "k \<le> 8" for k
    using that small by (simp add: unat_word_ariths unsigned_of_nat take_bit_eq_mod)
  have "unat p \<le> unat (p + of_nat k) \<and> unat (p + of_nat k) < unat e" if "k < 8" for k
    using that assms add [of k] by simp
  from this [of 0] this [of 1] this [of 2] this [of 3] this [of 4] this [of 5] this [of 6] this [of 7]
  show "word_bytes p \<union> word_bytes (p + 4) \<subseteq> region p e"
    by (simp add: word_bytes_def region_def word_le_nat_alt word_less_nat_alt add.commute)
  show "unat (p + 8) + 8 * n = unat e" using add [of 8] assms by simp
  show "region (p + 8) e \<subseteq> region p e"
    using add [of 8] by (auto simp: region_def word_le_nat_alt)
  show "p < e" using assms by (simp add: word_less_nat_alt)
qed

lemma reloc_targets_cong:
  "unat p + 8 * n = unat e \<Longrightarrow> (\<And>a. a \<in> region p e \<Longrightarrow> m' a = m a) \<Longrightarrow>
     reloc_targets m' b p n = reloc_targets m b p n"
proof (induction n arbitrary: p)
  case (Suc n)
  note entry = entry_in_region [OF Suc.prems(1)]
  have "read_reloc m' p = read_reloc m p"
    using entry(1) Suc.prems(2) by (intro read_reloc_cong) blast
  then have "reloc_target m' b p = reloc_target m b p" by (simp add: reloc_target_def)
  moreover have "reloc_targets m' b (p + 8) n = reloc_targets m b (p + 8) n"
    using entry(2,3) Suc.prems(2) by (intro Suc.IH) blast+
  ultimately show ?case by (simp cong: option.case_cong)
qed simp

lemma each_reloc_slides:
  assumes "unat p + 8 * n = unat e" "reloc_targets m b p n = Some ts" "slide_words slide m ts = Inr m'"
    "words_of ts \<inter> region p e = {}"
  shows "each_reloc (classic_reloc slide b) p e m = Inr m'"
  using assms
proof (induction n arbitrary: p m ts)
  case 0
  then show ?case by (simp add: each_reloc_stop word_less_nat_alt)
next
  case (Suc n)
  note entry = entry_in_region [OF Suc.prems(1)]
  from Suc.prems(2) obtain ts1 ts2 where ts: "reloc_target m b p = Some ts1"
      "reloc_targets m b (p + 8) n = Some ts2" "ts = ts1 @ ts2"
    by (auto split: option.splits)
  with Suc.prems(3) obtain m1 where m1: "slide_words slide m ts1 = Inr m1" "slide_words slide m1 ts2 = Inr m'"
    by (auto simp: slide_words_append)
  have "m1 a = m a" if "a \<in> region p e" for a
    using that Suc.prems(4) ts(3) slide_words_frame [OF m1(1), of a] by auto
  then have "reloc_targets m1 b (p + 8) n = Some ts2"
    using reloc_targets_cong [OF entry(2), of m1 m b] entry(3) ts(2) by auto
  then have "each_reloc (classic_reloc slide b) (p + 8) e m1 = Inr m'"
    using m1(2) Suc.prems(4) ts(3) entry(3) by (intro Suc.IH [OF entry(2)]) auto
  then show ?case
    using each_reloc_step [OF entry(4), of "classic_reloc slide b" m m1] classic_reloc_slides [OF ts(1)] m1(1)
    by simp
qed

lemma classicRebase_correct:
  assumes ds: "fDynamicInfo im = Some ds" and base: "getClassicRelocBase im = Inr b"
    and room: "unat p + 8 * unat (nlocrel ds) < 2 ^ 32" "p = fLinkEditBase im + locreloff ds"
    and targets: "reloc_targets m b p (unat (nlocrel ds)) = Some ts"
    and mapped: "words_disjoint ts" "list_all (mapped32 m) ts"
      "words_of ts \<inter> region p (p + 8 * nlocrel ds) = {}"
  shows "\<exists>m'. classicRebase im m = Inr m' \<and>
    (\<forall>a \<in> set ts. rd32 m' a = mapR (\<lambda>v. v + fSlide im) (rd32 m a)) \<and>
    (\<forall>a. a \<notin> words_of ts \<longrightarrow> m' a = m a)"
proof -
  from slide_words_ok [OF mapped(1,2)] obtain m' where m': "slide_words (fSlide im) m ts = Inr m'"
      "\<forall>a \<in> set ts. rd32 m' a = mapR (\<lambda>v. v + fSlide im) (rd32 m a)"
      "\<forall>a. a \<notin> words_of ts \<longrightarrow> m' a = m a" by blast
  have "unat (8 * nlocrel ds) = 8 * unat (nlocrel ds)"
    using room(1) by (simp add: unat_word_ariths)
  then have "unat p + 8 * unat (nlocrel ds) = unat (p + 8 * nlocrel ds)"
    using room(1) by (simp add: unat_word_ariths)
  from each_reloc_slides [OF this targets m'(1) mapped(3)] ds base room(2) m'(2,3)
  show ?thesis by (simp add: classicRebase_def)
qed

section \<open>Rebasing and binding map nothing\<close>

lemma each_reloc_preserves:
  assumes "each_reloc body p e s = Inr t" "P s" "\<And>p s s'. P s \<Longrightarrow> body p s = Inr s' \<Longrightarrow> P s'"
  shows "P t"
proof -
  from assms(1) obtain q where
    "c_while (\<lambda>(p, s). p < e) (\<lambda>(p, s). mapR (Pair (p + 8)) (body p s)) (p, s) = Some (Inr (q, t))"
    by (auto simp: each_reloc_def)
  from c_while_invariant [where P = "\<lambda>(p, s). P s", OF this] assms(2,3) show ?thesis by auto
qed

lemma add_slide_same_dom: "add_slide m a v = Inr m' \<Longrightarrow> same_dom m m'"
  by (auto simp: add_slide_def dest: wr32_same_dom)

lemma classic_reloc_same_dom: "classic_reloc slide b p m = Inr m' \<Longrightarrow> same_dom m m'"
  by (auto simp: classic_reloc_def Let_def split: if_splits dest: add_slide_same_dom)

lemma classicRebase_same_dom:
  assumes "classicRebase im m = Inr m'"
  shows "same_dom m m'"
proof -
  from assms obtain b p e where "each_reloc (classic_reloc (fSlide im) b) p e m = Inr m'"
    by (auto simp: classicRebase_def Let_def split: option.splits)
  then show ?thesis
    by (rule each_reloc_preserves [where P = "same_dom m"])
       (auto intro: same_dom_trans dest: classic_reloc_same_dom)
qed

lemma doRebase_same_dom: "doRebase im m = Inr m' \<Longrightarrow> same_dom m m'"
  by (auto simp: doRebase_def Let_def split: if_splits dest: classicRebase_same_dom readRebase_same_dom)

lemma indirect_one_same_dom: "indirect_one env im entry p s = Inr s' \<Longrightarrow> same_dom (fst s) (fst s')"
  by (cases s; cases s')
     (auto simp: indirect_one_def Let_def split: if_splits dest: add_slide_same_dom bind_same_dom)

lemma indirect_loop_same_dom: "indirect_loop env im n entry p s = Inr s' \<Longrightarrow> same_dom (fst s) (fst s')"
  by (induction n arbitrary: entry p s) (fastforce dest: indirect_one_same_dom intro: same_dom_trans)+

lemma indirect_sections_same_dom:
  "indirect_sections env im t sects s = Inr s' \<Longrightarrow> same_dom (fst s) (fst s')"
  by (induction sects arbitrary: s)
     (fastforce simp: Let_def split: if_splits dest: indirect_loop_same_dom intro: same_dom_trans)+

lemma indirect_commands_same_dom:
  "indirect_commands env im t cmds s = Inr s' \<Longrightarrow> same_dom (fst s) (fst s')"
proof (induction cmds arbitrary: s)
  case (Cons cmd cmds)
  then show ?case
    by (cases cmd) (auto dest!: indirect_sections_same_dom Cons.IH intro: same_dom_trans)
qed simp

lemma extern_reloc_same_dom: "extern_reloc env im b p s = Inr s' \<Longrightarrow> same_dom (fst s) (fst s')"
  by (cases s; cases s')
     (auto simp: extern_reloc_def Let_def split: if_splits dest: bind_same_dom)

lemma classicBindExterns_same_dom:
  assumes "classicBindExterns env im s = Inr s'"
  shows "same_dom (fst s) (fst s')"
proof -
  from assms obtain b p e where "each_reloc (extern_reloc env im b) p e s = Inr s'"
    by (auto simp: classicBindExterns_def Let_def)
  then show ?thesis
    by (rule each_reloc_preserves [where P = "\<lambda>t. same_dom (fst s) (fst t)"])
       (auto intro: same_dom_trans dest: extern_reloc_same_dom)
qed

lemma doBindSymbols_same_dom:
  assumes "doBindSymbols env im (m, u) = Inr (m', u')"
  shows "same_dom m m'"
proof (cases "fIsClassic im \<or> fImageType im \<noteq> kImageTypeMachO")
  case True
  with assms show ?thesis
    by (auto simp: doBindSymbols_def classicBindIndirect_def split: if_splits
        dest!: indirect_commands_same_dom classicBindExterns_same_dom intro: same_dom_trans)
next
  case False
  with assms show ?thesis
    by (auto simp: doBindSymbols_def Let_def split: option.splits
        dest!: readBind_same_dom readWeakBind_pure readLazyBind_same_dom intro: same_dom_trans)
qed

section \<open>Properties\<close>

text \<open>
  C15: on local relocations the loader accepts, whose words are mapped, do not overlap and leave
  the entries alone, classic rebasing adds the slide exactly once to each word and changes no
  other byte.
\<close>

theorem classicRebase_slides:
  assumes "fDynamicInfo im = Some ds" "getClassicRelocBase im = Inr b"
    and "unat p + 8 * unat (nlocrel ds) < 2 ^ 32" "p = fLinkEditBase im + locreloff ds"
    and "reloc_targets m b p (unat (nlocrel ds)) = Some ts"
    and "words_disjoint ts" "list_all (mapped32 m) ts"
      "words_of ts \<inter> region p (p + 8 * nlocrel ds) = {}"
  shows "\<exists>m'. classicRebase im m = Inr m' \<and>
    (\<forall>a \<in> set ts. rd32 m' a = mapR (\<lambda>v. v + fSlide im) (rd32 m a)) \<and>
    (\<forall>a. a \<notin> words_of ts \<longrightarrow> m' a = m a)"
  using assms by (rule classicRebase_correct)

text \<open>One word and one relocation entry for it.\<close>

definition one_reloc :: mem where
  "one_reloc = mem_of 0x2000 [0x10, 0, 0, 0, 0, 0, 0, 0, 1, 0, 0, 4]"

definition one_local_reloc :: dysymtab_command where
  "one_local_reloc = \<lparr>iextdefsym = 0, nextdefsym = 0, tocoff = 0, ntoc = 0, indirectsymoff = 0,
     extreloff = 0, nextrel = 0, locreloff = 4, nlocrel = 1\<rparr>"

definition classic_image :: image where
  "classic_image = one_segment\<lparr>fIsClassic := True, fLinkEditBase := 0x2000,
     fDynamicInfo := Some one_local_reloc\<rparr>"

lemma one_reloc_entry: "rd32 one_reloc 0x2004 = Inr 0" "rd32 one_reloc 0x2008 = Inr 0x04000001"
  by (simp_all add: one_reloc_def mem_of_def rd32_def rd8_def le32_def)

lemma one_reloc_facts:
  "reloc_targets one_reloc 0x2000 0x2004 (unat (1 :: u32)) = Some [0x2000]"
  "rd32 one_reloc 0x2000 = Inr 0x10" "words_disjoint [0x2000]" "list_all (mapped32 one_reloc) [0x2000]"
  by (simp add: one_reloc_entry reloc_target_def read_reloc_def r_address_def r_symbolnum_def
        r_length_def r_type_def)
     (simp_all add: one_reloc_def mem_of_def rd32_def rd8_def le32_def mapped32_def)

lemma classic_image_simps:
  "fDynamicInfo classic_image = Some one_local_reloc" "fLinkEditBase classic_image = 0x2000"
  "fSlide classic_image = 0x1000" "nlocrel one_local_reloc = 1" "locreloff one_local_reloc = 4"
  "getClassicRelocBase classic_image = Inr 0x2000"
  by (simp_all add: classic_image_def one_local_reloc_def one_segment_def new_image_def
      getClassicRelocBase_def segActualLoadAddr_def segLoadCmd_def)

theorem classicRebase_slides_witness:
  "\<exists>m'. classicRebase classic_image one_reloc = Inr m' \<and> rd32 m' 0x2000 = Inr 0x1010"
proof -
  have "words_of [0x2000] \<inter> region 0x2004 (0x2004 + 8 * 1) = {}"
    by (auto simp: word_bytes_def region_def)
  moreover have "unat (0x2004 :: u32) + 8 * unat (1 :: u32) < 2 ^ 32" by simp
  ultimately have "\<exists>m'. classicRebase classic_image one_reloc = Inr m' \<and>
    (\<forall>a \<in> set [0x2000]. rd32 m' a = mapR (\<lambda>v. v + fSlide classic_image) (rd32 one_reloc a)) \<and>
    (\<forall>a. a \<notin> words_of [0x2000] \<longrightarrow> m' a = one_reloc a)"
    using one_reloc_facts
    by (intro classicRebase_slides [OF classic_image_simps(1,6)]) (simp_all only: classic_image_simps, simp_all)
  then show ?thesis by (auto simp: one_reloc_facts(2) classic_image_simps)
qed

end
