(* ===== verification/Loader.thy ===== *)
theory Loader
  imports Classic
begin

text \<open>
  Loading libraries (src/core/lnk.cpp, lnk_macho.cpp, lnk_mm.cpp): reading a Mach-O file and
  mapping its segments, walking its load commands, which load the libraries it depends on in
  turn, and keeping the chain of loaded images. The state of the linker is the record \<open>lnk\<close>;
  the files, the kernel's mappings and the values the code leaves uninitialised are the record
  \<open>kernel\<close>.
\<close>

section \<open>The system below the linker\<close>

text \<open>
  A file as the loader reads it: the magic number of its header and its load commands.
  \<open>k_open\<close> is \<open>open\<close>, \<open>k_reserve\<close>, \<open>k_wire\<close> and \<open>k_wire_anon\<close> are the three uses of \<open>mmap\<close> in
  lnk_mm.cpp; \<open>k_compressed\<close> is what the uninitialised local \<open>compressed\<close> of
  \<open>parseLoadCommands\<close> holds when the load commands of an image are walked; \<open>k_environ\<close> is
  \<open>gEnvironPtr\<close>; \<open>k_call\<close> is what running the initializer at an address does to memory.
\<close>

record macho_file =
  f_magic :: u32
  f_commands :: "load_command list"

record kernel =
  k_open :: "string \<Rightarrow> macho_file option"
  k_reserve :: "u32 \<Rightarrow> mem \<Rightarrow> u32 \<times> mem"
  k_wire :: "macho_file \<Rightarrow> u32 \<Rightarrow> u32 \<Rightarrow> u32 \<Rightarrow> mem \<Rightarrow> mem"
  k_wire_anon :: "u32 \<Rightarrow> u32 \<Rightarrow> mem \<Rightarrow> mem"
  k_compressed :: "image_id \<Rightarrow> bool"
  k_environ :: u32
  k_call :: "u32 \<Rightarrow> mem \<Rightarrow> mem res"

text \<open>
  The globals of lnk.cpp. \<open>l_next\<close> names the next object \<open>new\<close> returns; \<open>l_table\<close> holds the
  entries of the table the kernel reads, in order; \<open>l_calls\<close> records the initializers run so
  far, the last one first, with the image each belongs to.
\<close>

record lnk =
  l_images :: images
  l_next :: image_id
  sFirstImage :: "image_id option"
  sDylinker :: "image_id option"
  sMainExecutable :: "image_id option"
  sImageCount :: u32
  sUnresolvedCount :: u32
  sAuxLibs :: "image_id option list"
  l_table :: "(u32 \<times> u32 \<times> string) list"
  l_mem :: mem
  l_calls :: "(image_id \<times> u32) list"

definition set_image :: "image_id \<Rightarrow> image \<Rightarrow> lnk \<Rightarrow> lnk" where
  "set_image i im st = st\<lparr>l_images := (l_images st)(i \<mapsto> im)\<rparr>"

definition on_image :: "image_id \<Rightarrow> (image \<Rightarrow> image) \<Rightarrow> lnk \<Rightarrow> lnk res" where
  "on_image i f st = mapR (\<lambda>im. set_image i (f im) st) (image_of (l_images st) i)"

text \<open>\<open>new\<close>: a name no image has yet.\<close>

definition new_object :: "image \<Rightarrow> lnk \<Rightarrow> image_id \<times> lnk" where
  "new_object im st = (l_next st, set_image (l_next st) im (st\<lparr>l_next := Suc (l_next st)\<rparr>))"

section \<open>Mapping a file\<close>

definition linker_image_table_add :: "u32 \<Rightarrow> u32 \<Rightarrow> string \<Rightarrow> lnk \<Rightarrow> lnk" where
  "linker_image_table_add load_addr sz name st =
     st\<lparr>l_table := l_table st @ [(load_addr, sz, name)]\<rparr>"

text \<open>The page macro of the system headers, for the pages of 4096 bytes of the target.\<close>

definition round_page :: "u32 \<Rightarrow> u32" where
  "round_page x = (x + 0xFFF) AND NOT 0xFFF"

definition file_segments :: "load_command list \<Rightarrow> macho_segment_command list" where
  "file_segments cmds = List.concat (map (\<lambda>lc. case lc of LC_SEGMENT seg \<Rightarrow> [seg] | _ \<Rightarrow> []) cmds)"

definition map_segment ::
    "kernel \<Rightarrow> macho_file \<Rightarrow> u32 \<Rightarrow> macho_segment_command \<Rightarrow> mem \<Rightarrow> mem" where
  "map_segment k file loader_bias seg m =
     (let mm_filesize = round_page (filesize seg); mm_vmsize = round_page (vmsize seg);
          m = k_wire k file (round_page (vmaddr seg + loader_bias)) mm_filesize (fileoff seg) m;
          delta = mm_vmsize - mm_filesize in
      if delta \<noteq> 0 \<and> loader_bias = 0 then
        k_wire_anon k (round_page (vmaddr seg + loader_bias + mm_filesize)) delta m
      else m)"

abbreviation (input) "MH_MAGIC \<equiv> 0xFEEDFACE :: u32"

text \<open>
  The array of segment commands has room for 64; one more would be stored past its end.
\<close>

definition instantiateFromFile ::
    "kernel \<Rightarrow> string \<Rightarrow> string \<Rightarrow> macho_file \<Rightarrow> lnk \<Rightarrow> (image_id \<times> lnk) res" where
  "instantiateFromFile k path origPath file st =
     (if f_magic file \<noteq> MH_MAGIC then Inl (Halt InvalidMagic)
      else
        let segments = file_segments (f_commands file);
            map_size = sum_list (map vmsize segments) in
        if length segments > 64 then Inl Undefined
        else if length segments < 1 then Inl (Halt NoSegments)
        else
          let (loader_bias, m) = (if vmaddr (hd segments) \<noteq> 0 then (0, l_mem st)
                                  else k_reserve k map_size (l_mem st));
              m = fold (map_segment k file loader_bias) segments m;
              st = linker_image_table_add (vmaddr (hd segments) + loader_bias)
                     (vmsize (hd segments)) path (st\<lparr>l_mem := m\<rparr>) in
          Inr (new_object (new_image\<lparr>fSlide := loader_bias,
                 fHeader := vmaddr (hd segments) + loader_bias, fCommands := f_commands file,
                 fModuleName := None, fFilePath := Some path, fOrigFilePath := Some origPath,
                 fIsSplitSeg := (loader_bias = 0)\<rparr>) st))"

definition instantiateFromMemory ::
    "string \<Rightarrow> u32 \<Rightarrow> load_command list \<Rightarrow> u32 \<Rightarrow> lnk \<Rightarrow> image_id \<times> lnk" where
  "instantiateFromMemory moduleName mh cmds slide st =
     new_object (new_image\<lparr>fHeader := mh, fCommands := cmds, fModuleName := Some moduleName,
       fSlide := slide\<rparr>) st"

section \<open>The sections the loader looks at\<close>

definition process_section :: "kernel \<Rightarrow> u32 \<Rightarrow> macho_section \<Rightarrow> mem \<Rightarrow> mem res" where
  "process_section k slide sect m =
     (let addr = sect_addr sect + slide in
      if sectname sect = ''__program_vars'' then
        bindR (rd32 m addr) (\<lambda>mh. bindR (rd32 m (addr + 8)) (\<lambda>argv.
        bindR (rd32 m (addr + 4)) (\<lambda>argc. bindR (rd32 m (addr + 12)) (\<lambda>environPtr.
          wr32 m environPtr (k_environ k)))))
      else if sectname sect = ''__bridge'' then bindR (rd32 m addr) (\<lambda>mode. Inr m)
      else Inr m)"

definition processSections :: "kernel \<Rightarrow> image \<Rightarrow> mem \<Rightarrow> mem res" where
  "processSections k im =
     foldR (\<lambda>i m. bindR (segLoadCmd im i) (\<lambda>seg.
       foldR (process_section k (fSlide im)) (sections seg) m)) [0..<fSegmentsCount im]"

section \<open>Walking the load commands\<close>

text \<open>The locals of \<open>parseLoadCommands\<close>.\<close>

record parse =
  p_segCount :: nat
  p_compressed :: bool
  p_symbolTable :: u32
  p_strings :: u32

definition parse_segment :: "macho_segment_command \<Rightarrow> image \<Rightarrow> parse \<Rightarrow> (image \<times> parse) res" where
  "parse_segment seg im p =
     (let n = p_segCount p in
      if n \<ge> 64 then Inl Undefined
      else
        let im = im\<lparr>fSegmentLoadCommands := take n (fSegmentLoadCommands im) @ [seg] @
                      drop (Suc n) (fSegmentLoadCommands im)\<rparr> in
        bindR (if segname seg = ''__LINKEDIT'' then
                 bindR (segActualLoadAddr im n) (\<lambda>addr. bindR (segFileOffset im n) (\<lambda>off.
                   Inr (im\<lparr>fLinkEditBase := addr - off\<rparr>)))
               else Inr im) (\<lambda>im.
        Inr (im, p\<lparr>p_segCount := Suc n\<rparr>)))"

text \<open>The commands that concern the image alone. A symbol table falls through to the next case.\<close>

definition parse_command :: "load_command \<Rightarrow> image \<Rightarrow> parse \<Rightarrow> (image \<times> parse) res" where
  "parse_command lc im p = (case lc of
     LC_SEGMENT seg \<Rightarrow> parse_segment seg im p
   | LC_UNIXTHREAD r15 \<Rightarrow> Inr (im\<lparr>fEntryPoint := fSlide im + r15\<rparr>, p)
   | LC_ROUTINES init_address \<Rightarrow> Inr (im\<lparr>fRoutines := Some init_address\<rparr>, p)
   | LC_DYLIB _ _ \<Rightarrow> Inr (im, p)
   | LC_SYMTAB symo stro dysymtab \<Rightarrow>
       if fLinkEditBase im = 0 then Inl (Halt SymtabBeforeLinkedit)
       else Inr (im\<lparr>fDynamicInfo := Some dysymtab\<rparr>,
                 p\<lparr>p_strings := fLinkEditBase im + stro,
                   p_symbolTable := fLinkEditBase im + symo\<rparr>)
   | LC_DYSYMTAB dysymtab \<Rightarrow> Inr (im\<lparr>fDynamicInfo := Some dysymtab\<rparr>, p)
   | LC_DYLD_INFO di \<Rightarrow> Inr (im\<lparr>fDyldInfo := Some di\<rparr>, p\<lparr>p_compressed := True\<rparr>)
   | LC_DYLD_INFO_ONLY di \<Rightarrow> Inr (im\<lparr>fDyldInfo := Some di\<rparr>, p\<lparr>p_compressed := True\<rparr>)
   | LC_OTHER _ \<Rightarrow> Inr (im, p))"

text \<open>
  A dependency is appended to \<open>fDependencies\<close>, and a re-exported one to \<open>fReExports\<close>; both
  arrays have room for 128.
\<close>

definition add_dependency :: "dylib_kind \<Rightarrow> image_id option \<Rightarrow> image \<Rightarrow> image res" where
  "add_dependency kind dep im = (case dep of
     None \<Rightarrow> Inl (Halt DependencyFailed)
   | Some d \<Rightarrow>
       if length (fDependencies im) \<ge> 128 then Inl Undefined
       else let im = im\<lparr>fDependencies := fDependencies im @ [d]\<rparr> in
       if kind = ReexportDylib then
         if length (fReExports im) \<ge> 128 then Inl Undefined
         else Inr (im\<lparr>fReExports := fReExports im @ [d]\<rparr>)
       else Inr im)"

text \<open>
  Loading recurses through the load commands, so the recursion is bounded by fuel: the outer
  option is \<open>None\<close> where it ran out.
\<close>

definition bindO :: "'a res option \<Rightarrow> ('a \<Rightarrow> 'b res option) \<Rightarrow> 'b res option" where
  "bindO r f = (case r of None \<Rightarrow> None | Some (Inl e) \<Rightarrow> Some (Inl e) | Some (Inr x) \<Rightarrow> f x)"

lemma bindO_Inr_iff [simp]: "bindO r f = Some (Inr y) \<longleftrightarrow> (\<exists>x. r = Some (Inr x) \<and> f x = Some (Inr y))"
  by (auto simp: bindO_def split: option.splits sum.splits)

lemma bindO_simps [simp, res_simps]:
  "bindO None f = None" "bindO (Some (Inl e)) f = Some (Inl e)" "bindO (Some (Inr x)) f = f x"
  by (simp_all add: bindO_def)

lemma bindO_cong [fundef_cong]:
  "r = r' \<Longrightarrow> (\<And>x. r' = Some (Inr x) \<Longrightarrow> f x = g x) \<Longrightarrow> bindO r f = bindO r' g"
  by (auto simp: bindO_def split: option.splits sum.splits)

lemma bindO_eq_None_iff: "bindO r f = None \<longleftrightarrow> r = None \<or> (\<exists>x. r = Some (Inr x) \<and> f x = None)"
  by (auto simp: bindO_def split: option.splits sum.splits)

type_synonym loader = "string \<Rightarrow> lnk \<Rightarrow> ((image_id option \<times> bool option) \<times> lnk) res option"

definition parse_one ::
    "loader \<Rightarrow> load_command \<Rightarrow> image_id \<Rightarrow> parse \<Rightarrow> lnk \<Rightarrow> (parse \<times> lnk) res option" where
  "parse_one load lc i p st = (case lc of
     LC_DYLIB kind name \<Rightarrow>
       bindO (load name st) (\<lambda>((dep, _), st).
       bindO (Some (image_of (l_images st) i)) (\<lambda>im.
       bindO (Some (add_dependency kind dep im)) (\<lambda>im.
         Some (Inr (p, set_image i im st)))))
   | _ \<Rightarrow>
       bindO (Some (image_of (l_images st) i)) (\<lambda>im.
       bindO (Some (parse_command lc im p)) (\<lambda>(im, p).
         Some (Inr (p, set_image i im st)))))"

fun parse_loop ::
    "loader \<Rightarrow> load_command list \<Rightarrow> image_id \<Rightarrow> parse \<Rightarrow> lnk \<Rightarrow> (parse \<times> lnk) res option" where
  "parse_loop load [] i p st = Some (Inr (p, st))"
| "parse_loop load (lc # lcs) i p st =
     bindO (parse_one load lc i p st) (\<lambda>(p, st). parse_loop load lcs i p st)"

definition finish_parse :: "kernel \<Rightarrow> image_id \<Rightarrow> parse \<Rightarrow> lnk \<Rightarrow> lnk res" where
  "finish_parse k i p st =
     bindR (image_of (l_images st) i) (\<lambda>im.
     let im = im\<lparr>fSegmentsCount := p_segCount p\<rparr>;
         im = (if \<not> p_compressed p
               then im\<lparr>fIsClassic := True, fStrings := p_strings p, fSymtab := p_symbolTable p\<rparr>
               else im) in
     bindR (processSections k im (l_mem st)) (\<lambda>m. Inr (set_image i im (st\<lparr>l_mem := m\<rparr>))))"

definition parseLoadCommands :: "kernel \<Rightarrow> loader \<Rightarrow> image_id \<Rightarrow> lnk \<Rightarrow> lnk res option" where
  "parseLoadCommands k load i st =
     bindO (Some (image_of (l_images st) i)) (\<lambda>im.
     if fCommands im = [] then Some (Inl (Halt SegmentlessFile))
     else
       bindO (parse_loop load (fCommands im) i
         \<lparr>p_segCount = 0, p_compressed = k_compressed k i, p_symbolTable = 0, p_strings = 0\<rparr> st) (\<lambda>(p, st).
       Some (finish_parse k i p st)))"

section \<open>Loading a library\<close>

abbreviation (input) "LIBSYSTEM_PATH \<equiv> ''/usr/lib/libSystem.B.dylib''"
abbreviation (input) "LIBGCC_PATH \<equiv> ''/usr/lib/libgcc_s.1.dylib''"

definition openWithPrefix :: "kernel \<Rightarrow> string \<Rightarrow> string \<Rightarrow> (string \<times> macho_file) option" where
  "openWithPrefix k path pre = map_option (\<lambda>file. (pre @ path, file)) (k_open k (pre @ path))"

text \<open>The file under its path, under /System/ or under /usr/lib/, whichever opens first.\<close>

definition open_library :: "kernel \<Rightarrow> string \<Rightarrow> (string \<times> macho_file) option" where
  "open_library k path =
     (case openWithPrefix k path '''' of Some r \<Rightarrow> Some r
      | None \<Rightarrow> (case openWithPrefix k path ''/System/'' of Some r \<Rightarrow> Some r
        | None \<Rightarrow> openWithPrefix k path ''/usr/lib/''))"

text \<open>The image of the chain that was loaded from a path.\<close>

partial_function (option) find_loaded ::
    "images \<Rightarrow> string \<Rightarrow> image_id option \<Rightarrow> image_id option res option" where
  "find_loaded ims path im =
     (if im = None then Some (Inr None)
      else (case image_of ims (the im) of
          Inl e \<Rightarrow> Some (Inl e)
        | Inr img \<Rightarrow>
            if fOrigFilePath img = Some path then Some (Inr im)
            else find_loaded ims path (fNextImage img)))"

lemma find_loaded_None [simp]: "find_loaded ims path None = Some (Inr None)"
  by (simp add: find_loaded.simps)

lemma find_loaded_Some: "ims i = Some im \<Longrightarrow> find_loaded ims path (Some i) =
    (if fOrigFilePath im = Some path then Some (Inr (Some i))
     else find_loaded ims path (fNextImage im))"
  by (simp add: find_loaded.simps [of ims path "Some i"])

text \<open>The new image goes behind the first one of the chain.\<close>

definition add_to_chain :: "image_id \<Rightarrow> lnk \<Rightarrow> lnk res" where
  "add_to_chain lib st = (case sFirstImage st of
     None \<Rightarrow> Inl (Fault 0)
   | Some im \<Rightarrow>
       bindR (image_of (l_images st) im) (\<lambda>first.
       bindR (on_image lib (\<lambda>l. l\<lparr>fNextImage := fNextImage first\<rparr>) st) (\<lambda>st.
       bindR (on_image im (\<lambda>f. f\<lparr>fNextImage := Some lib\<rparr>) st) (\<lambda>st.
         Inr (st\<lparr>sImageCount := sImageCount st + 1\<rparr>)))))"

text \<open>
  \<open>loadLibraryEx\<close> returns the image and what it stored through \<open>already_loaded\<close>, if it did.
  The libraries the new one depends on are loaded by the loader \<open>load\<close>.
\<close>

definition load_step :: "kernel \<Rightarrow> loader \<Rightarrow> loader" where
  "load_step k load path st =
     (if path = LIBSYSTEM_PATH \<or> path = LIBGCC_PATH then Some (Inr ((sFirstImage st, None), st))
      else bindO (Some (run_loop (find_loaded (l_images st) path (sFirstImage st)))) (\<lambda>found.
        case found of
          Some im \<Rightarrow> Some (Inr ((Some im, Some True), st))
        | None \<Rightarrow> (case open_library k path of
            None \<Rightarrow> Some (Inr ((sDylinker st, Some False), st))
          | Some (nn, file) \<Rightarrow>
              bindO (Some (instantiateFromFile k nn path file st)) (\<lambda>(lib, st).
              bindO (Some (add_to_chain lib st)) (\<lambda>st.
              bindO (parseLoadCommands k load lib st) (\<lambda>st.
              bindO (Some (image_of (l_images st) lib)) (\<lambda>im.
              bindO (Some (doRebase im (l_mem st))) (\<lambda>m.
                Some (Inr ((Some lib, Some False), st\<lparr>l_mem := m\<rparr>))))))))))"

primrec loadLibraryEx :: "kernel \<Rightarrow> nat \<Rightarrow> loader" where
  "loadLibraryEx k 0 = (\<lambda>path st. None)"
| "loadLibraryEx k (Suc fuel) = load_step k (loadLibraryEx k fuel)"

definition loadLibrary :: "kernel \<Rightarrow> nat \<Rightarrow> string \<Rightarrow> lnk \<Rightarrow> (image_id option \<times> lnk) res option" where
  "loadLibrary k fuel path st =
     bindO (loadLibraryEx k fuel path st) (\<lambda>((im, _), st). Some (Inr (im, st)))"

definition auxiliary_libraries :: "string list" where
  "auxiliary_libraries =
     [''/usr/lib/system/libsystem_math.dylib'', ''/usr/lib/system/libsystem_blocks.dylib'',
      ''/usr/lib/system/libunwind.dylib'', ''/usr/lib/system/launch.dylib'',
      ''/usr/lib/system/libkeymgr.dylib'', ''/usr/lib/system/libcommonCrypto.dylib'']"

fun load_each :: "kernel \<Rightarrow> nat \<Rightarrow> string list \<Rightarrow> lnk \<Rightarrow> (image_id option list \<times> lnk) res option" where
  "load_each k fuel [] st = Some (Inr ([], st))"
| "load_each k fuel (path # paths) st =
     bindO (loadLibrary k fuel path st) (\<lambda>(im, st).
     bindO (load_each k fuel paths st) (\<lambda>(ims, st). Some (Inr (im # ims, st))))"

definition loadAuxiliarySystemLibraries :: "kernel \<Rightarrow> nat \<Rightarrow> lnk \<Rightarrow> lnk res option" where
  "loadAuxiliarySystemLibraries k fuel st =
     bindO (load_each k fuel auxiliary_libraries st) (\<lambda>(ims, st). Some (Inr (st\<lparr>sAuxLibs := ims\<rparr>)))"

end
