(* ===== verification/LibraryChain.thy ===== *)
theory LibraryChain
  imports Loader
begin

text \<open>
  What loading keeps: the chain of images stays well linked (every image reachable once, one
  image per path, the count right, dependencies inside the chain), images change only in their
  links once they are parsed, and loading ends when finitely many libraries can be opened. The
  contract of a loader is the locale \<open>library_loader\<close>; the routines that walk the load commands
  are proved against it and \<open>loadLibraryEx\<close> is its instance.
\<close>

section \<open>How the state grows\<close>

text \<open>The image \<open>i\<close> was loaded from a path.\<close>

definition loaded_from :: "images \<Rightarrow> string \<Rightarrow> image_id \<Rightarrow> bool" where
  "loaded_from ims path i \<longleftrightarrow> (\<exists>im. ims i = Some im \<and> fOrigFilePath im = Some path)"

lemma find_loaded_chain:
  "chain ims p xs \<Longrightarrow> find_loaded ims path p = Some (Inr (List.find (loaded_from ims path) xs))"
  by (induction p xs rule: chain.induct) (auto simp: find_loaded_Some loaded_from_def)
definition same_but_link :: "image \<Rightarrow> image \<Rightarrow> bool" where
  "same_but_link im im' \<longleftrightarrow> (\<exists>n. im' = im\<lparr>fNextImage := n\<rparr>)"

lemma same_but_link_refl [simp, intro]: "same_but_link im im"
  unfolding same_but_link_def by (rule exI [of _ "fNextImage im"]) simp

lemma same_but_link_update [simp, intro]: "same_but_link im (im\<lparr>fNextImage := n\<rparr>)"
  unfolding same_but_link_def by blast

lemma same_but_link_trans: "same_but_link a b \<Longrightarrow> same_but_link b c \<Longrightarrow> same_but_link a c"
  by (auto simp: same_but_link_def)

text \<open>The images of \<open>D\<close> change in nothing but their links.\<close>

definition grows :: "image_id set \<Rightarrow> lnk \<Rightarrow> lnk \<Rightarrow> bool" where
  "grows D st st' \<longleftrightarrow>
     sFirstImage st' = sFirstImage st \<and> sDylinker st' = sDylinker st \<and> l_next st \<le> l_next st' \<and>
     (\<forall>i\<in>D. \<forall>im. l_images st i = Some im \<longrightarrow>
        (\<exists>im'. l_images st' i = Some im' \<and> same_but_link im im'))"

lemma grows_refl [simp, intro]: "grows D st st"
  by (auto simp: grows_def)

lemma grows_trans: "grows D st st' \<Longrightarrow> grows D st' st'' \<Longrightarrow> grows D st st''"
  unfolding grows_def by (fastforce intro: same_but_link_trans)

lemma grows_mono: "grows D st st' \<Longrightarrow> E \<subseteq> D \<Longrightarrow> grows E st st'"
  by (auto simp: grows_def)

lemma loaded_from_grows:
  "grows D st st' \<Longrightarrow> i \<in> D \<Longrightarrow> loaded_from (l_images st) path i \<Longrightarrow> loaded_from (l_images st') path i"
  by (fastforce simp: grows_def loaded_from_def same_but_link_def)

section \<open>The chain of images\<close>

text \<open>
  The chain visits \<open>xs\<close>, the linker's own image is in it, the counter counts it, every object
  has a name below the next one, the dependencies of every image are in the chain and its
  re-exports among them, and no path is loaded twice.
\<close>

definition well_linked :: "image_id list \<Rightarrow> lnk \<Rightarrow> bool" where
  "well_linked xs st \<longleftrightarrow>
     chain (l_images st) (sFirstImage st) xs \<and> sDylinker st \<in> Some ` set xs \<and>
     sImageCount st = of_nat (length xs) \<and>
     (\<forall>i im. l_images st i = Some im \<longrightarrow> i < l_next st \<and> set (fDependencies im) \<subseteq> set xs \<and>
        set (fReExports im) \<subseteq> set (fDependencies im)) \<and>
     (\<forall>path. \<forall>i\<in>set xs. \<forall>j\<in>set xs.
        loaded_from (l_images st) path i \<and> loaded_from (l_images st) path j \<longrightarrow> i = j)"

lemma well_linked_unique: "well_linked xs st \<Longrightarrow> well_linked ys st \<Longrightarrow> xs = ys"
  by (auto simp: well_linked_def dest: chain_fun)

text \<open>Images may change in what the chain does not look at.\<close>

lemma well_linked_memory [simp]: "well_linked xs (st\<lparr>l_mem := m\<rparr>) = well_linked xs st"
  "grows D st (st'\<lparr>l_mem := m\<rparr>) = grows D st st'"
  "well_linked xs (linker_image_table_add a b c st) = well_linked xs st"
  "grows D st (linker_image_table_add a b c st') = grows D st st'"
  by (simp_all add: well_linked_def grows_def linker_image_table_add_def)

lemma well_linked_set_image:
  assumes "well_linked xs st" "l_images st i = Some im" "fNextImage im' = fNextImage im"
    "fOrigFilePath im' = fOrigFilePath im" "set (fDependencies im') \<subseteq> set xs"
    "set (fReExports im') \<subseteq> set (fDependencies im')"
  shows "well_linked xs (set_image i im' st)"
proof -
  from assms(1) have "chain (l_images st) (sFirstImage st) xs" by (simp add: well_linked_def)
  then have "chain ((l_images st)(i \<mapsto> im')) (sFirstImage st) xs"
    by (rule chain_links) (simp add: links_def assms(2,3))
  moreover have "loaded_from ((l_images st)(i \<mapsto> im')) = loaded_from (l_images st)"
    by (auto simp: fun_eq_iff loaded_from_def assms(2,4))
  ultimately show ?thesis using assms by (simp add: well_linked_def set_image_def)
qed

lemma grows_set_image: "i \<notin> D \<Longrightarrow> grows D st (set_image i im st)"
  by (auto simp: grows_def set_image_def)

text \<open>Putting a new image behind the first one.\<close>

lemma well_linked_insert:
  assumes wl: "well_linked xs st" and xs: "xs = f # ys"
    and new: "new_object im st = (i, st1)" and im: "fOrigFilePath im = Some path" "fDependencies im = []"
      "fReExports im = []"
    and fresh: "\<And>j. j \<in> set xs \<Longrightarrow> \<not> loaded_from (l_images st) path j"
    and add: "add_to_chain i st1 = Inr st2"
  shows "well_linked (f # i # ys) st2" "grows (dom (l_images st)) st st2" "i \<notin> dom (l_images st)"
    "loaded_from (l_images st2) path i" "dom (l_images st2) = insert i (dom (l_images st))"
    "\<exists>im'. l_images st2 i = Some im' \<and> same_but_link im im'"
proof -
  from wl have below: "j < l_next st" if "l_images st j = Some u" for j u
    using that by (auto simp: well_linked_def)
  from wl xs obtain first where first: "sFirstImage st = Some f" "l_images st f = Some first"
    "chain (l_images st) (fNextImage first) ys"
    by (auto simp: well_linked_def chain_Cons)
  from new have i: "i = l_next st" and st1: "st1 = st\<lparr>l_next := Suc (l_next st),
      l_images := (l_images st)(i \<mapsto> im)\<rparr>"
    by (auto simp: new_object_def set_image_def)
  from below [OF first(2)] i have fi: "f \<noteq> i" by simp
  let ?im = "im\<lparr>fNextImage := fNextImage first\<rparr>" and ?first = "first\<lparr>fNextImage := Some i\<rparr>"
  from add first fi have st2: "st2 = st1\<lparr>l_images := (l_images st)(i \<mapsto> ?im, f \<mapsto> ?first),
      sImageCount := sImageCount st + 1\<rparr>"
    by (simp add: add_to_chain_def on_image_def st1 set_image_def)
  from below i show new_id: "i \<notin> dom (l_images st)" by fastforce
  from new_id show "grows (dom (l_images st)) st st2"
    by (auto simp: grows_def st2 st1 first(2))
  show "dom (l_images st2) = insert i (dom (l_images st))"
    using first(2) by (auto simp: st2)
  show "\<exists>im'. l_images st2 i = Some im' \<and> same_but_link im im'"
    using fi by (simp add: st2 same_but_link_update)
  show "loaded_from (l_images st2) path i"
    using fi im(1) by (simp add: loaded_from_def st2)
  have paths: "loaded_from (l_images st2) p j \<longleftrightarrow> (if j = i then p = path else loaded_from (l_images st) p j)" for p j
    using fi im(1) by (auto simp: loaded_from_def st2 first(2))
  from wl xs have ys: "distinct (f # ys)" by (auto simp: well_linked_def dest: chain_distinct)
  from wl xs have "set xs \<subseteq> dom (l_images st)" by (auto simp: well_linked_def dest: chain_in_dom)
  with new_id xs have iys: "i \<notin> set ys" by auto
  from first(3) have "chain (l_images st2) (fNextImage first) ys"
    by (rule chain_links) (use ys iys in \<open>auto simp: links_def st2\<close>)
  then have "chain (l_images st2) (sFirstImage st2) (f # i # ys)"
    using fi first(1) by (auto simp: chain_Some st2 st1)
  note chain2 = this
  have count: "sDylinker st2 \<in> Some ` set (f # i # ys)" "sImageCount st2 = of_nat (length (f # i # ys))"
    using wl xs by (auto simp: well_linked_def st2 st1)
  have objects: "j < l_next st2 \<and> set (fDependencies u) \<subseteq> set (f # i # ys) \<and>
      set (fReExports u) \<subseteq> set (fDependencies u)" if j: "l_images st2 j = Some u" for j u
  proof -
    have old: "u < l_next st \<and> set (fDependencies v) \<subseteq> set xs \<and> set (fReExports v) \<subseteq> set (fDependencies v)"
      if "l_images st u = Some v" for u v
      using wl that by (simp add: well_linked_def)
    have deps: "set (fDependencies ?im) = {}" "set (fReExports ?im) = {}" using im by simp_all
    show ?thesis
    proof (cases "j = f")
      case True
      with j have u: "u = ?first" by (simp add: st2)
      from old [OF first(2)] True i show ?thesis by (auto simp: u xs st2 st1)
    next
      case False
      show ?thesis
      proof (cases "j = i")
        case True
        with False j have u: "u = ?im" by (simp add: st2)
        with True i deps show ?thesis by (simp add: st2 st1)
      next
        case ne: False
        with False j have "l_images st j = Some u" by (simp add: st2)
        from old [OF this] i show ?thesis by (auto simp: xs st2 st1)
      qed
    qed
  qed
  have unique: "a = b" if "a \<in> set (f # i # ys)" "b \<in> set (f # i # ys)"
      "loaded_from (l_images st2) p a" "loaded_from (l_images st2) p b" for p a b
  proof -
    have "a \<in> set xs \<or> a = i" "b \<in> set xs \<or> b = i" "i \<notin> set xs" using that xs new_id \<open>set xs \<subseteq> dom (l_images st)\<close> by auto
    with that fresh wl show ?thesis by (auto simp: paths well_linked_def split: if_splits)
  qed
  show "well_linked (f # i # ys) st2"
    unfolding well_linked_def using chain2 count
    by (intro conjI allI ballI impI) (simp_all only: objects, blast intro: unique)
qed

section \<open>Walking the load commands\<close>

definition keeps_links :: "image \<Rightarrow> image \<Rightarrow> bool" where
  "keeps_links im im' \<longleftrightarrow> fNextImage im' = fNextImage im \<and> fOrigFilePath im' = fOrigFilePath im \<and>
     fDependencies im' = fDependencies im \<and> fReExports im' = fReExports im"

lemma parse_command_keeps: "parse_command lc im p = Inr (im', p') \<Longrightarrow> keeps_links im im'"
  by (auto simp: parse_command_def parse_segment_def keeps_links_def Let_def
      split: load_command.splits if_splits)

lemma add_dependency_keeps:
  assumes "add_dependency kind dep im = Inr im'"
  obtains d where "dep = Some d" "fNextImage im' = fNextImage im" "fOrigFilePath im' = fOrigFilePath im"
    "fDependencies im' = fDependencies im @ [d]" "set (fReExports im') \<subseteq> insert d (set (fReExports im))"
  using assms by (auto simp: add_dependency_def Let_def subset_insertI split: option.splits if_splits)

text \<open>
  What a loader promises: the chain stays well linked and only grows, the images there were
  change in nothing but their links, and the image returned is in the chain.
\<close>

definition loads :: "lnk \<Rightarrow> image_id list \<Rightarrow> image_id option \<Rightarrow> lnk \<Rightarrow> bool" where
  "loads st xs r st' \<longleftrightarrow> (\<exists>ys. well_linked ys st' \<and> set xs \<subseteq> set ys \<and>
     grows (dom (l_images st)) st st' \<and> (\<exists>i\<in>set ys. r = Some i))"

lemma new_library_linked:
  assumes lib: "instantiateFromFile k nn path fl st = Inr (lib, st1)"
    and add: "add_to_chain lib st1 = Inr st2" and wl: "well_linked xs st"
    and new: "List.find (loaded_from (l_images st) path) xs = None"
  obtains zs im where "well_linked zs st2" "set xs \<subseteq> set zs" "lib \<in> set zs"
    "grows (dom (l_images st)) st st2" "dom (l_images st) \<subseteq> dom (l_images st2)"
    "lib \<notin> dom (l_images st)" "l_images st2 lib = Some im" "fOrigFilePath im = Some path"
    "dom (l_images st2) = insert lib (dom (l_images st))" "fSegmentLoadCommands im = []"
    "fDependencies im = []" "fReExports im = []"
proof -
  from lib obtain st0 im0 where obj: "new_object im0 st0 = (lib, st1)"
    and st0: "\<And>ys. well_linked ys st0 = well_linked ys st" "l_images st0 = l_images st"
      "\<And>D s. grows D st0 s = grows D st s"
    and im0: "fOrigFilePath im0 = Some path" "fDependencies im0 = []" "fReExports im0 = []"
      "fSegmentLoadCommands im0 = []"
    by (auto simp: instantiateFromFile_def Let_def new_image_def linker_image_table_add_def
        well_linked_def grows_def split: if_splits prod.splits)
  obtain f ys where xs: "xs = f # ys" using wl by (cases xs) (auto simp: well_linked_def)
  have fresh: "\<not> loaded_from (l_images st0) path j" if "j \<in> set xs" for j
    using new that by (simp add: find_None_iff st0(2))
  have wl0: "well_linked xs st0" using wl by (simp add: st0(1))
  note ins = well_linked_insert [OF wl0 xs obj im0(1-3) fresh add, unfolded st0]
  from ins(6) obtain im where im: "l_images st2 lib = Some im" "same_but_link im0 im" by blast
  with ins im0 show thesis
    by (intro that [of "f # lib # ys" im]) (auto simp: xs same_but_link_def)
qed

text \<open>The libraries that could still be loaded: each one loaded is one fewer.\<close>

definition pending :: "kernel \<Rightarrow> image_id list \<Rightarrow> lnk \<Rightarrow> string set" where
  "pending k xs st = {path. open_library k path \<noteq> None \<and>
     (\<forall>i\<in>set xs. \<not> loaded_from (l_images st) path i)}"

lemma pending_mono:
  assumes "well_linked xs st" "set xs \<subseteq> set ys" "grows (dom (l_images st) - {i}) st st'"
    "l_images st i = Some im" "l_images st' i = Some im'" "fOrigFilePath im' = fOrigFilePath im"
  shows "pending k ys st' \<subseteq> pending k xs st"
proof -
  have "loaded_from (l_images st') path j" if "loaded_from (l_images st) path j" for path j
  proof (cases "j = i")
    case True
    with that assms(4-6) show ?thesis by (simp add: loaded_from_def)
  next
    case False
    with that loaded_from_grows [OF assms(3), of j] show ?thesis by (auto simp: loaded_from_def)
  qed
  with assms(2) show ?thesis by (fastforce simp: pending_def)
qed

text \<open>A step that returns either leaves the state as it is or has loaded a new library.\<close>

lemma load_step_cases:
  assumes "load_step k load path st = Some (Inr ((r, al), st'))" "well_linked xs st"
  obtains (system) "path \<in> {LIBSYSTEM_PATH, LIBGCC_PATH}" "r = Some (hd xs)" "hd xs \<in> set xs" "st' = st"
    | (loaded) j where "j \<in> set xs" "loaded_from (l_images st) path j" "r = Some j" "al = Some True" "st' = st"
    | (missing) "open_library k path = None" "r = sDylinker st" "st' = st"
    | (new) nn fl lib st1 st2 st3 m where "path \<notin> {LIBSYSTEM_PATH, LIBGCC_PATH}"
        "List.find (loaded_from (l_images st) path) xs = None" "open_library k path = Some (nn, fl)"
        "instantiateFromFile k nn path fl st = Inr (lib, st1)" "add_to_chain lib st1 = Inr st2"
        "parseLoadCommands k load lib st2 = Some (Inr st3)" "r = Some lib" "st' = st3\<lparr>l_mem := m\<rparr>"
        "al = Some False"
proof -
  have first: "sFirstImage st = Some (hd xs) \<and> hd xs \<in> set xs"
    using assms(2) by (cases xs) (auto simp: well_linked_def chain_Cons)
  have find: "find_loaded (l_images st) path (sFirstImage st) =
      Some (Inr (List.find (loaded_from (l_images st) path) xs))"
    using assms(2) by (auto simp: well_linked_def intro: find_loaded_chain)
  note step = assms(1) [unfolded load_step_def find run_loop_simps bindO_simps]
  show thesis
  proof (cases "path \<in> {LIBSYSTEM_PATH, LIBGCC_PATH}")
    case True
    with step first show thesis by (intro system) auto
  next
    case False
    then have if_False: "(path = LIBSYSTEM_PATH \<or> path = LIBGCC_PATH) = False" by blast
    note step = step [unfolded if_False if_False HOL.if_False]
    show thesis
    proof (cases "List.find (loaded_from (l_images st) path) xs")
      case (Some j)
      from Some have "j \<in> set xs" "loaded_from (l_images st) path j" by (auto simp: find_Some_iff)
      moreover from step Some have "r = Some j" "al = Some True" "st' = st" by simp_all
      ultimately show thesis by (rule loaded)
    next
      case None
      note step = step [unfolded None option.case]
      show thesis
      proof (cases "open_library k path")
        case None
        moreover from step None have "r = sDylinker st" "st' = st" by auto
        ultimately show thesis by (rule missing)
      next
        case (Some q)
        obtain nn fl where q: "q = (nn, fl)" by force
        note step = step [unfolded Some q option.case prod.case]
        from step obtain lib st1 st2 st3 m where "instantiateFromFile k nn path fl st = Inr (lib, st1)"
          "add_to_chain lib st1 = Inr st2" "parseLoadCommands k load lib st2 = Some (Inr st3)"
          "r = Some lib" "st' = st3\<lparr>l_mem := m\<rparr>" "al = Some False"
          by auto
        then show thesis by (rule new [OF False None Some [unfolded q]])
      qed
    qed
  qed
qed

locale library_loader =
  fixes load :: loader
  assumes load_keeps:
    "load path st = Some (Inr ((r, al), st')) \<Longrightarrow> well_linked xs st \<Longrightarrow> loads st xs r st'"
begin

lemma parse_one_keeps:
  assumes "parse_one load lc i p st = Some (Inr (p', st'))" "well_linked xs st"
    "l_images st i = Some im" "D \<subseteq> dom (l_images st)" "i \<notin> D"
  shows "\<exists>ys im'. well_linked ys st' \<and> set xs \<subseteq> set ys \<and> grows D st st' \<and>
    l_images st' i = Some im' \<and> fOrigFilePath im' = fOrigFilePath im"
proof -
  have step: ?thesis
    if st1: "well_linked ys st1" "set xs \<subseteq> set ys" "grows D st st1"
      and im1: "l_images st1 i = Some im1" "fOrigFilePath im1 = fOrigFilePath im"
      and im2: "fNextImage im2 = fNextImage im1" "fOrigFilePath im2 = fOrigFilePath im1"
        "set (fDependencies im2) \<subseteq> set ys" "set (fReExports im2) \<subseteq> set (fDependencies im2)"
      and st': "st' = set_image i im2 st1"
    for im2 st1 ys im1
    using well_linked_set_image [OF st1(1) im1(1) im2] st1(2) im1(2) im2(2)
      grows_trans [OF st1(3) grows_set_image [OF assms(5), of st1 im2]]
    unfolding st' by (intro exI [of _ ys] exI [of _ im2]) (simp add: set_image_def)
  have deps: "set (fDependencies im) \<subseteq> set xs" "set (fReExports im) \<subseteq> set (fDependencies im)"
    using assms(2,3) by (auto simp: well_linked_def)
  show ?thesis
  proof (cases "\<exists>kind name. lc = LC_DYLIB kind name")
    case True
    then obtain kind name where lc: "lc = LC_DYLIB kind name" by blast
    from assms(1) obtain dep al st1 im1 im2 where ld: "load name st = Some (Inr ((dep, al), st1))"
      and im1: "l_images st1 i = Some im1" and im2: "add_dependency kind dep im1 = Inr im2"
      and st': "st' = set_image i im2 st1"
      by (auto simp: lc parse_one_def)
    from load_keeps [OF ld assms(2)] obtain ys d where ys: "well_linked ys st1" "set xs \<subseteq> set ys"
      "grows (dom (l_images st)) st st1" "d \<in> set ys" "dep = Some d"
      by (auto simp: loads_def)
    from add_dependency_keeps [OF im2] ys(5) have im2':
      "fNextImage im2 = fNextImage im1" "fOrigFilePath im2 = fOrigFilePath im1"
      "fDependencies im2 = fDependencies im1 @ [d]" "set (fReExports im2) \<subseteq> insert d (set (fReExports im1))"
      by auto
    from ys(3) assms(3) im1 have "same_but_link im im1" by (fastforce simp: grows_def)
    then have im1': "fOrigFilePath im1 = fOrigFilePath im" by (auto simp: same_but_link_def)
    from ys(1) im1 have "set (fDependencies im1) \<subseteq> set ys" "set (fReExports im1) \<subseteq> set (fDependencies im1)"
      by (auto simp: well_linked_def)
    then have "set (fDependencies im2) \<subseteq> set ys" "set (fReExports im2) \<subseteq> set (fDependencies im2)"
      using im2'(3,4) ys(4) by auto
    with step [OF ys(1,2) grows_mono [OF ys(3) assms(4)] im1 im1' im2'(1,2) _ _ st'] show ?thesis by blast
  next
    case False
    with assms(1,3) obtain im2 p2 where im2: "parse_command lc im p = Inr (im2, p2)"
      and st': "st' = set_image i im2 st"
      by (auto simp: parse_one_def split: load_command.splits)
    from parse_command_keeps [OF im2] have "keeps_links im im2" .
    with step [OF assms(2) _ _ assms(3) _ _ _ _ _ st'] deps show ?thesis by (auto simp: keeps_links_def)
  qed
qed

lemma parse_loop_keeps:
  assumes "parse_loop load lcs i p st = Some (Inr (p', st'))" "well_linked xs st"
    "l_images st i = Some im" "D \<subseteq> dom (l_images st)" "i \<notin> D"
  shows "\<exists>ys im'. well_linked ys st' \<and> set xs \<subseteq> set ys \<and> grows D st st' \<and>
    l_images st' i = Some im' \<and> fOrigFilePath im' = fOrigFilePath im"
  using assms
proof (induction lcs arbitrary: p st xs im)
  case (Cons lc lcs)
  then obtain p1 st1 where one: "parse_one load lc i p st = Some (Inr (p1, st1))"
    and rest: "parse_loop load lcs i p1 st1 = Some (Inr (p', st'))"
    by auto
  from parse_one_keeps [OF one Cons.prems(2-)] obtain ys im1 where ys: "well_linked ys st1"
    "set xs \<subseteq> set ys" "grows D st st1" "l_images st1 i = Some im1" "fOrigFilePath im1 = fOrigFilePath im"
    by blast
  have "D \<subseteq> dom (l_images st1)" using ys(3) Cons.prems(4) by (fastforce simp: grows_def)
  from Cons.IH [OF rest ys(1,4) this Cons.prems(5)] ys grows_trans [OF ys(3)] show ?case
    by (metis subset_trans)
qed auto

lemma finish_parse_keeps:
  assumes "finish_parse k i p st = Inr st'" "well_linked xs st" "l_images st i = Some im" "i \<notin> D"
  shows "well_linked xs st' \<and> grows D st st' \<and> (\<exists>im'. l_images st' i = Some im' \<and> fOrigFilePath im' = fOrigFilePath im)"
proof -
  from assms(1,3) obtain im' m where st': "st' = set_image i im' (st\<lparr>l_mem := m\<rparr>)" and im': "keeps_links im im'"
    by (auto simp: finish_parse_def keeps_links_def Let_def split: if_splits)
  have "set (fDependencies im) \<subseteq> set xs" "set (fReExports im) \<subseteq> set (fDependencies im)"
    using assms(2,3) by (auto simp: well_linked_def)
  then have "well_linked xs st'" unfolding st'
    using assms(2,3) im' by (intro well_linked_set_image [where im = im]) (auto simp: keeps_links_def)
  moreover have "grows D st st'" unfolding st'
    by (rule grows_trans [of _ _ "st\<lparr>l_mem := m\<rparr>"]) (simp_all add: grows_set_image assms(4))
  ultimately show ?thesis using im' by (simp add: st' set_image_def keeps_links_def)
qed

lemma parseLoadCommands_keeps:
  assumes "parseLoadCommands k load i st = Some (Inr st')" "well_linked xs st"
    "l_images st i = Some im" "D \<subseteq> dom (l_images st)" "i \<notin> D"
  shows "\<exists>ys im'. well_linked ys st' \<and> set xs \<subseteq> set ys \<and> grows D st st' \<and>
    l_images st' i = Some im' \<and> fOrigFilePath im' = fOrigFilePath im"
proof -
  from assms(1,3) obtain p q st1 where loop: "parse_loop load (fCommands im) i q st = Some (Inr (p, st1))"
    and fin: "finish_parse k i p st1 = Inr st'"
    by (auto simp: parseLoadCommands_def split: if_splits)
  from parse_loop_keeps [OF loop assms(2-)] obtain ys im1 where ys: "well_linked ys st1" "set xs \<subseteq> set ys"
    "grows D st st1" "l_images st1 i = Some im1" "fOrigFilePath im1 = fOrigFilePath im" by blast
  from finish_parse_keeps [OF fin ys(1,4) assms(5)] ys show ?thesis
    by (metis grows_trans)
qed


lemma load_step_keeps:
  assumes "load_step k load path st = Some (Inr ((r, al), st'))" "well_linked xs st"
  shows "loads st xs r st' \<and>
    (path \<notin> {LIBSYSTEM_PATH, LIBGCC_PATH} \<and> open_library k path \<noteq> None \<longrightarrow>
     (\<exists>i. r = Some i \<and> loaded_from (l_images st') path i))"
proof -
  have stays: "loads st xs (Some j) st" if "j \<in> set xs" for j
    using that assms(2) by (auto simp: loads_def)
  from assms show ?thesis
  proof (cases rule: load_step_cases)
    case missing
    with stays assms(2) show ?thesis by (auto simp: well_linked_def)
  next
    case (new nn fl lib st1 st2 st3 m)
    note r = new(7,8)
    from new_library_linked [OF new(4,5) assms(2) new(2)] obtain ys im2 where
      ys: "well_linked ys st2" "set xs \<subseteq> set ys" "lib \<in> set ys" "grows (dom (l_images st)) st st2"
        "dom (l_images st) \<subseteq> dom (l_images st2)" "lib \<notin> dom (l_images st)"
        "l_images st2 lib = Some im2" "fOrigFilePath im2 = Some path" .
    from parseLoadCommands_keeps [OF new(6) ys(1,7,5,6)] obtain zs im' where
      zs: "well_linked zs st3" "set ys \<subseteq> set zs" "grows (dom (l_images st)) st2 st3"
        "l_images st3 lib = Some im'" "fOrigFilePath im' = Some path"
      using ys(8) by auto
    have "loads st xs r st'"
      unfolding loads_def r(2) using zs(1,2) ys(2,3) r(1) grows_trans [OF ys(4) zs(3)]
      by (intro exI [of _ zs]) auto
    moreover have "loaded_from (l_images st') path lib" using zs(4,5) by (simp add: r(2) loaded_from_def)
    ultimately show ?thesis using r(1) by blast
  qed (use stays in auto)
qed

lemma parse_loop_returns:
  assumes "\<And>path st xs. well_linked xs st \<Longrightarrow> pending k xs st \<subseteq> P \<Longrightarrow> load path st \<noteq> None"
    "well_linked xs st" "l_images st i = Some im" "pending k xs st \<subseteq> P"
  shows "parse_loop load lcs i p st \<noteq> None"
  using assms(2-)
proof (induction lcs arbitrary: p st xs im)
  case (Cons lc lcs)
  have "parse_one load lc i p st \<noteq> None"
  proof (cases "\<exists>kind name. lc = LC_DYLIB kind name")
    case True
    then obtain kind name where lc: "lc = LC_DYLIB kind name" by blast
    from assms(1) [OF Cons.prems(1,3), of name] show ?thesis
      by (auto simp: parse_one_def lc bindO_def split: sum.splits)
  next
    case False
    then show ?thesis by (auto simp: parse_one_def bindO_def split: load_command.splits sum.splits)
  qed
  then obtain r where r: "parse_one load lc i p st = Some r" by blast
  show ?case
  proof (cases r)
    case (Inr q)
    obtain p1 st1 where q: "q = (p1, st1)" by force
    from parse_one_keeps [OF r [unfolded Inr q] Cons.prems(1,2), of "dom (l_images st) - {i}"]
    obtain ys im' where ys: "well_linked ys st1" "set xs \<subseteq> set ys" "grows (dom (l_images st) - {i}) st st1"
      "l_images st1 i = Some im'" "fOrigFilePath im' = fOrigFilePath im" by blast
    from pending_mono [OF Cons.prems(1) ys(2,3) Cons.prems(2) ys(4,5)] Cons.prems(3)
    have "pending k ys st1 \<subseteq> P" by blast
    from Cons.IH [OF ys(1,4) this] r Inr q show ?thesis by simp
  qed (simp add: r)
qed simp

lemma load_step_returns:
  assumes "\<And>q st' ys. path \<in> pending k xs st \<Longrightarrow> well_linked ys st' \<Longrightarrow>
      pending k ys st' \<subseteq> pending k xs st - {path} \<Longrightarrow> load q st' \<noteq> None"
    "well_linked xs st"
  shows "load_step k load path st \<noteq> None"
proof -
  have find: "find_loaded (l_images st) path (sFirstImage st) =
      Some (Inr (List.find (loaded_from (l_images st) path) xs))"
    using assms(2) by (auto simp: well_linked_def intro: find_loaded_chain)
  have parsed: "parseLoadCommands k load lib st2 \<noteq> None"
    if found: "List.find (loaded_from (l_images st) path) xs = None" "open_library k path = Some (nn, fl)"
      and lib: "instantiateFromFile k nn path fl st = Inr (lib, st1)" "add_to_chain lib st1 = Inr st2"
    for nn fl lib st1 st2
  proof -
    from new_library_linked [OF lib assms(2) found(1)] obtain ys im2 where
      ys: "well_linked ys st2" "set xs \<subseteq> set ys" "lib \<in> set ys" "grows (dom (l_images st)) st st2"
        "dom (l_images st) \<subseteq> dom (l_images st2)" "lib \<notin> dom (l_images st)"
        "l_images st2 lib = Some im2" "fOrigFilePath im2 = Some path" .
    have "loaded_from (l_images st2) q j" if "loaded_from (l_images st) q j" for q j
      using loaded_from_grows [OF ys(4), of j] that by (auto simp: loaded_from_def)
    moreover have "loaded_from (l_images st2) path lib" using ys(7,8) by (simp add: loaded_from_def)
    ultimately have "pending k ys st2 \<subseteq> pending k xs st - {path}"
      using ys(2,3) unfolding pending_def by blast
    note sub = this
    have "path \<in> pending k xs st" using found by (auto simp: pending_def find_None_iff)
    note calls = assms(1) [OF this]
    have "parse_loop load (fCommands im2) lib q st2 \<noteq> None" for q
      by (rule parse_loop_returns [OF calls ys(1,7) sub])
    then show ?thesis by (simp add: parseLoadCommands_def ys(7) bindO_eq_None_iff split_paired_all del: not_None_eq)
  qed
  show ?thesis
  proof (cases "open_library k path")
    case None
    with find show ?thesis by (auto simp: load_step_def split: option.splits)
  next
    case (Some q)
    obtain nn fl where q: "q = (nn, fl)" by force
    show ?thesis
    proof (cases "List.find (loaded_from (l_images st) path) xs")
      case None
      have step: "load_step k load path st =
        (if path = LIBSYSTEM_PATH \<or> path = LIBGCC_PATH then Some (Inr ((sFirstImage st, None), st))
         else bindO (Some (instantiateFromFile k nn path fl st)) (\<lambda>(lib, st).
              bindO (Some (add_to_chain lib st)) (\<lambda>st.
              bindO (parseLoadCommands k load lib st) (\<lambda>st.
              bindO (Some (image_of (l_images st) lib)) (\<lambda>im.
              bindO (Some (doRebase im (l_mem st))) (\<lambda>m.
                Some (Inr ((Some lib, Some False), st\<lparr>l_mem := m\<rparr>))))))))"
        unfolding load_step_def find None run_loop_simps bindO_simps option.case Some q prod.case ..
      show ?thesis
        using parsed [OF None Some [unfolded q]]
        by (simp add: step bindO_eq_None_iff split_paired_all del: bindO_simps not_None_eq)
    next
      case (Some j)
      with find show ?thesis by (simp add: load_step_def)
    qed
  qed
qed

end


section \<open>What parsing leaves in an image\<close>

definition well_parsed :: "image \<Rightarrow> bool" where
  "well_parsed im \<longleftrightarrow> fSegmentLoadCommands im = file_segments (fCommands im) \<and>
     fSegmentsCount im = length (fSegmentLoadCommands im) \<and> fSegmentsCount im \<le> 64 \<and>
     length (fDependencies im) \<le> 128 \<and> length (fReExports im) \<le> 128"

definition parsing :: "image \<Rightarrow> parse \<Rightarrow> load_command list \<Rightarrow> bool" where
  "parsing im p lcs \<longleftrightarrow> (\<exists>walked. fCommands im = walked @ lcs \<and>
     fSegmentLoadCommands im = file_segments walked) \<and>
     p_segCount p = length (fSegmentLoadCommands im) \<and> p_segCount p \<le> 64 \<and>
     length (fDependencies im) \<le> 128 \<and> length (fReExports im) \<le> 128"

lemma file_segments_simps: "file_segments [] = []"
  "file_segments (xs @ ys) = file_segments xs @ file_segments ys"
  "file_segments [lc] = (case lc of LC_SEGMENT seg \<Rightarrow> [seg] | _ \<Rightarrow> [])"
  by (simp_all add: file_segments_def)

lemma well_parsed_same_but_link: "same_but_link im im' \<Longrightarrow> well_parsed im' = well_parsed im"
  by (auto simp: same_but_link_def well_parsed_def)

lemma parsing_command:
  assumes "parsing im p (lc # lcs)" "parse_command lc im p = Inr (im', p')" "\<And>k n. lc \<noteq> LC_DYLIB k n"
  shows "parsing im' p' lcs"
proof -
  from assms(1) obtain walked where w: "fCommands im = (walked @ [lc]) @ lcs"
    "fSegmentLoadCommands im = file_segments walked" by (auto simp: parsing_def)
  have "fCommands im' = fCommands im" "fDependencies im' = fDependencies im" "fReExports im' = fReExports im"
    "fSegmentLoadCommands im' = fSegmentLoadCommands im @ file_segments [lc] \<and>
       p_segCount p' = p_segCount p + length (file_segments [lc]) \<and> p_segCount p' \<le> 64"
    using assms by (auto simp: parsing_def parse_command_def parse_segment_def Let_def file_segments_simps
        split: load_command.splits if_splits)
  with assms(1) w show ?thesis
    unfolding parsing_def by (intro conjI exI [of _ "walked @ [lc]"]) (simp_all add: file_segments_simps)
qed

lemma parsing_dependency:
  assumes "parsing im p (LC_DYLIB kind name # lcs)" "add_dependency kind dep im = Inr im'"
  shows "parsing im' p lcs"
proof -
  from assms(1) obtain walked where w: "fCommands im = (walked @ [LC_DYLIB kind name]) @ lcs"
    "fSegmentLoadCommands im = file_segments walked" by (auto simp: parsing_def)
  have "fCommands im' = fCommands im" "fSegmentLoadCommands im' = fSegmentLoadCommands im"
    "length (fDependencies im') \<le> 128" "length (fReExports im') \<le> 128"
    using assms by (auto simp: parsing_def add_dependency_def Let_def split: option.splits if_splits)
  with assms(1) w show ?thesis
    unfolding parsing_def
    by (intro conjI exI [of _ "walked @ [LC_DYLIB kind name]"]) (simp_all add: file_segments_simps)
qed

lemma parsing_same_but_link: "same_but_link im im' \<Longrightarrow> parsing im' p lcs = parsing im p lcs"
  by (auto simp: same_but_link_def parsing_def)

text \<open>Every image that is not in \<open>D\<close> has been parsed.\<close>

definition parsed_beyond :: "image_id set \<Rightarrow> lnk \<Rightarrow> bool" where
  "parsed_beyond D st \<longleftrightarrow> (\<forall>j im. j \<notin> D \<longrightarrow> l_images st j = Some im \<longrightarrow> well_parsed im)"

lemma parsed_beyond_set_image: "i \<in> D \<Longrightarrow> parsed_beyond D (set_image i im st) = parsed_beyond D st"
  by (auto simp: parsed_beyond_def set_image_def)

lemma parsed_beyond_memory [simp]: "parsed_beyond D (st\<lparr>l_mem := m\<rparr>) = parsed_beyond D st"
  by (simp add: parsed_beyond_def)

lemma parsed_beyond_grows:
  assumes "parsed_beyond D st" "grows (dom (l_images st)) st st'" "parsed_beyond (dom (l_images st)) st'"
  shows "parsed_beyond D st'"
  unfolding parsed_beyond_def
proof (intro allI impI)
  fix j im assume j: "j \<notin> D" "l_images st' j = Some im"
  show "well_parsed im"
  proof (cases "l_images st j")
    case None
    with assms(3) j show ?thesis by (auto simp: parsed_beyond_def)
  next
    case (Some im0)
    with assms(1) j have "well_parsed im0" by (auto simp: parsed_beyond_def)
    moreover from assms(2) Some j(2) have "same_but_link im0 im" by (fastforce simp: grows_def)
    ultimately show ?thesis by (simp add: well_parsed_same_but_link)
  qed
qed

locale parsing_loader = library_loader +
  assumes load_parses:
    "load path st = Some (Inr ((r, al), st')) \<Longrightarrow> well_linked xs st \<Longrightarrow>
      parsed_beyond (dom (l_images st)) st'"
begin

lemma parse_one_parses:
  assumes one: "parse_one load lc i p st = Some (Inr (p', st'))" and "well_linked xs st"
    and im: "l_images st i = Some im" "parsing im p (lc # lcs)" and D: "parsed_beyond D st" "i \<in> D"
  shows "\<exists>im'. l_images st' i = Some im' \<and> parsing im' p' lcs \<and> parsed_beyond D st'"
proof (cases "\<exists>kind name. lc = LC_DYLIB kind name")
  case True
  then obtain kind name where lc: "lc = LC_DYLIB kind name" by blast
  from one obtain dep al st1 im1 im2 where ld: "load name st = Some (Inr ((dep, al), st1))"
    and im1: "l_images st1 i = Some im1" and im2: "add_dependency kind dep im1 = Inr im2"
    and st': "st' = set_image i im2 st1" "p' = p"
    by (auto simp: lc parse_one_def)
  from load_keeps [OF ld assms(2)] have gr: "grows (dom (l_images st)) st st1" by (auto simp: loads_def)
  with im im1 have "same_but_link im im1" by (fastforce simp: grows_def)
  with im(2) have "parsing im1 p (LC_DYLIB kind name # lcs)" by (simp add: lc parsing_same_but_link)
  from parsing_dependency [OF this im2] show ?thesis
    using parsed_beyond_grows [OF D(1) gr load_parses [OF ld assms(2)]] D(2)
    by (simp add: st' set_image_def [of i im2] parsed_beyond_def)
next
  case False
  with one im(1) obtain im2 where im2: "parse_command lc im p = Inr (im2, p')"
    and st': "st' = set_image i im2 st"
    by (auto simp: parse_one_def split: load_command.splits)
  from parsing_command [OF im(2) im2] False D show ?thesis
    by (simp add: st' parsed_beyond_set_image) (simp add: set_image_def)
qed

lemma parse_loop_parses:
  assumes "parse_loop load lcs i p st = Some (Inr (p', st'))" "well_linked xs st"
    "l_images st i = Some im" "parsing im p lcs" "parsed_beyond D st" "i \<in> D"
  shows "\<exists>im'. l_images st' i = Some im' \<and> parsing im' p' [] \<and> parsed_beyond D st'"
  using assms
proof (induction lcs arbitrary: p st xs im)
  case (Cons lc lcs)
  then obtain p1 st1 where one: "parse_one load lc i p st = Some (Inr (p1, st1))"
    and rest: "parse_loop load lcs i p1 st1 = Some (Inr (p', st'))"
    by auto
  from parse_one_keeps [OF one Cons.prems(2,3), of "{}"] obtain ys where "well_linked ys st1" by auto
  with parse_one_parses [OF one Cons.prems(2-)] Cons.IH [OF rest] Cons.prems(6) show ?case by blast
qed auto

lemma parseLoadCommands_parses:
  assumes "parseLoadCommands k load i st = Some (Inr st')" "well_linked xs st"
    "l_images st i = Some im" "fSegmentLoadCommands im = []" "fDependencies im = []" "fReExports im = []"
    "parsed_beyond D st" "i \<in> D"
  shows "parsed_beyond (D - {i}) st'"
proof -
  from assms(1,3) obtain p q st1 where loop: "parse_loop load (fCommands im) i q st = Some (Inr (p, st1))"
    and fin: "finish_parse k i p st1 = Inr st'" and q: "p_segCount q = 0"
    by (auto simp: parseLoadCommands_def split: if_splits)
  have "parsing im q (fCommands im)" using assms(4-6) q by (simp add: parsing_def file_segments_simps)
  from parse_loop_parses [OF loop assms(2,3) this assms(7,8)] obtain im1 where
    im1: "l_images st1 i = Some im1" "parsing im1 p []" "parsed_beyond D st1" by blast
  from fin im1(1,2) obtain im2 m where st': "st' = set_image i im2 (st1\<lparr>l_mem := m\<rparr>)" and "well_parsed im2"
    by (auto simp: finish_parse_def well_parsed_def parsing_def Let_def split: if_splits)
  with im1(3) show ?thesis by (auto simp: parsed_beyond_def set_image_def)
qed

lemma load_step_parses:
  assumes "load_step k load path st = Some (Inr ((r, al), st'))" "well_linked xs st"
  shows "parsed_beyond (dom (l_images st)) st'"
  using assms
proof (cases rule: load_step_cases)
  case (new nn fl lib st1 st2 st3 m)
  from new_library_linked [OF new(4,5) assms(2) new(2)] obtain ys im2 where
    ys: "well_linked ys st2" "l_images st2 lib = Some im2" "lib \<notin> dom (l_images st)"
      "dom (l_images st2) = insert lib (dom (l_images st))"
      "fSegmentLoadCommands im2 = []" "fDependencies im2 = []" "fReExports im2 = []" .
  have "parsed_beyond (insert lib (dom (l_images st))) st2"
    using ys(4) by (auto simp: parsed_beyond_def)
  from parseLoadCommands_parses [OF new(6) ys(1,2,5-7) this] ys(3) show ?thesis by (simp add: new(8))
qed (auto simp: parsed_beyond_def)

end

section \<open>The loader\<close>

interpretation loadEx: library_loader "loadLibraryEx k fuel" for k fuel
proof (unfold_locales, induction fuel)
  case (Suc fuel)
  have "library_loader (loadLibraryEx k fuel)" by unfold_locales (rule Suc.IH)
  from library_loader.load_step_keeps [OF this] Suc.prems show ?case by simp
qed simp

interpretation parseEx: parsing_loader "loadLibraryEx k fuel" for k fuel
proof (unfold_locales, induction fuel)
  case (Suc fuel)
  have "parsing_loader (loadLibraryEx k fuel)" by unfold_locales (rule Suc.IH)
  from parsing_loader.load_step_parses [OF this] Suc.prems show ?case by simp
qed simp

lemma loadLibraryEx_enough_fuel:
  assumes "finite {p. open_library k p \<noteq> None}" "well_linked xs st" "card (pending k xs st) < fuel"
  shows "loadLibraryEx k fuel path st \<noteq> None"
  using assms(2,3)
proof (induction fuel arbitrary: path xs st)
  case (Suc fuel)
  have fin: "finite (pending k ys s)" for ys s
    by (rule finite_subset [OF _ assms(1)]) (auto simp: pending_def)
  have "loadLibraryEx k fuel q st' \<noteq> None"
    if "path \<in> pending k xs st" "well_linked ys st'" "pending k ys st' \<subseteq> pending k xs st - {path}" for q st' ys
  proof (rule Suc.IH [OF that(2)])
    have "card (pending k ys st') \<le> card (pending k xs st - {path})" by (rule card_mono) (use fin that in auto)
    also have "\<dots> < card (pending k xs st)" by (rule card_Diff1_less [OF fin that(1)])
    finally show "card (pending k ys st') < fuel" using Suc.prems(2) by simp
  qed
  from loadEx.load_step_returns [OF this Suc.prems(1)] show ?case by simp
qed simp

lemma load_again:
  assumes "well_linked ys st" "i \<in> set ys" "loaded_from (l_images st) path i"
    "path \<notin> {LIBSYSTEM_PATH, LIBGCC_PATH}"
  shows "loadLibraryEx k (Suc fuel) path st = Some (Inr ((Some i, Some True), st))"
proof -
  have "List.find (loaded_from (l_images st) path) ys = Some i"
  proof (cases "List.find (loaded_from (l_images st) path) ys")
    case None
    with assms(2,3) show ?thesis by (auto simp: find_None_iff)
  next
    case (Some j)
    then have "j \<in> set ys" "loaded_from (l_images st) path j" by (auto simp: find_Some_iff)
    with assms(1-3) Some show ?thesis by (auto simp: well_linked_def)
  qed
  moreover have "find_loaded (l_images st) path (sFirstImage st) =
      Some (Inr (List.find (loaded_from (l_images st) path) ys))"
    using assms(1) by (auto simp: well_linked_def intro: find_loaded_chain)
  ultimately show ?thesis using assms(4) by (simp add: load_step_def)
qed

section \<open>Two libraries that need each other\<close>

text \<open>
  \<open>/a\<close> and \<open>/b\<close> depend on each other; both have their one segment at a fixed address and no
  compressed information. The linker's own image, the object 0, is the chain at the start.
\<close>

definition example_file :: "u32 \<Rightarrow> string \<Rightarrow> macho_file" where
  "example_file addr dep = \<lparr>f_magic = 0xFEEDFACE, f_commands =
     [LC_SEGMENT \<lparr>segname = ''__TEXT'', vmaddr = addr, vmsize = 0x1000, fileoff = 0,
        filesize = 0x1000, initprot = 5, sections = []\<rparr>, LC_DYLIB LoadDylib dep]\<rparr>"

definition example_kernel :: kernel where
  "example_kernel = \<lparr>k_open = [''/a'' \<mapsto> example_file 0x10000 ''/b'', ''/b'' \<mapsto> example_file 0x20000 ''/a''],
     k_reserve = (\<lambda>n m. (0, m)), k_wire = (\<lambda>file a n off m. m), k_wire_anon = (\<lambda>a n m. m),
     k_compressed = (\<lambda>i. False), k_environ = 0, k_call = (\<lambda>f m. Inr m)\<rparr>"

definition example_start :: lnk where
  "example_start = \<lparr>l_images = [0 \<mapsto> new_image], l_next = 1, sFirstImage = Some 0,
     sDylinker = Some 0, sMainExecutable = None, sImageCount = 1, sUnresolvedCount = 0,
     sAuxLibs = [], l_table = [], l_mem = (\<lambda>a. None), l_calls = []\<rparr>"

lemma example_start_well_linked: "well_linked [0] example_start"
  by (auto simp: well_linked_def example_start_def chain_Some new_image_def split: if_splits)

lemma example_open: "open_library example_kernel ''/a'' = Some (''/a'', example_file 0x10000 ''/b'')"
  "open_library example_kernel ''/b'' = Some (''/b'', example_file 0x20000 ''/a'')"
  by (simp_all add: open_library_def openWithPrefix_def example_kernel_def)

lemma example_opens: "finite {p. open_library example_kernel p \<noteq> None}"
proof (rule finite_subset)
  show "{p. open_library example_kernel p \<noteq> None} \<subseteq> {''/a'', ''/b''}"
    by (auto simp: open_library_def openWithPrefix_def example_kernel_def split: if_splits)
qed simp

lemmas load_defs = load_step_def instantiateFromFile_def file_segments_def map_segment_def
  add_to_chain_def parseLoadCommands_def parse_one_def parse_command_def parse_segment_def
  add_dependency_def finish_parse_def processSections_def new_object_def set_image_def
  on_image_def linker_image_table_add_def doRebase_def 

lemma example_fields: "k_compressed example_kernel i = False" "k_wire example_kernel f a n off m = m"
    "k_wire_anon example_kernel a n m = m"
  by (simp_all add: example_kernel_def)

lemma example_loads: "\<exists>st'. loadLibraryEx example_kernel 3 ''/a'' example_start = Some (Inr ((Some 1, Some False), st'))"
  by (simp add: numeral_3_eq_3 load_defs example_open find_loaded_Some example_start_def example_file_def new_image_def
    example_fields Let_def segLoadCmd_def)

section \<open>Properties\<close>

text \<open>
  C25: Loading a library keeps the chain of images well linked: afterwards the chain reaches
  every image it reached before and the one that was returned, each once and none loaded from
  the same path as another, the counter counts it, all dependencies are inside it, and the
  images that were there differ in nothing but their links.
\<close>

theorem loading_keeps_chain:
  assumes "loadLibraryEx k fuel path st = Some (Inr ((r, al), st'))" "well_linked xs st"
  shows "\<exists>ys. well_linked ys st' \<and> distinct ys \<and> set xs \<subseteq> set ys \<and> (\<exists>i\<in>set ys. r = Some i) \<and>
    (\<forall>i im. l_images st i = Some im \<longrightarrow> (\<exists>n. l_images st' i = Some (im\<lparr>fNextImage := n\<rparr>)))"
proof -
  from loadEx.load_keeps [OF assms] obtain ys where ys: "well_linked ys st'" "set xs \<subseteq> set ys"
    "grows (dom (l_images st)) st st'" "\<exists>i\<in>set ys. r = Some i"
    by (auto simp: loads_def)
  have "distinct ys" using ys(1) by (auto simp: well_linked_def dest: chain_distinct)
  moreover have "\<exists>n. l_images st' i = Some (im\<lparr>fNextImage := n\<rparr>)" if "l_images st i = Some im" for i im
    using ys(3) that unfolding grows_def same_but_link_def by (metis domIff option.distinct(1))
  ultimately show ?thesis using ys by blast
qed

lemma loading_keeps_chain_witness: "\<exists>st' ys. loadLibraryEx example_kernel 3 ''/a'' example_start =
    Some (Inr ((Some 1, Some False), st')) \<and> well_linked ys st' \<and> 0 \<in> set ys \<and> 1 \<in> set ys"
  using example_loads loading_keeps_chain [OF _ example_start_well_linked] by fastforce

text \<open>
  C26: A library that was loaded is not loaded again: asking for the same path returns the
  same image, says that it was loaded already, and leaves the linker as it is.
\<close>

theorem load_twice:
  assumes "loadLibraryEx k fuel path st = Some (Inr ((r, al), st'))" "well_linked xs st"
    "path \<noteq> ''/usr/lib/libSystem.B.dylib''" "path \<noteq> ''/usr/lib/libgcc_s.1.dylib''"
    "open_library k path \<noteq> None"
  shows "loadLibraryEx k (Suc fuel') path st' = Some (Inr ((r, Some True), st'))"
proof -
  obtain n where n: "fuel = Suc n" using assms(1) by (cases fuel) auto
  have "load_step k (loadLibraryEx k n) path st = Some (Inr ((r, al), st'))" using assms(1) n by simp
  from loadEx.load_step_keeps [OF this assms(2)] assms(3-5) obtain i ys where
    i: "r = Some i" "loaded_from (l_images st') path i" "i \<in> set ys" and ys: "well_linked ys st'"
    by (auto simp: loads_def)
  from load_again [OF ys i(3,2), of k fuel'] assms(3,4) i(1) show ?thesis by simp
qed

lemma load_twice_witness: "\<exists>st'. loadLibraryEx example_kernel 3 ''/a'' example_start =
    Some (Inr ((Some 1, Some False), st')) \<and>
    loadLibraryEx example_kernel 1 ''/a'' st' = Some (Inr ((Some 1, Some True), st'))"
  using example_loads load_twice [OF _ example_start_well_linked, where k = example_kernel and
      path = "''/a''" and fuel' = 0] example_open by fastforce



text \<open>
  C28: What the loader leaves in an image is well formed: its segment array holds the segment
  commands of the file in their order, the count is their number and at most the 64 the array
  has room for, and the dependencies and re-exports fit into their arrays of 128.
\<close>

theorem loaded_images_well_formed:
  assumes "loadLibraryEx k fuel path st = Some (Inr ((r, al), st'))" "well_linked xs st"
    "l_images st i = None" "l_images st' i = Some im"
  shows "fSegmentLoadCommands im = file_segments (fCommands im) \<and>
    fSegmentsCount im = length (fSegmentLoadCommands im) \<and> fSegmentsCount im \<le> 64 \<and>
    length (fDependencies im) \<le> 128 \<and> length (fReExports im) \<le> 128"
  using parseEx.load_parses [OF assms(1,2)] assms(3,4)
  by (auto simp: parsed_beyond_def well_parsed_def)

lemma loaded_images_well_formed_witness: "\<exists>st' im. loadLibraryEx example_kernel 3 ''/a'' example_start =
    Some (Inr ((Some 1, Some False), st')) \<and> l_images st' 1 = Some im \<and>
    fSegmentsCount im = length (file_segments (fCommands im)) \<and> fSegmentsCount im \<le> 64"
proof -
  from example_loads obtain st' where st': "loadLibraryEx example_kernel 3 ''/a'' example_start =
    Some (Inr ((Some 1, Some False), st'))" ..
  from loadEx.load_keeps [OF this example_start_well_linked] obtain im where im: "l_images st' 1 = Some im"
    by (auto simp: loads_def well_linked_def dest: chain_in_dom)
  have "l_images example_start 1 = None" by (simp add: example_start_def)
  from loaded_images_well_formed [OF st' example_start_well_linked this im] st' im show ?thesis by auto
qed

end
