(* ===== verification/Startup.thy ===== *)
theory Startup
  imports LibraryChain
begin

text \<open>
  Starting the program (src/core/lnk.cpp, lnk_macho.cpp): binding the chain of loaded images,
  running their initializers after those of the images they depend on, and the sequence of steps
  of the linker's \<open>_main\<close>.
\<close>

section \<open>Running the initializers of one image\<close>

abbreviation (input) "S_MOD_INIT_FUNC_POINTERS \<equiv> 9 :: u32"

text \<open>
  The memory, and the addresses called so far, the last one first. An initializer is code of
  the image: what it does to memory is the field \<open>k_call\<close> of the kernel.
\<close>

type_synonym run = "mem \<times> u32 list"

definition callInitializer :: "kernel \<Rightarrow> u32 \<Rightarrow> run \<Rightarrow> run res" where
  "callInitializer k fn r = mapR (\<lambda>m. (m, fn # snd r)) (k_call k fn (fst r))"

text \<open>The pointer is read when its turn comes: an initializer may change the ones behind it.\<close>

definition init_pointer :: "kernel \<Rightarrow> u32 \<Rightarrow> nat \<Rightarrow> run \<Rightarrow> run res" where
  "init_pointer k inits i r =
     bindR (rd32 (fst r) (inits + 4 * of_nat i)) (\<lambda>func. callInitializer k func r)"

definition init_section :: "kernel \<Rightarrow> image \<Rightarrow> macho_section \<Rightarrow> run \<Rightarrow> run res" where
  "init_section k im sect r =
     (if sect_flags sect AND SECTION_TYPE = S_MOD_INIT_FUNC_POINTERS
      then foldR (init_pointer k (sect_addr sect + fSlide im)) [0..<unat (sect_size sect div 4)] r
      else Inr r)"

definition run_initializers :: "kernel \<Rightarrow> image \<Rightarrow> run \<Rightarrow> run res" where
  "run_initializers k im r =
     bindR (case fRoutines im of None \<Rightarrow> Inr r
            | Some init_address \<Rightarrow> callInitializer k (init_address + fSlide im) r) (\<lambda>r.
     foldR (\<lambda>i r. bindR (segLoadCmd im i) (\<lambda>seg. foldR (init_section k im) (sections seg) r))
       [0..<fSegmentsCount im] r)"

definition doInitialize :: "kernel \<Rightarrow> image_id \<Rightarrow> lnk \<Rightarrow> lnk res" where
  "doInitialize k i st =
     bindR (image_of (l_images st) i) (\<lambda>im.
     if fHasInitialized im then Inr st
     else bindR (run_initializers k im (l_mem st, [])) (\<lambda>(m, fns).
       Inr (set_image i (im\<lparr>fHasInitialized := True\<rparr>)
         (st\<lparr>l_mem := m, l_calls := map (Pair i) fns @ l_calls st\<rparr>))))"

section \<open>Running the initializers of the chain\<close>

text \<open>
  The locals of \<open>initializeChain\<close>. The flag \<open>runCircularInitializer\<close> is not initialised: the
  value it starts with is an argument. \<open>in_stop\<close> is the jump out of the loop to \<open>circ_init\<close>.
\<close>

record init_state =
  in_lnk :: lnk
  in_ccount :: u32
  in_icount :: u32
  hasUnitializedDependencies :: bool
  runCircularInitializer :: bool
  in_stop :: bool

fun circular_deps :: "images \<Rightarrow> image_id \<Rightarrow> image_id list \<Rightarrow> nat res" where
  "circular_deps ims i [] = Inr 0"
| "circular_deps ims i (d # ds) =
     bindR (image_of ims d) (\<lambda>dep. mapR (\<lambda>n. if dependsOn dep i then Suc n else n)
       (circular_deps ims i ds))"

definition init_visit :: "kernel \<Rightarrow> image_id \<Rightarrow> init_state \<Rightarrow> init_state res" where
  "init_visit k i s =
     (let ims = l_images (in_lnk s) in
      bindR (image_of ims i) (\<lambda>im.
      bindR (dependenciesInitialized ims im) (\<lambda>ready.
      if ready then
        (if \<not> fHasInitialized im then
           mapR (\<lambda>st. s\<lparr>in_lnk := st, in_icount := in_icount s - 1\<rparr>) (doInitialize k i (in_lnk s))
         else Inr s)
      else if in_ccount s = in_icount s then Inr (s\<lparr>in_stop := True\<rparr>)
      else mapR (\<lambda>n.
          if n = 0 then s\<lparr>hasUnitializedDependencies := True\<rparr>
          else s\<lparr>in_ccount := in_ccount s + of_nat n, runCircularInitializer := True\<rparr>)
        (circular_deps ims i (fDependencies im)))))"

definition init_pass :: "kernel \<Rightarrow> init_state \<Rightarrow> init_state res" where
  "init_pass k s = mapR snd (run_loop (c_while (\<lambda>(im, s). im \<noteq> None \<and> \<not> in_stop s)
     (\<lambda>(im, s). bindR (init_visit k (the im) s) (\<lambda>s.
        if in_stop s then Inr (im, s)
        else mapR (\<lambda>img. (fNextImage img, s)) (image_of (l_images (in_lnk s)) (the im))))
     (sFirstImage (in_lnk s), s\<lparr>hasUnitializedDependencies := False\<rparr>)))"

text \<open>The label \<open>run_init\<close>: the first component tells whether the pass is made again.\<close>

definition run_init :: "kernel \<Rightarrow> init_state \<Rightarrow> init_state res" where
  "run_init k s = mapR snd (run_loop (c_while fst
     (\<lambda>(_, s). mapR (\<lambda>s. (\<not> in_stop s \<and> hasUnitializedDependencies s, s)) (init_pass k s))
     (True, s)))"

definition circ_init :: "kernel \<Rightarrow> lnk \<Rightarrow> lnk res" where
  "circ_init k st = each_image l_images (doInitialize k) (sFirstImage st) st"

definition initializeChain :: "kernel \<Rightarrow> bool \<Rightarrow> lnk \<Rightarrow> lnk res" where
  "initializeChain k runCircular st =
     bindR (run_init k \<lparr>in_lnk = st, in_ccount = 0, in_icount = sImageCount st,
       hasUnitializedDependencies = False, runCircularInitializer = runCircular, in_stop = False\<rparr>) (\<lambda>s.
     if runCircularInitializer s then circ_init k (in_lnk s) else Inr (in_lnk s))"

section \<open>Binding the chain\<close>

definition bind_image :: "image_id \<Rightarrow> lnk \<Rightarrow> lnk res" where
  "bind_image i st =
     bindR (image_of (l_images st) i) (\<lambda>im.
     mapR (\<lambda>(m, unresolved). st\<lparr>l_mem := m, sUnresolvedCount := unresolved\<rparr>)
       (doBindSymbols \<lparr>env_images = l_images st, env_first = sFirstImage st\<rparr> im
          (l_mem st, sUnresolvedCount st)))"

definition bindChain :: "lnk \<Rightarrow> lnk res" where
  "bindChain st = each_image l_images bind_image (sFirstImage st) st"

section \<open>The linker's main routine\<close>

text \<open>
  The two images that are in memory when \<open>_main\<close> starts: the header, its load commands and the
  slide. \<open>aux\<close> is what \<open>OSInitializeAuxiliaryRuntime\<close> does to memory.
\<close>

definition load_linker :: "kernel \<Rightarrow> nat \<Rightarrow> u32 \<Rightarrow> load_command list \<Rightarrow> u32 \<Rightarrow> lnk \<Rightarrow> lnk res option" where
  "load_linker k fuel lnkHeader cmds lnkSlide st =
     (let (i, st) = instantiateFromMemory ''libSystem.B.dylib'' lnkHeader cmds lnkSlide st in
      bindO (parseLoadCommands k (loadLibraryEx k fuel) i (st\<lparr>sDylinker := Some i\<rparr>)) (\<lambda>st.
        Some (Inr (st\<lparr>sImageCount := sImageCount st + 1, sFirstImage := sDylinker st\<rparr>))))"

definition load_main :: "kernel \<Rightarrow> nat \<Rightarrow> u32 \<Rightarrow> load_command list \<Rightarrow> lnk \<Rightarrow> lnk res option" where
  "load_main k fuel mainExecutableMH cmds st =
     (let (i, st) = instantiateFromMemory ''MainImage'' mainExecutableMH cmds 0 st in
      parseLoadCommands k (loadLibraryEx k fuel) i (st\<lparr>sMainExecutable := Some i\<rparr>))"

definition cas_init :: "kernel \<Rightarrow> nat \<Rightarrow> lnk \<Rightarrow> lnk res option" where
  "cas_init k fuel st = bindO (loadLibrary k fuel ''/usr/lib/bunny.dylib'' st) (\<lambda>(_, st). Some (Inr st))"

definition on_main :: "(image_id \<Rightarrow> lnk \<Rightarrow> lnk res) \<Rightarrow> lnk \<Rightarrow> lnk res" where
  "on_main f st = (case sMainExecutable st of None \<Rightarrow> Inl Undefined | Some i \<Rightarrow> f i st)"

definition getMain :: "lnk \<Rightarrow> u32 res" where
  "getMain st = (case sMainExecutable st of None \<Rightarrow> Inl Undefined
     | Some i \<Rightarrow> mapR fEntryPoint (image_of (l_images st) i))"

definition load_all ::
    "kernel \<Rightarrow> nat \<Rightarrow> u32 \<times> load_command list \<times> u32 \<Rightarrow> u32 \<times> load_command list \<Rightarrow> lnk \<Rightarrow> lnk res option" where
  "load_all k fuel linker main st = (case linker of (lnkHeader, lnkCommands, lnkSlide) \<Rightarrow>
     (case main of (mainHeader, mainCommands) \<Rightarrow>
      bindO (load_linker k fuel lnkHeader lnkCommands lnkSlide st) (\<lambda>st.
      bindO (loadAuxiliarySystemLibraries k fuel st) (\<lambda>st.
      bindO (load_main k fuel mainHeader mainCommands st) (\<lambda>st.
        cas_init k fuel st)))))"

definition lnk_main :: "kernel \<Rightarrow> nat \<Rightarrow> (mem \<Rightarrow> mem res) \<Rightarrow> bool \<Rightarrow>
    u32 \<times> load_command list \<times> u32 \<Rightarrow> u32 \<times> load_command list \<Rightarrow> lnk \<Rightarrow> (u32 \<times> lnk) res option" where
  "lnk_main k fuel aux runCircular linker main st =
     bindO (load_all k fuel linker main st) (\<lambda>st.
     bindO (Some (bindChain st)) (\<lambda>st.
     bindO (Some (on_main bind_image st)) (\<lambda>st.
     bindO (Some (aux (l_mem st))) (\<lambda>m.
     bindO (Some (initializeChain k runCircular (st\<lparr>l_mem := m\<rparr>))) (\<lambda>st.
     bindO (Some (on_main (doInitialize k) st)) (\<lambda>st.
     bindO (Some (getMain st)) (\<lambda>pc. Some (Inr (pc, st)))))))))"

end
