(* ===== verification/InitOrder.thy ===== *)
theory InitOrder
  imports Startup
begin

text \<open>
  The order in which the images of the chain are initialized. An image is ready when the ones
  it depends on have been initialized; \<open>initializeChain\<close> passes over the chain until no image
  waits.
\<close>

section \<open>What initializing an image changes\<close>

text \<open>Images that differ in nothing but the flag \<open>fHasInitialized\<close>, and in it only upwards.\<close>

definition same_but_flag :: "images \<Rightarrow> images \<Rightarrow> bool" where
  "same_but_flag ims ims' \<longleftrightarrow> dom ims' = dom ims \<and>
     (\<forall>i im im'. ims i = Some im \<longrightarrow> ims' i = Some im' \<longrightarrow>
       (fHasInitialized im \<longrightarrow> fHasInitialized im') \<and>
       im' = im\<lparr>fHasInitialized := fHasInitialized im'\<rparr>)"

definition initialized :: "lnk \<Rightarrow> image_id \<Rightarrow> bool" where
  "initialized st i \<longleftrightarrow> (\<exists>im. l_images st i = Some im \<and> fHasInitialized im)"

definition deps_of :: "lnk \<Rightarrow> image_id \<Rightarrow> image_id list" where
  "deps_of st i = (case l_images st i of None \<Rightarrow> [] | Some im \<Rightarrow> fDependencies im)"

text \<open>
  The initializers of an image return, whatever the memory holds, and map or unmap nothing.
\<close>

definition initializers_return :: "kernel \<Rightarrow> image \<Rightarrow> mem \<Rightarrow> bool" where
  "initializers_return k im m0 \<longleftrightarrow> (\<forall>m. dom m = dom m0 \<longrightarrow>
     (\<exists>m' fns. run_initializers k im (m, []) = Inr (m', fns) \<and> dom m' = dom m0))"

lemma run_initializers_flag [simp]:
  "run_initializers k (im\<lparr>fHasInitialized := b\<rparr>) r = run_initializers k im r"
  by (simp add: run_initializers_def init_section_def [abs_def] segLoadCmd_def
      cong: if_cong option.case_cong)

lemma initializers_return_flag [simp]:
  "initializers_return k (im\<lparr>fHasInitialized := b\<rparr>) m = initializers_return k im m"
  by (simp add: initializers_return_def)

text \<open>
  The states that \<open>initializeChain\<close> can reach from \<open>st0\<close>: the images have only been initialized,
  every initialized one has its dependencies initialized, and the calls made so far are of
  initialized images and in order: what an image depends on was called before it.
\<close>

definition in_order :: "lnk \<Rightarrow> (image_id \<times> u32) list \<Rightarrow> bool" where
  "in_order st calls \<longleftrightarrow> (\<forall>later d f earlier. calls = later @ (d, f) # earlier \<longrightarrow>
     (\<forall>i. d \<in> set (deps_of st i) \<longrightarrow> i \<notin> fst ` set earlier))"

definition reached :: "kernel \<Rightarrow> lnk \<Rightarrow> image_id list \<Rightarrow> lnk \<Rightarrow> bool" where
  "reached k st0 xs st \<longleftrightarrow>
     same_but_flag (l_images st0) (l_images st) \<and> sFirstImage st = sFirstImage st0 \<and>
     dom (l_mem st) = dom (l_mem st0) \<and>
     (\<forall>i\<in>set xs. initialized st i \<longrightarrow> (\<forall>d\<in>set (deps_of st0 i). initialized st d)) \<and>
     fst ` set (l_calls st) \<subseteq> {i \<in> set xs. initialized st i} \<and> in_order st0 (l_calls st)"

definition waiting :: "image_id list \<Rightarrow> lnk \<Rightarrow> image_id set" where
  "waiting xs st = {i \<in> set xs. \<not> initialized st i}"

text \<open>The chains the results below are about.\<close>

definition startable :: "kernel \<Rightarrow> image_id list \<Rightarrow> lnk \<Rightarrow> bool" where
  "startable k xs st \<longleftrightarrow> well_linked xs st \<and> length xs < 2 ^ 32 \<and> l_calls st = [] \<and>
     (\<forall>i\<in>set xs. \<not> initialized st i) \<and>
     (\<forall>i\<in>set xs. \<forall>im. l_images st i = Some im \<longrightarrow> initializers_return k im (l_mem st)) \<and>
     (\<forall>i\<in>set xs. \<forall>d\<in>set (deps_of st i). i \<notin> set (deps_of st d))"

lemma same_but_flag_refl [simp]: "same_but_flag ims ims"
  by (auto simp: same_but_flag_def)

lemma same_but_flagD:
  assumes "same_but_flag ims ims'" "ims i = Some im"
  obtains b where "ims' i = Some (im\<lparr>fHasInitialized := b\<rparr>)" "fHasInitialized im \<Longrightarrow> b"
proof -
  from assms have "i \<in> dom ims'" by (auto simp: same_but_flag_def)
  then obtain im' where im': "ims' i = Some im'" by blast
  with assms have "im' = im\<lparr>fHasInitialized := fHasInitialized im'\<rparr>"
    "fHasInitialized im \<Longrightarrow> fHasInitialized im'"
    unfolding same_but_flag_def by blast+
  with im' that show thesis by metis
qed

lemma same_but_flag_links: "same_but_flag ims ims' \<Longrightarrow> links ims' = links ims"
proof
  fix i assume same: "same_but_flag ims ims'"
  show "links ims' i = links ims i"
  proof (cases "ims i")
    case None
    with same have "i \<notin> dom ims'" by (auto simp: same_but_flag_def)
    with None show ?thesis by (simp add: links_def domIff)
  next
    case (Some im)
    with same obtain b where "ims' i = Some (im\<lparr>fHasInitialized := b\<rparr>)" by (rule same_but_flagD)
    with Some show ?thesis by (simp add: links_def)
  qed
qed

lemma same_but_flag_chain: "same_but_flag ims ims' \<Longrightarrow> chain ims p xs \<Longrightarrow> chain ims' p xs"
  by (erule chain_links) (simp add: same_but_flag_links)

lemma dependenciesInitialized_loop_eq:
  assumes "\<And>d. d \<in> set ds \<Longrightarrow> l_images st d \<noteq> None"
  shows "dependenciesInitialized_loop (l_images st) ds = Inr (\<forall>d\<in>set ds. initialized st d)"
  using assms
proof (induction ds)
  case (Cons d ds)
  from Cons.prems [of d] obtain im where "l_images st d = Some im" by auto
  with Cons show ?case by (simp add: initialized_def)
qed simp

lemma circular_deps_zero:
  assumes "\<And>d. d \<in> set ds \<Longrightarrow> \<exists>im. ims d = Some im \<and> i \<notin> set (fDependencies im)"
  shows "circular_deps ims i ds = Inr 0"
  using assms by (induction ds) (fastforce simp: dependsOn_def)+

section \<open>One visit\<close>

lemma in_order_append:
  assumes "in_order st calls" "fst ` set calls \<subseteq> A" "i \<notin> A" "i \<notin> set (deps_of st i)"
    and "\<And>j. j \<in> A \<Longrightarrow> i \<notin> set (deps_of st j)"
  shows "in_order st (map (Pair i) fns @ calls)"
  using assms(1,2)
proof (induction fns)
  case (Cons f fns)
  show ?case
    unfolding in_order_def
  proof (intro allI impI)
    fix later d g earlier j
    assume split: "map (Pair i) (f # fns) @ calls = later @ (d, g) # earlier" and dep: "d \<in> set (deps_of st j)"
    show "j \<notin> fst ` set earlier"
    proof (cases later)
      case Nil
      with split have "d = i" "earlier = map (Pair i) fns @ calls" by auto
      with dep Cons.prems(2) assms(3-5) show ?thesis by (auto simp: image_iff)
    next
      case (Cons a later')
      with split have "map (Pair i) fns @ calls = later' @ (d, g) # earlier" by simp
      with Cons.IH Cons.prems dep show ?thesis unfolding in_order_def by blast
    qed
  qed
qed simp

lemma same_but_flag_update:
  assumes "same_but_flag ims ims'" "ims i = Some im"
  shows "same_but_flag ims (ims'(i \<mapsto> im\<lparr>fHasInitialized := True\<rparr>))"
  unfolding same_but_flag_def
proof (intro conjI allI impI)
  show "dom (ims'(i \<mapsto> im\<lparr>fHasInitialized := True\<rparr>)) = dom ims"
    using assms by (auto simp: same_but_flag_def)
  fix j a b
  assume j: "ims j = Some a" "(ims'(i \<mapsto> im\<lparr>fHasInitialized := True\<rparr>)) j = Some b"
  show "b = a\<lparr>fHasInitialized := fHasInitialized b\<rparr>"
  proof (cases "j = i")
    case True
    with j assms(2) show ?thesis by (simp, metis image.select_convs(8) image.surjective image.update_convs(8))
  next
    case False
    with j assms(1) show ?thesis unfolding same_but_flag_def by simp
  qed
  show "fHasInitialized b" if "fHasInitialized a"
  proof (cases "j = i")
    case True
    with j show ?thesis by auto
  next
    case False
    with j assms(1) that show ?thesis unfolding same_but_flag_def by (metis fun_upd_other)
  qed
qed

lemma doInitialize_waiting:
  assumes "startable k xs st0" "reached k st0 xs st" "i \<in> set xs" "\<not> initialized st i"
    and ready: "\<forall>d\<in>set (deps_of st0 i). initialized st d"
  shows "\<exists>st'. doInitialize k i st = Inr st' \<and> reached k st0 xs st' \<and>
    (\<forall>j. initialized st' j \<longleftrightarrow> j = i \<or> initialized st j)"
proof -
  from assms(1,3) obtain im0 where im0: "l_images st0 i = Some im0"
    by (auto simp: startable_def well_linked_def dest: chain_in_dom)
  from assms(2) have same: "same_but_flag (l_images st0) (l_images st)" by (simp add: reached_def)
  from same_but_flagD [OF same im0] obtain b where b: "l_images st i = Some (im0\<lparr>fHasInitialized := b\<rparr>)"
    by blast
  with assms(4) have b_False: "\<not> b" by (simp add: initialized_def)
  from assms(1,3) im0 have "initializers_return k im0 (l_mem st0)" unfolding startable_def by blast
  moreover from assms(2) have "dom (l_mem st) = dom (l_mem st0)" by (simp add: reached_def)
  ultimately obtain m fns where run: "run_initializers k im0 (l_mem st, []) = Inr (m, fns)"
    "dom m = dom (l_mem st0)"
    unfolding initializers_return_def by blast
  let ?st = "set_image i (im0\<lparr>fHasInitialized := True\<rparr>)
      (st\<lparr>l_mem := m, l_calls := map (Pair i) fns @ l_calls st\<rparr>)"
  have st': "doInitialize k i st = Inr ?st"
    using b b_False run(1) by (simp add: doInitialize_def)
  have init: "initialized ?st j \<longleftrightarrow> j = i \<or> initialized st j" for j
    by (simp add: initialized_def set_image_def)
  have "same_but_flag (l_images st0) (l_images ?st)"
    using same_but_flag_update [OF same im0] by (simp add: set_image_def)
  moreover have "in_order st0 (map (Pair i) fns @ l_calls st)"
  proof (rule in_order_append)
    show "in_order st0 (l_calls st)" "fst ` set (l_calls st) \<subseteq> {i \<in> set xs. initialized st i}"
      using assms(2) by (simp_all add: reached_def)
    show "i \<notin> {i \<in> set xs. initialized st i}" using assms(4) by simp
    show "i \<notin> set (deps_of st0 i)" using ready assms(4) by blast
    show "i \<notin> set (deps_of st0 j)" if "j \<in> {i \<in> set xs. initialized st i}" for j
      using that assms(2,4) by (auto simp: reached_def)
  qed
  moreover have "sFirstImage ?st = sFirstImage st0" "dom (l_mem ?st) = dom (l_mem st0)"
    "l_calls ?st = map (Pair i) fns @ l_calls st"
    using assms(2) run(2) by (simp_all add: reached_def set_image_def)
  moreover have "\<forall>j\<in>set xs. initialized ?st j \<longrightarrow> (\<forall>d\<in>set (deps_of st0 j). initialized ?st d)"
    using assms(2) ready by (simp add: init reached_def)
  moreover have "fst ` set (map (Pair i) fns @ l_calls st) \<subseteq> {j \<in> set xs. initialized ?st j}"
  proof -
    have "fst ` set (l_calls st) \<subseteq> {j \<in> set xs. initialized st j}" using assms(2) by (simp add: reached_def)
    then show ?thesis using assms(3) by (auto simp: init)
  qed
  ultimately have "reached k st0 xs ?st" unfolding reached_def by (simp only: simp_thms)
  with st' init show ?thesis by (intro exI [of _ ?st]) simp
qed

lemma deps_in_chain:
  assumes "well_linked xs st" "d \<in> set (deps_of st i)"
  shows "d \<in> set xs" "l_images st d \<noteq> None"
proof -
  from assms(2) obtain im where "l_images st i = Some im" "d \<in> set (fDependencies im)"
    by (cases "l_images st i") (auto simp: deps_of_def)
  with assms(1) show "d \<in> set xs" unfolding well_linked_def by blast
  with assms(1) show "l_images st d \<noteq> None" by (auto simp: well_linked_def dest: chain_in_dom)
qed

text \<open>The invariant of \<open>initializeChain\<close>'s loops.\<close>

definition initializing :: "kernel \<Rightarrow> image_id list \<Rightarrow> lnk \<Rightarrow> bool \<Rightarrow> init_state \<Rightarrow> bool" where
  "initializing k xs st0 c s \<longleftrightarrow> reached k st0 xs (in_lnk s) \<and> in_ccount s = 0 \<and>
     in_icount s = of_nat (card (waiting xs (in_lnk s))) \<and> \<not> in_stop s \<and> runCircularInitializer s = c"

lemma finite_waiting [simp]: "finite (waiting xs st)"
  by (simp add: waiting_def)

lemma of_nat_card_waiting:
  assumes "length xs < 2 ^ 32" "i \<in> waiting xs st"
  shows "(of_nat (card (waiting xs st)) :: u32) \<noteq> 0"
proof -
  have "card (waiting xs st) \<le> card (set xs)" by (rule card_mono) (auto simp: waiting_def)
  with assms(1) card_length [of xs] have "card (waiting xs st) < 2 ^ 32" by linarith
  moreover have "card (waiting xs st) \<noteq> 0" using assms(2) by auto
  ultimately show ?thesis by (metis unat_of_nat_u32 unat_0)
qed

lemma init_visit_step:
  assumes start: "startable k xs st0" and inv: "initializing k xs st0 c s" and i: "i \<in> set xs"
  shows "\<exists>s'. init_visit k i s = Inr s' \<and> initializing k xs st0 c s' \<and>
    waiting xs (in_lnk s') =
      (if \<forall>d\<in>set (deps_of st0 i). initialized (in_lnk s) d then waiting xs (in_lnk s) - {i}
       else waiting xs (in_lnk s)) \<and>
    hasUnitializedDependencies s' =
      (hasUnitializedDependencies s \<or> (\<exists>d\<in>set (deps_of st0 i). \<not> initialized (in_lnk s) d))"
proof -
  let ?st = "in_lnk s" and ?ready = "\<forall>d\<in>set (deps_of st0 i). initialized (in_lnk s) d"
  have wl: "well_linked xs st0" and len: "length xs < 2 ^ 32" using start by (simp_all add: startable_def)
  have re: "reached k st0 xs ?st" and ic: "in_icount s = of_nat (card (waiting xs ?st))" "in_ccount s = 0"
    and stop: "\<not> in_stop s" using inv by (simp_all add: initializing_def)
  have same: "same_but_flag (l_images st0) (l_images ?st)" using re by (simp add: reached_def)
  from wl i obtain im0 where im0: "l_images st0 i = Some im0" by (auto simp: well_linked_def dest: chain_in_dom)
  from same_but_flagD [OF same im0] obtain b where b: "l_images ?st i = Some (im0\<lparr>fHasInitialized := b\<rparr>)"
    by blast
  have deps: "fDependencies im0 = deps_of st0 i" by (simp add: deps_of_def im0)
  have exists: "l_images ?st d \<noteq> None" if "d \<in> set (deps_of st0 i)" for d
  proof -
    from deps_in_chain(2) [OF wl that] obtain dim where "l_images st0 d = Some dim" by blast
    from same_but_flagD [OF same this] show ?thesis by (metis option.distinct(1))
  qed
  have ready: "dependenciesInitialized (l_images ?st) (im0\<lparr>fHasInitialized := b\<rparr>) = Inr ?ready"
    by (simp add: dependenciesInitialized_def deps dependenciesInitialized_loop_eq exists)
  have init_i: "initialized ?st i = b" by (simp add: initialized_def b)
  have "image_of (l_images ?st) i = Inr (im0\<lparr>fHasInitialized := b\<rparr>)" using b by simp
  note visit = init_visit_def [of k i s, unfolded Let_def this bindR_Inr ready]
  show ?thesis
  proof (cases ?ready)
    case True
    show ?thesis
    proof (cases b)
      case True
      then have "init_visit k i s = Inr s" using \<open>?ready\<close> by (simp add: visit)
      moreover have "waiting xs ?st = waiting xs ?st - {i}" using True init_i by (auto simp: waiting_def)
      moreover have "(\<exists>d\<in>set (deps_of st0 i). \<not> initialized ?st d) = False" using \<open>?ready\<close> by blast
      ultimately show ?thesis using inv \<open>?ready\<close> by (intro exI [of _ s]) simp
    next
      case False
      with doInitialize_waiting [OF start re i _ \<open>?ready\<close>] init_i obtain st' where
        st': "doInitialize k i ?st = Inr st'" "reached k st0 xs st'"
          "\<And>j. initialized st' j \<longleftrightarrow> j = i \<or> initialized ?st j" by auto
      have w: "waiting xs st' = waiting xs ?st - {i}" by (auto simp: waiting_def st'(3))
      have "i \<in> waiting xs ?st" using i init_i False by (simp add: waiting_def)
      from card.remove [OF finite_waiting this] have "card (waiting xs ?st) = Suc (card (waiting xs st'))"
        by (simp only: w)
      then have "initializing k xs st0 c (s\<lparr>in_lnk := st', in_icount := in_icount s - 1\<rparr>)"
        using inv ic st'(2) by (simp add: initializing_def)
      moreover have "init_visit k i s = Inr (s\<lparr>in_lnk := st', in_icount := in_icount s - 1\<rparr>)"
        using \<open>?ready\<close> False st'(1) by (simp add: visit)
      moreover have "(\<exists>d\<in>set (deps_of st0 i). \<not> initialized ?st d) = False" using \<open>?ready\<close> by blast
      ultimately show ?thesis using w \<open>?ready\<close>
        by (intro exI [of _ "s\<lparr>in_lnk := st', in_icount := in_icount s - 1\<rparr>"]) simp
    qed
  next
    case False
    then obtain d where d: "d \<in> set (deps_of st0 i)" "\<not> initialized ?st d" by blast
    then have "d \<in> waiting xs ?st" using deps_in_chain(1) [OF wl] by (simp add: waiting_def)
    from of_nat_card_waiting [OF len this] have ne: "in_ccount s \<noteq> in_icount s" by (simp add: ic)
    have "circular_deps (l_images ?st) i (deps_of st0 i) = Inr 0"
    proof (rule circular_deps_zero)
      fix e assume e: "e \<in> set (deps_of st0 i)"
      from deps_in_chain(2) [OF wl e] obtain eim where eim: "l_images st0 e = Some eim" by blast
      from same_but_flagD [OF same this] obtain b' where "l_images ?st e = Some (eim\<lparr>fHasInitialized := b'\<rparr>)"
        by blast
      moreover have "i \<notin> set (deps_of st0 e)" using start i e by (simp add: startable_def)
      ultimately show "\<exists>im. l_images ?st e = Some im \<and> i \<notin> set (fDependencies im)"
        by (simp add: deps_of_def eim)
    qed
    moreover have not_ready: "?ready = False" using False by blast
    ultimately have "init_visit k i s = Inr (s\<lparr>hasUnitializedDependencies := True\<rparr>)"
      unfolding visit not_ready if_False using ne by (simp add: deps)
    moreover have "initializing k xs st0 c (s\<lparr>hasUnitializedDependencies := True\<rparr>)"
      using inv by (simp add: initializing_def)
    moreover have "(\<exists>d\<in>set (deps_of st0 i). \<not> initialized ?st d) = True" using False by blast
    ultimately show ?thesis unfolding not_ready if_False
      by (intro exI [of _ "s\<lparr>hasUnitializedDependencies := True\<rparr>"]) simp
  qed
qed

section \<open>One pass\<close>

text \<open>What a stretch of the chain leaves behind.\<close>

definition stuck :: "lnk \<Rightarrow> image_id set \<Rightarrow> bool" where
  "stuck st0 C \<longleftrightarrow> (\<forall>i\<in>C. \<exists>d\<in>C. d \<in> set (deps_of st0 i))"

definition keeps_stuck :: "lnk \<Rightarrow> image_id list \<Rightarrow> init_state \<Rightarrow> init_state \<Rightarrow> bool" where
  "keeps_stuck st0 xs s s' \<longleftrightarrow> (\<forall>C. stuck st0 C \<longrightarrow>
     C \<subseteq> waiting xs (in_lnk s) \<longrightarrow> C \<subseteq> waiting xs (in_lnk s'))"

lemma keeps_stuck_trans: "keeps_stuck st0 xs s s1 \<Longrightarrow> keeps_stuck st0 xs s1 s' \<Longrightarrow> keeps_stuck st0 xs s s'"
  unfolding keeps_stuck_def by iprover

lemma keeps_stuck_refl [simp]: "keeps_stuck st0 xs s s"
  unfolding keeps_stuck_def by iprover

definition passed :: "lnk \<Rightarrow> image_id list \<Rightarrow> image_id list \<Rightarrow> init_state \<Rightarrow> init_state \<Rightarrow> bool" where
  "passed st0 xs ys s s' \<longleftrightarrow> waiting xs (in_lnk s') \<subseteq> waiting xs (in_lnk s) \<and>
     (hasUnitializedDependencies s \<longrightarrow> hasUnitializedDependencies s') \<and>
     (hasUnitializedDependencies s' \<longrightarrow> hasUnitializedDependencies s \<or> waiting xs (in_lnk s) \<noteq> {}) \<and>
     (\<forall>i\<in>set ys. (\<forall>d\<in>set (deps_of st0 i). d \<notin> waiting xs (in_lnk s)) \<longrightarrow> i \<notin> waiting xs (in_lnk s')) \<and>
     (\<not> hasUnitializedDependencies s' \<longrightarrow> (\<forall>i\<in>set ys. i \<notin> waiting xs (in_lnk s'))) \<and>
     keeps_stuck st0 xs s s'"

lemma passed_Cons:
  assumes "passed st0 xs [y] s s1" "passed st0 xs ys s1 s'"
  shows "passed st0 xs (y # ys) s s'"
proof -
  let ?W = "\<lambda>s. waiting xs (in_lnk s)" and ?h = hasUnitializedDependencies
  from assms have sub: "?W s1 \<subseteq> ?W s" "?W s' \<subseteq> ?W s1" and up: "?h s \<longrightarrow> ?h s1" "?h s1 \<longrightarrow> ?h s'"
    and why: "?h s1 \<longrightarrow> ?h s \<or> ?W s \<noteq> {}" "?h s' \<longrightarrow> ?h s1 \<or> ?W s1 \<noteq> {}"
    and ready: "(\<forall>d\<in>set (deps_of st0 y). d \<notin> ?W s) \<longrightarrow> y \<notin> ?W s1"
      "\<forall>i\<in>set ys. (\<forall>d\<in>set (deps_of st0 i). d \<notin> ?W s1) \<longrightarrow> i \<notin> ?W s'"
    and none: "\<not> ?h s1 \<longrightarrow> y \<notin> ?W s1" "\<not> ?h s' \<longrightarrow> (\<forall>i\<in>set ys. i \<notin> ?W s')"
    and stuck: "keeps_stuck st0 xs s s1" "keeps_stuck st0 xs s1 s'"
    by (simp_all add: passed_def)
  have "?W s' \<subseteq> ?W s" "?h s \<longrightarrow> ?h s'" using sub up by blast+
  moreover have "?h s' \<longrightarrow> ?h s \<or> ?W s \<noteq> {}" using why sub(1) by blast
  moreover have "\<forall>i\<in>set (y # ys). (\<forall>d\<in>set (deps_of st0 i). d \<notin> ?W s) \<longrightarrow> i \<notin> ?W s'"
  proof
    fix i assume "i \<in> set (y # ys)"
    then consider "i = y" | "i \<in> set ys" by auto
    then show "(\<forall>d\<in>set (deps_of st0 i). d \<notin> ?W s) \<longrightarrow> i \<notin> ?W s'"
      using ready sub by cases blast+
  qed
  moreover have "\<not> ?h s' \<longrightarrow> (\<forall>i\<in>set (y # ys). i \<notin> ?W s')" using none up sub(2) by auto
  moreover note keeps_stuck_trans [OF stuck]
  ultimately show ?thesis unfolding passed_def by (intro conjI)
qed

lemma passed_waits: "passed st0 xs ys s s' \<Longrightarrow> i \<in> set ys \<Longrightarrow> i \<in> waiting xs (in_lnk s') \<Longrightarrow>
    hasUnitializedDependencies s'"
  by (auto simp: passed_def)

lemma init_visit_passed:
  assumes "startable k xs st0" "initializing k xs st0 c s" "i \<in> set xs"
  shows "\<exists>s'. init_visit k i s = Inr s' \<and> initializing k xs st0 c s' \<and> passed st0 xs [i] s s'"
proof -
  have wl: "well_linked xs st0" using assms(1) by (simp add: startable_def)
  have w: "d \<in> waiting xs (in_lnk s) \<longleftrightarrow> \<not> initialized (in_lnk s) d" if "d \<in> set (deps_of st0 i)" for d
    using deps_in_chain(1) [OF wl that] by (simp add: waiting_def)
  obtain s' where
    s': "init_visit k i s = Inr s'" "initializing k xs st0 c s'"
      "waiting xs (in_lnk s') =
        (if \<forall>d\<in>set (deps_of st0 i). initialized (in_lnk s) d then waiting xs (in_lnk s) - {i}
         else waiting xs (in_lnk s))"
      "hasUnitializedDependencies s' =
        (hasUnitializedDependencies s \<or> (\<exists>d\<in>set (deps_of st0 i). \<not> initialized (in_lnk s) d))"
    using init_visit_step [OF assms] by (elim exE conjE) (rule that)
  have "C \<subseteq> waiting xs (in_lnk s')" if "stuck st0 C" "C \<subseteq> waiting xs (in_lnk s)" for C
  proof (cases "i \<in> C")
    case True
    with that(1) obtain d where d: "d \<in> C" "d \<in> set (deps_of st0 i)" by (auto simp: stuck_def)
    with that(2) w have "\<not> initialized (in_lnk s) d" by blast
    with d(2) have "(\<forall>d\<in>set (deps_of st0 i). initialized (in_lnk s) d) = False" by blast
    with s'(3) that(2) show ?thesis by (simp only: if_False)
  next
    case False
    with that(2) have "C \<subseteq> waiting xs (in_lnk s) - {i}" by blast
    with that(2) show ?thesis unfolding s'(3) by (simp split: if_split)
  qed
  then have "keeps_stuck st0 xs s s'" unfolding keeps_stuck_def by iprover
  moreover have "waiting xs (in_lnk s') \<subseteq> waiting xs (in_lnk s)" unfolding s'(3) by (simp split: if_split)
  moreover have "\<forall>j\<in>set [i]. (\<forall>d\<in>set (deps_of st0 j). d \<notin> waiting xs (in_lnk s)) \<longrightarrow> j \<notin> waiting xs (in_lnk s')"
    using w by (simp add: s'(3))
  moreover have "\<not> hasUnitializedDependencies s' \<longrightarrow> (\<forall>j\<in>set [i]. j \<notin> waiting xs (in_lnk s'))"
    using s'(3,4) by simp
  moreover have "hasUnitializedDependencies s' \<longrightarrow> hasUnitializedDependencies s \<or> waiting xs (in_lnk s) \<noteq> {}"
    using s'(4) w by blast
  ultimately have "passed st0 xs [i] s s'" unfolding passed_def using s'(4) by (intro conjI) simp_all
  with s'(1,2) show ?thesis by blast
qed

definition visit_chain :: "kernel \<Rightarrow> image_id option \<times> init_state \<Rightarrow> (image_id option \<times> init_state) res option" where
  "visit_chain k = c_while (\<lambda>(im, s). im \<noteq> None \<and> \<not> in_stop s)
     (\<lambda>(im, s). bindR (init_visit k (the im) s) (\<lambda>s.
        if in_stop s then Inr (im, s)
        else mapR (\<lambda>img. (fNextImage img, s)) (image_of (l_images (in_lnk s)) (the im))))"

lemma visit_chain_passed:
  assumes "startable k xs st0" "initializing k xs st0 c s" "chain (l_images st0) p ys" "set ys \<subseteq> set xs"
  shows "\<exists>s'. visit_chain k (p, s) = Some (Inr (None, s')) \<and> initializing k xs st0 c s' \<and> passed st0 xs ys s s'"
  using assms(2-)
proof (induction ys arbitrary: p s rule: list.induct)
  case Nil
  then have "p = None" by (cases p) (auto simp: chain_Some)
  with Nil.prems show ?case
    by (auto simp: visit_chain_def c_while_stop passed_def)
next
  case (Cons i ys)
  from Cons.prems(2) obtain im0 where p: "p = Some i" "l_images st0 i = Some im0"
    and rest: "chain (l_images st0) (fNextImage im0) ys"
    by (auto simp: chain_Cons)
  from Cons.prems(3) have "i \<in> set xs" "set ys \<subseteq> set xs" by simp_all
  with init_visit_passed [OF assms(1) Cons.prems(1)] obtain s1 where
    s1: "init_visit k i s = Inr s1" "initializing k xs st0 c s1" "passed st0 xs [i] s s1" by blast
  from s1(2) have same: "same_but_flag (l_images st0) (l_images (in_lnk s1))" and "\<not> in_stop s1"
    by (simp_all add: initializing_def reached_def)
  from same_but_flagD [OF same p(2)] obtain b where
    b: "l_images (in_lnk s1) i = Some (im0\<lparr>fHasInitialized := b\<rparr>)" by blast
  have "visit_chain k (p, s) = visit_chain k (fNextImage im0, s1)"
    unfolding visit_chain_def
    by (rule c_while_step) (use s1(1) b \<open>\<not> in_stop s1\<close> p(1) Cons.prems(1) in \<open>simp_all add: initializing_def\<close>)
  with Cons.IH [OF s1(2) rest \<open>set ys \<subseteq> set xs\<close>] passed_Cons [OF s1(3)] show ?case by auto
qed

lemma init_pass_passed:
  assumes "startable k xs st0" "initializing k xs st0 c s"
  shows "\<exists>s'. init_pass k s = Inr s' \<and> initializing k xs st0 c s' \<and>
    passed st0 xs xs (s\<lparr>hasUnitializedDependencies := False\<rparr>) s'"
proof -
  let ?s = "s\<lparr>hasUnitializedDependencies := False\<rparr>"
  have "initializing k xs st0 c ?s" using assms(2) by (simp add: initializing_def)
  moreover have "chain (l_images st0) (sFirstImage (in_lnk s)) xs"
    using assms by (simp add: startable_def well_linked_def initializing_def reached_def)
  ultimately obtain s' where "visit_chain k (sFirstImage (in_lnk s), ?s) = Some (Inr (None, s'))"
    "initializing k xs st0 c s'" "passed st0 xs xs ?s s'"
    using visit_chain_passed [OF assms(1)] by blast
  then show ?thesis by (simp add: init_pass_def visit_chain_def)
qed

section \<open>All passes\<close>

lemma passed_progress:
  assumes "passed st0 xs xs s s'" "waiting xs (in_lnk s') \<noteq> {}"
    and rank: "\<And>i d. i \<in> set xs \<Longrightarrow> d \<in> set (deps_of st0 i) \<Longrightarrow> rank d < (rank i :: nat)"
  shows "card (waiting xs (in_lnk s')) < card (waiting xs (in_lnk s))"
proof -
  let ?W = "waiting xs (in_lnk s)"
  have sub: "waiting xs (in_lnk s') \<subseteq> ?W" using assms(1) by (simp add: passed_def)
  with assms(2) obtain j where "j \<in> ?W" by blast
  from ex_has_least_nat [of "\<lambda>i. i \<in> ?W", OF this, of rank] obtain i where i: "i \<in> ?W"
    and least: "\<And>j. j \<in> ?W \<Longrightarrow> rank i \<le> rank j" by blast
  have i_xs: "i \<in> set xs" using i by (simp add: waiting_def)
  have "d \<notin> ?W" if "d \<in> set (deps_of st0 i)" for d
    using rank [OF i_xs that] least [of d] by auto
  with assms(1) i_xs have "i \<notin> waiting xs (in_lnk s')" unfolding passed_def by blast
  with i sub have "waiting xs (in_lnk s') \<subset> ?W" by blast
  then show ?thesis by (rule psubset_card_mono [OF finite_waiting])
qed

lemma run_init_ends:
  assumes start: "startable k xs st0" and inv: "initializing k xs st0 c s"
    and rank: "\<And>i d. i \<in> set xs \<Longrightarrow> d \<in> set (deps_of st0 i) \<Longrightarrow> rank d < (rank i :: nat)"
  shows "\<exists>s'. run_init k s = Inr s' \<and> initializing k xs st0 c s' \<and> waiting xs (in_lnk s') = {}"
proof -
  let ?body = "\<lambda>(again :: bool, s). mapR (\<lambda>s. (\<not> in_stop s \<and> hasUnitializedDependencies s, s)) (init_pass k s)"
  define P where "P = (\<lambda>(again, s :: init_state). initializing k xs st0 c s \<and> (again \<or> waiting xs (in_lnk s) = {}))"
  define f where "f = (\<lambda>(again, s :: init_state). if again then Suc (card (waiting xs (in_lnk s))) else 0)"
  have step: "\<exists>again' s'. ?body (again, s) = Inr (again', s') \<and> P (again', s') \<and> f (again', s') < f (True, s)"
    if s: "initializing k xs st0 c s" for again s
  proof -
    from init_pass_passed [OF start s] obtain s' where s': "init_pass k s = Inr s'"
      "initializing k xs st0 c s'" "passed st0 xs xs (s\<lparr>hasUnitializedDependencies := False\<rparr>) s'" by blast
    have stop: "\<not> in_stop s'" using s'(2) by (simp add: initializing_def)
    show ?thesis
    proof (cases "hasUnitializedDependencies s'")
      case True
      with s'(3) have "waiting xs (in_lnk s) \<noteq> {}" by (simp add: passed_def)
      then have "0 < card (waiting xs (in_lnk s))" by (simp add: card_gt_0_iff)
      with passed_progress [OF s'(3) _ rank] have "card (waiting xs (in_lnk s')) < card (waiting xs (in_lnk s))"
        by (cases "waiting xs (in_lnk s') = {}") simp_all
      with True s' stop show ?thesis by (intro exI [of _ True] exI [of _ s']) (simp add: P_def f_def)
    next
      case False
      with s'(3) have "waiting xs (in_lnk s') = {}" by (auto simp: passed_def waiting_def)
      with False s' show ?thesis by (intro exI [of _ False] exI [of _ s']) (simp add: P_def f_def)
    qed
  qed
  have "\<exists>r. c_while fst ?body (True, s) = Some r \<and>
      (case r of Inl e \<Rightarrow> False | Inr t \<Rightarrow> P t \<and> \<not> fst t)"
  proof (rule c_while_total [where f = f])
    show "P (True, s)" using inv by (simp add: P_def)
  next
    fix t t' assume t: "P t" "fst t" "?body t = Inr t'"
    then have "initializing k xs st0 c (snd t)" by (auto simp: P_def split: prod.splits)
    from step [OF this, of "fst t"] t show "P t' \<and> f t' < f t" by (cases t) auto
  next
    fix t e assume t: "P t" "fst t" "?body t = Inl e"
    then have "initializing k xs st0 c (snd t)" by (auto simp: P_def split: prod.splits)
    from step [OF this, of "fst t"] t show False by (cases t) auto
  qed
  then obtain r where r: "c_while fst ?body (True, s) = Some r"
    "case r of Inl e \<Rightarrow> False | Inr t \<Rightarrow> P t \<and> \<not> fst t" by blast
  then obtain s' where "r = Inr (False, s')" "P (False, s')" by (cases r) auto
  with r(1) show ?thesis by (auto simp: run_init_def P_def)
qed

lemma doInitialize_again: "initialized st i \<Longrightarrow> doInitialize k i st = Inr st"
  by (auto simp: initialized_def doInitialize_def)

lemma doInitialize_links: "doInitialize k i st = Inr st' \<Longrightarrow> links (l_images st') = links (l_images st)"
  by (auto simp: doInitialize_def links_def set_image_def fun_eq_iff split: if_splits)

lemma circ_init_nothing:
  assumes "chain (l_images st) (sFirstImage st) xs" "\<forall>i\<in>set xs. initialized st i"
  shows "circ_init k st = Inr st"
proof -
  have "foldR (doInitialize k) xs st = Inr st"
    using assms(2) by (induction xs) (simp_all add: doInitialize_again)
  then show ?thesis
    unfolding circ_init_def using assms(1) by (simp add: each_image_chain doInitialize_links)
qed

lemma initializing_start:
  assumes "startable k xs st"
  shows "initializing k xs st c \<lparr>in_lnk = st, in_ccount = 0, in_icount = sImageCount st,
    hasUnitializedDependencies = False, runCircularInitializer = c, in_stop = False\<rparr>"
proof -
  have "waiting xs st = set xs" using assms by (auto simp: waiting_def startable_def)
  moreover have "distinct xs" using assms by (auto simp: startable_def well_linked_def dest: chain_distinct)
  ultimately have "card (waiting xs st) = length xs" by (simp add: distinct_card)
  then show ?thesis using assms
    by (simp add: initializing_def reached_def startable_def well_linked_def in_order_def)
qed

lemma initializeChain_ends:
  assumes "startable k xs st"
    and rank: "\<And>i d. i \<in> set xs \<Longrightarrow> d \<in> set (deps_of st i) \<Longrightarrow> rank d < (rank i :: nat)"
  shows "\<exists>st'. initializeChain k c st = Inr st' \<and> reached k st xs st' \<and> waiting xs st' = {}"
proof -
  from run_init_ends [where rank = rank, OF assms(1) initializing_start [OF assms(1)] rank] obtain s' where
    s': "run_init k \<lparr>in_lnk = st, in_ccount = 0, in_icount = sImageCount st,
      hasUnitializedDependencies = False, runCircularInitializer = c, in_stop = False\<rparr> = Inr s'"
    "initializing k xs st c s'" "waiting xs (in_lnk s') = {}" by blast
  have re: "reached k st xs (in_lnk s')" using s'(2) by (simp add: initializing_def)
  have "chain (l_images st) (sFirstImage st) xs" using assms(1) by (simp add: startable_def well_linked_def)
  moreover have "same_but_flag (l_images st) (l_images (in_lnk s'))" "sFirstImage (in_lnk s') = sFirstImage st"
    using re by (simp_all add: reached_def)
  ultimately have "chain (l_images (in_lnk s')) (sFirstImage (in_lnk s')) xs"
    by (simp only: same_but_flag_chain)
  moreover have "\<forall>i\<in>set xs. initialized (in_lnk s') i" using s'(3) by (auto simp: waiting_def)
  ultimately have "circ_init k (in_lnk s') = Inr (in_lnk s')" by (rule circ_init_nothing)
  with s' re show ?thesis by (simp add: initializeChain_def)
qed

lemma c_while_diverges:
  assumes "\<And>s. P s \<Longrightarrow> b s \<and> (\<exists>s'. c s = Inr s' \<and> P s')" "P s"
  shows "c_while b c s = None"
proof -
  have "\<not> P s" if "c_while b c s = Some r" for s r
  proof -
    have "b = b \<longrightarrow> c = c \<longrightarrow> \<not> P s"
    proof (rule c_while.raw_induct [where P = "\<lambda>b' c' s r. b' = b \<longrightarrow> c' = c \<longrightarrow> \<not> P s", OF _ that], intro impI)
      fix loop b' c' s r
      assume IH: "\<And>b' c' s r. loop b' c' s = Some r \<Longrightarrow> b' = b \<longrightarrow> c' = c \<longrightarrow> \<not> P s"
        and step: "(if b' s then case c' s of Inl e \<Rightarrow> Some (Inl e) | Inr s' \<Rightarrow> loop b' c' s' else Some (Inr s)) = Some r"
        and eqs: "b' = b" "c' = c"
      show "\<not> P s"
      proof
        assume "P s"
        with assms(1) obtain s' where s': "b s" "c s = Inr s'" "P s'" by blast
        with step eqs have "loop b c s' = Some r" by simp
        from IH [OF this] s'(3) show False by simp
      qed
    qed
    then show ?thesis by simp
  qed
  with assms(2) show ?thesis by (cases "c_while b c s") auto
qed

lemma initializeChain_hangs:
  assumes start: "startable k xs st" and C: "C \<subseteq> set xs" "C \<noteq> {}" "stuck st C"
  shows "initializeChain k c st = Inl Hang"
proof -
  let ?body = "\<lambda>(again :: bool, s). mapR (\<lambda>s. (\<not> in_stop s \<and> hasUnitializedDependencies s, s)) (init_pass k s)"
  define P where "P = (\<lambda>(again, s :: init_state). again \<and> initializing k xs st c s \<and> C \<subseteq> waiting xs (in_lnk s))"
  have "c_while fst ?body (True, s) = None" if "initializing k xs st c s" "C \<subseteq> waiting xs (in_lnk s)" for s
  proof (rule c_while_diverges [where P = P])
    show "P (True, s)" using that by (simp add: P_def)
  next
    fix t assume "P t"
    then obtain s where t: "t = (True, s)" "initializing k xs st c s" "C \<subseteq> waiting xs (in_lnk s)"
      by (cases t) (auto simp: P_def)
    from init_pass_passed [OF start t(2)] obtain s' where s': "init_pass k s = Inr s'"
      "initializing k xs st c s'" "passed st xs xs (s\<lparr>hasUnitializedDependencies := False\<rparr>) s'" by blast
    from s'(3) have "keeps_stuck st xs (s\<lparr>hasUnitializedDependencies := False\<rparr>) s'" by (simp add: passed_def)
    with C(3) t(3) have C': "C \<subseteq> waiting xs (in_lnk s')" by (simp add: keeps_stuck_def)
    from C(1,2) obtain i where "i \<in> C" "i \<in> set xs" by blast
    with passed_waits [OF s'(3)] C' have "hasUnitializedDependencies s'" by blast
    moreover have "\<not> in_stop s'" using s'(2) by (simp add: initializing_def)
    ultimately have "P (True, s')" "?body t = Inr (True, s')" using s' C' by (simp_all add: P_def t(1))
    then show "fst t \<and> (\<exists>t'. ?body t = Inr t' \<and> P t')" using t(1) by auto
  qed
  moreover have "C \<subseteq> waiting xs st" using C(1) start by (auto simp: waiting_def startable_def)
  ultimately show ?thesis
    using initializing_start [OF start, of c] by (simp add: initializeChain_def run_init_def)
qed

section \<open>Four images\<close>

text \<open>The linker's image and three libraries whose dependencies are given; each has one initializer.\<close>

definition example_image :: "image_id option \<Rightarrow> image_id list \<Rightarrow> u32 \<Rightarrow> image" where
  "example_image nxt deps init = new_image\<lparr>fNextImage := nxt, fDependencies := deps, fRoutines := Some init\<rparr>"

definition four_images :: "image_id list \<Rightarrow> image_id list \<Rightarrow> image_id list \<Rightarrow> lnk" where
  "four_images d1 d2 d3 = example_start\<lparr>l_images := [0 \<mapsto> example_image (Some 1) [] 0x100,
     1 \<mapsto> example_image (Some 2) d1 0x200, 2 \<mapsto> example_image (Some 3) d2 0x300,
     3 \<mapsto> example_image None d3 0x400], l_next := 4, sImageCount := 4\<rparr>"

lemma example_image_fields [simp]:
  "fNextImage (example_image n ds f) = n" "fDependencies (example_image n ds f) = ds"
  "fReExports (example_image n ds f) = []" "fHasInitialized (example_image n ds f) = False"
  "fOrigFilePath (example_image n ds f) = None"
  by (simp_all add: example_image_def new_image_def)

lemma example_image_returns: "initializers_return example_kernel (example_image n ds f) m"
  by (simp add: initializers_return_def run_initializers_def example_image_def new_image_def
      callInitializer_def example_kernel_def)

lemma four_images_fields:
  "l_images (four_images d1 d2 d3) = [0 \<mapsto> example_image (Some 1) [] 0x100,
     1 \<mapsto> example_image (Some 2) d1 0x200, 2 \<mapsto> example_image (Some 3) d2 0x300,
     3 \<mapsto> example_image None d3 0x400]"
  "sFirstImage (four_images d1 d2 d3) = Some 0" "sDylinker (four_images d1 d2 d3) = Some 0"
  "l_next (four_images d1 d2 d3) = 4" "sImageCount (four_images d1 d2 d3) = 4"
  "l_calls (four_images d1 d2 d3) = []"
  by (simp_all add: four_images_def example_start_def)

lemma four_images_startable:
  assumes "set d1 \<subseteq> {0, 2}" "set d2 \<subseteq> {0, 3}" "set d3 \<subseteq> {0, 1}"
  shows "startable example_kernel [0, 1, 2, 3] (four_images d1 d2 d3)"
proof -
  have cases: "i \<in> {0, 1, 2, 3}" if "l_images (four_images d1 d2 d3) i = Some im" for i im
    using that by (auto simp: four_images_fields split: if_splits)
  have none: "fOrigFilePath im = None \<and> \<not> fHasInitialized im \<and> initializers_return example_kernel im m"
    if "l_images (four_images d1 d2 d3) i = Some im" for i im m
    using that by (auto simp: four_images_fields example_image_returns split: if_splits)
  have "well_linked [0, 1, 2, 3] (four_images d1 d2 d3)"
    unfolding well_linked_def
  proof (intro conjI allI impI ballI)
    show "chain (l_images (four_images d1 d2 d3)) (sFirstImage (four_images d1 d2 d3)) [0, 1, 2, 3]"
      by (simp add: four_images_fields chain_Some)
    fix i im assume im: "l_images (four_images d1 d2 d3) i = Some im"
    from cases [OF im] show "i < l_next (four_images d1 d2 d3)" by (auto simp: four_images_fields)
    from im have "fDependencies im \<in> {[], d1, d2, d3} \<and> fReExports im = []"
      by (auto simp: four_images_fields split: if_splits)
    moreover have "set d1 \<subseteq> {0, 1, 2, 3}" "set d2 \<subseteq> {0, 1, 2, 3}" "set d3 \<subseteq> {0, 1, 2, 3}"
      using assms by blast+
    ultimately show "set (fDependencies im) \<subseteq> set [0, 1, 2, 3]" "set (fReExports im) \<subseteq> set (fDependencies im)"
      by (elim conjE insertE emptyE; simp only: list.set empty_subsetI)+
  qed (use none in \<open>auto simp: four_images_fields loaded_from_def\<close>)
  moreover have "j \<notin> set (deps_of (four_images d1 d2 d3) d)"
    if "j \<in> set [0, 1, 2, 3]" "d \<in> set (deps_of (four_images d1 d2 d3) j)" for j d
    using that assms by (auto simp: deps_of_def four_images_fields split: if_splits)
  ultimately show ?thesis
    using none by (auto simp: startable_def initialized_def four_images_fields(6))
qed

section \<open>Properties\<close>

text \<open>
  C29: If no image depends, directly or indirectly, on itself, none is initialized yet and every initializer returns and
  maps nothing, then initializing the chain ends, whatever the flag it reads uninitialised holds; afterwards every
  image has been initialized, and the initializers of an image ran after those of the images
  it depends on.
\<close>

theorem initializers_run_in_order:
  assumes "startable k xs st"
    and "\<forall>i\<in>set xs. \<forall>d\<in>set (deps_of st i). rank d < (rank i :: nat)"
  shows "\<exists>st'. initializeChain k runCircular st = Inr st' \<and> (\<forall>i\<in>set xs. initialized st' i) \<and>
    (\<forall>later d f earlier i. l_calls st' = later @ (d, f) # earlier \<and> d \<in> set (deps_of st i) \<longrightarrow>
      i \<notin> fst ` set earlier)"
proof -
  from initializeChain_ends [OF assms(1), of rank runCircular] assms(2) obtain st' where
    st': "initializeChain k runCircular st = Inr st'" "reached k st xs st'" "waiting xs st' = {}" by blast
  from st'(2) have "in_order st (l_calls st')" by (simp add: reached_def)
  moreover have "\<forall>i\<in>set xs. initialized st' i" using st'(3) by (auto simp: waiting_def)
  ultimately show ?thesis using st'(1) unfolding in_order_def by blast
qed

lemma initializers_run_in_order_witness:
  "\<exists>st'. initializeChain example_kernel False (four_images [2] [3] [0]) = Inr st' \<and>
     (\<forall>i\<in>set [0, 1, 2, 3]. initialized st' i)"
proof -
  have "startable example_kernel [0, 1, 2, 3] (four_images [2] [3] [0])"
    by (rule four_images_startable) simp_all
  moreover have "\<forall>i\<in>set [0, 1, 2, 3]. \<forall>d\<in>set (deps_of (four_images [2] [3] [0]) i).
      (if d = 0 then 0 else 4 - d) < (if i = 0 then 0 else 4 - i :: nat)"
    by (simp add: deps_of_def four_images_fields)
  ultimately show ?thesis
    using initializers_run_in_order [where rank = "\<lambda>d. if d = 0 then 0 else 4 - d" and runCircular = False]
    by blast
qed

text \<open>
  C30: The linker recognises circles of two images only. In a chain of images none of which is
  initialized, whose initializers all return and map nothing, and of which no two depend on each
  other, if some images each depend on another one of them, initializing the chain never ends.
\<close>

theorem longer_circles_hang:
  assumes "startable k xs st" "C \<subseteq> set xs" "C \<noteq> {}" "\<forall>i\<in>C. \<exists>d\<in>C. d \<in> set (deps_of st i)"
  shows "initializeChain k runCircular st = Inl Hang"
  using initializeChain_hangs [OF assms(1-3)] assms(4) by (simp add: stuck_def)

lemma longer_circles_hang_witness:
  "initializeChain example_kernel False (four_images [2] [3] [1]) = Inl Hang"
proof (rule longer_circles_hang)
  show "startable example_kernel [0, 1, 2, 3] (four_images [2] [3] [1])"
    by (rule four_images_startable) simp_all
  show "\<forall>i\<in>{1, 2, 3}. \<exists>d\<in>{1, 2, 3}. d \<in> set (deps_of (four_images [2] [3] [1]) i)"
    by (simp add: deps_of_def four_images_fields)
qed auto

end
