(* ===== verification/DyldApi.thy ===== *)
theory DyldApi
  imports InitOrder
begin

text \<open>
  The interface of the linker to running programs (src/core/lnk_api.cpp): enumerating the loaded
  images, the image an address lies in, opening a library and looking up its symbols, and the
  handlers that are told about loaded images.
\<close>

section \<open>Enumerating the images\<close>

partial_function (option) count_loop :: "images \<Rightarrow> image_id option \<Rightarrow> u32 \<Rightarrow> u32 res option" where
  "count_loop ims im count =
     (if im = None then Some (Inr count)
      else (case image_of ims (the im) of
          Inl e \<Rightarrow> Some (Inl e)
        | Inr img \<Rightarrow> count_loop ims (fNextImage img) (count + 1)))"

definition dyld_image_count :: "lnk \<Rightarrow> u32 res" where
  "dyld_image_count st = run_loop (count_loop (l_images st) (sFirstImage st) 0)"

text \<open>The image whose turn comes when the counter is \<open>image_index\<close>.\<close>

partial_function (option) index_loop ::
    "images \<Rightarrow> u32 \<Rightarrow> image_id option \<Rightarrow> u32 \<Rightarrow> image option res option" where
  "index_loop ims image_index im count =
     (if im = None then Some (Inr None)
      else (case image_of ims (the im) of
          Inl e \<Rightarrow> Some (Inl e)
        | Inr img \<Rightarrow>
            if count = image_index then Some (Inr (Some img))
            else index_loop ims image_index (fNextImage img) (count + 1)))"

definition dyld_get_image_header :: "lnk \<Rightarrow> u32 \<Rightarrow> u32 res" where
  "dyld_get_image_header st image_index =
     mapR (\<lambda>r. case r of None \<Rightarrow> 0 | Some obj \<Rightarrow> fHeader obj)
       (run_loop (index_loop (l_images st) image_index (sFirstImage st) 0))"

definition dyld_get_image_vmaddr_slide :: "lnk \<Rightarrow> u32 \<Rightarrow> u32 res" where
  "dyld_get_image_vmaddr_slide st image_index =
     mapR (\<lambda>r. case r of None \<Rightarrow> 0 | Some obj \<Rightarrow> fSlide obj)
       (run_loop (index_loop (l_images st) image_index (sFirstImage st) 0))"

section \<open>The image an address lies in\<close>

definition in_text :: "u32 \<Rightarrow> image \<Rightarrow> bool res" where
  "in_text uptr obj = mapR (\<lambda>(start, end). uptr \<le> end \<and> uptr \<ge> start) (getTextSegmentBounds obj)"

partial_function (option) dladdr_loop ::
    "images \<Rightarrow> u32 \<Rightarrow> image_id option \<Rightarrow> image option res option" where
  "dladdr_loop ims uptr im =
     (if im = None then Some (Inr None)
      else (case image_of ims (the im) of
          Inl e \<Rightarrow> Some (Inl e)
        | Inr obj \<Rightarrow> (case in_text uptr obj of
            Inl e \<Rightarrow> Some (Inl e)
          | Inr found \<Rightarrow>
              if found then Some (Inr (Some obj)) else dladdr_loop ims uptr (fNextImage obj))))"

text \<open>
  \<open>Dl_info\<close>: the name and base of the image; the two fields about the symbol are always set to
  NULL. \<open>dladdr\<close> returns the fields it stores when it succeeds; the ones of the image keep what
  they held when it does not.
\<close>

record Dl_info =
  dli_fname :: "string option"
  dli_fbase :: u32

definition dladdr :: "lnk \<Rightarrow> u32 \<Rightarrow> Dl_info option res" where
  "dladdr st ptr =
     mapR (map_option (\<lambda>im. \<lparr>dli_fname = fFilePath im, dli_fbase = fSlide im\<rparr>))
       (run_loop (dladdr_loop (l_images st) ptr (sFirstImage st)))"

section \<open>Opening a library\<close>

text \<open>
  The result is the handle, NULL being \<open>None\<close>. \<open>already_loaded\<close> is read only if the library is
  not the first image, which is the one case in which it was not stored to.
\<close>

definition dlopen :: "kernel \<Rightarrow> nat \<Rightarrow> string \<Rightarrow> lnk \<Rightarrow> (image_id option \<times> lnk) res option" where
  "dlopen k fuel path st =
     bindO (loadLibraryEx k fuel path st) (\<lambda>((dlib, already_loaded), st).
     if dlib = sFirstImage st then Some (Inr (None, st))
     else (case already_loaded of
         None \<Rightarrow> Some (Inl Undefined)
       | Some True \<Rightarrow> Some (Inr (dlib, st))
       | Some False \<Rightarrow> (case dlib of
           None \<Rightarrow> Some (Inl (Fault 0))
         | Some i \<Rightarrow>
             bindO (Some (bind_image i st)) (\<lambda>st.
             bindO (Some (doInitialize k i st)) (\<lambda>st. Some (Inr (dlib, st)))))))"

text \<open>The symbol is looked up with an underscore in front.\<close>

definition dlsym :: "lnk \<Rightarrow> image_id option \<Rightarrow> u8 list \<Rightarrow> u32 res" where
  "dlsym st handle symbol = (case handle of
     None \<Rightarrow> Inl (Fault 0)
   | Some dlib \<Rightarrow>
       bindR (run_loop (findExportedSymbol (l_images st) (l_mem st) (0x5F # symbol) dlib)) (\<lambda>r. case r of
         None \<Rightarrow> Inr 0
       | Some found \<Rightarrow> exportedSymbolAddress (l_images st) (l_mem st) found))"

definition dlclose :: "'a res" where "dlclose = Inl (Halt NotImplemented)"
definition dlopen_preflight :: "'a res" where "dlopen_preflight = Inl (Halt NotImplemented)"
definition dlerror :: "'a res" where "dlerror = Inl (Halt NotImplemented)"

section \<open>Handlers\<close>

text \<open>
  A handler is the address of a function of the program. The calls made are recorded: the
  handler and what it was called with, the last one first.
\<close>

datatype notification =
    AddImage u32 u32 u32
  | StateChange u32 "u32 list"

record ChangeHandler =
  ch_fn :: u32
  ch_state :: u32
  ch_batch :: bool

record api =
  a_lnk :: lnk
  sAddHandlers :: "u32 list"
  sChangeHandlers :: "ChangeHandler list"
  a_calls :: "notification list"

text \<open>The array of image information has room for 1024 entries, the main executable's included.\<close>

partial_function (option) info_loop :: "images \<Rightarrow> image_id option \<Rightarrow> u32 list \<Rightarrow> u32 list res option" where
  "info_loop ims im infos =
     (if im = None then Some (Inr infos)
      else (case image_of ims (the im) of
          Inl e \<Rightarrow> Some (Inl e)
        | Inr obj \<Rightarrow>
            if fImageType obj \<noteq> kImageTypeMachO then Some (Inl (Halt NotMachO))
            else if length infos \<ge> 1024 then Some (Inl Undefined)
            else info_loop ims (fNextImage obj) (infos @ [fHeader obj])))"

definition runBatchNotificationsWithHandler :: "ChangeHandler \<Rightarrow> api \<Rightarrow> api res" where
  "runBatchNotificationsWithHandler h a =
     (let st = a_lnk a in
      bindR (run_loop (info_loop (l_images st) (sFirstImage st) [])) (\<lambda>infos.
      bindR (case sMainExecutable st of None \<Rightarrow> Inl (Fault 0) | Some i \<Rightarrow> image_of (l_images st) i) (\<lambda>obj.
        if length infos \<ge> 1024 then Inl Undefined
        else Inr (a\<lparr>a_calls := StateChange (ch_fn h) (infos @ [fHeader obj]) # a_calls a\<rparr>))))"

definition runBoundNotifications :: "api \<Rightarrow> api res" where
  "runBoundNotifications a = foldR runBatchNotificationsWithHandler (sChangeHandlers a) a"

definition dyld_register_image_state_change_handler :: "u32 \<Rightarrow> bool \<Rightarrow> u32 \<Rightarrow> api \<Rightarrow> api res" where
  "dyld_register_image_state_change_handler state batch handler a =
     (let h = \<lparr>ch_fn = handler, ch_state = state, ch_batch = batch\<rparr> in
      if length (sChangeHandlers a) \<ge> 1024 then Inl Undefined
      else runBatchNotificationsWithHandler h (a\<lparr>sChangeHandlers := sChangeHandlers a @ [h]\<rparr>))"

definition add_image_call :: "u32 \<Rightarrow> image_id \<Rightarrow> api \<Rightarrow> api res" where
  "add_image_call fn i a =
     bindR (image_of (l_images (a_lnk a)) i) (\<lambda>obj.
       Inr (a\<lparr>a_calls := AddImage fn (fHeader obj) (fSlide obj) # a_calls a\<rparr>))"

definition runAddImageHandler :: "u32 \<Rightarrow> api \<Rightarrow> api res" where
  "runAddImageHandler fn a =
     each_image (\<lambda>a. l_images (a_lnk a)) (add_image_call fn) (sFirstImage (a_lnk a)) a"

definition dyld_register_func_for_add_image :: "u32 \<Rightarrow> api \<Rightarrow> api res" where
  "dyld_register_func_for_add_image hn a =
     (if length (sAddHandlers a) \<ge> 1024 then Inl Undefined
      else runAddImageHandler hn (a\<lparr>sAddHandlers := sAddHandlers a @ [hn]\<rparr>))"

definition dyld_register_func_for_remove_image :: "u32 \<Rightarrow> api \<Rightarrow> api res" where
  "dyld_register_func_for_remove_image func a = Inr a"

section \<open>The loops on the chain\<close>

lemma count_loop_chain: "chain ims p xs \<Longrightarrow> count_loop ims p n = Some (Inr (n + of_nat (length xs)))"
  by (induction p xs arbitrary: n rule: chain.induct) (simp_all add: count_loop.simps algebra_simps)

lemma index_loop_chain:
  "chain ims p xs \<Longrightarrow> unat c + length xs < 2 ^ 32 \<Longrightarrow> unat c \<le> unat n \<Longrightarrow>
    index_loop ims n p c =
      Some (Inr (if unat n - unat c < length xs then ims (xs ! (unat n - unat c)) else None))"
proof (induction p xs arbitrary: c rule: chain.induct)
  case (chain_next i im xs)
  show ?case
  proof (cases "c = n")
    case True
    with chain_next.hyps show ?thesis by (simp add: index_loop.simps)
  next
    case False
    with chain_next.prems(2) have less: "unat c < unat n" by (metis le_neq_implies_less word_unat_eq_iff)
    from chain_next.prems(1) have c1: "unat (c + 1) = Suc (unat c)"
      by (subst unat_add_lem [THEN iffD1]) simp_all
    have "index_loop ims n (Some i) c = index_loop ims n (fNextImage im) (c + 1)"
      using chain_next.hyps(1) False by (simp add: index_loop.simps [of ims n "Some i"])
    also have "\<dots> = Some (Inr (if unat n - unat (c + 1) < length xs
        then ims (xs ! (unat n - unat (c + 1))) else None))"
      by (rule chain_next.IH) (use chain_next.prems less c1 in auto)
    finally have rest: "index_loop ims n (Some i) c = Some (Inr (if unat n - unat (c + 1) < length xs
        then ims (xs ! (unat n - unat (c + 1))) else None))" .
    have "unat n - unat c = Suc (unat n - unat (c + 1))" using less c1 by simp
    with rest show ?thesis by simp
  qed
qed (simp add: index_loop.simps)

text \<open>What \<open>dladdr\<close> tests: the end of the segment is taken to belong to it.\<close>

definition text_contains :: "images \<Rightarrow> u32 \<Rightarrow> image_id \<Rightarrow> bool" where
  "text_contains ims a i \<longleftrightarrow> (\<exists>im seg segs. ims i = Some im \<and> fSegmentLoadCommands im = seg # segs \<and>
     vmaddr seg + fSlide im \<le> a \<and> a \<le> vmaddr seg + fSlide im + vmsize seg)"

lemma in_text_eq:
  assumes "ims i = Some im" "fSegmentLoadCommands im \<noteq> []"
  shows "in_text a im = Inr (text_contains ims a i)"
  using assms by (cases "fSegmentLoadCommands im")
    (auto simp: in_text_def getTextSegmentBounds_def segment_defs text_contains_def)

lemma dladdr_loop_chain:
  assumes "chain ims p xs" "\<forall>i\<in>set xs. \<forall>im. ims i = Some im \<longrightarrow> fSegmentLoadCommands im \<noteq> []"
  shows "dladdr_loop ims a p = Some (Inr (Option.bind (List.find (text_contains ims a) xs) ims))"
  using assms
proof (induction p xs rule: chain.induct)
  case (chain_next i im xs)
  have "in_text a im = Inr (text_contains ims a i)"
    using chain_next.hyps(1) chain_next.prems by (intro in_text_eq) auto
  with chain_next show ?case by (simp add: dladdr_loop.simps [of ims a "Some i"])
qed (simp add: dladdr_loop.simps)

text \<open>
  The text segment of an image, its first one, as an interval of addresses: from its start up to
  but without its end. \<open>text_end\<close> is the address past it.
\<close>

definition text_holds :: "images \<Rightarrow> u32 \<Rightarrow> image_id \<Rightarrow> bool" where
  "text_holds ims a i \<longleftrightarrow> (\<exists>im seg segs. ims i = Some im \<and> fSegmentLoadCommands im = seg # segs \<and>
     unat a \<in> {unat (vmaddr seg + fSlide im)..<unat (vmaddr seg + fSlide im) + unat (vmsize seg)})"

definition text_end :: "image \<Rightarrow> nat" where
  "text_end im = (case fSegmentLoadCommands im of
     [] \<Rightarrow> 0 | seg # segs \<Rightarrow> unat (vmaddr seg + fSlide im) + unat (vmsize seg))"

lemma text_contains_holds:
  assumes "ims i = Some im" "text_end im < 2 ^ 32" "unat a \<noteq> text_end im"
  shows "text_contains ims a i \<longleftrightarrow> text_holds ims a i"
proof (cases "fSegmentLoadCommands im")
  case Nil
  with assms(1) show ?thesis by (simp add: text_contains_def text_holds_def)
next
  case (Cons seg segs)
  let ?start = "vmaddr seg + fSlide im"
  have "unat (?start + vmsize seg) = unat ?start + unat (vmsize seg)"
    using assms(2) Cons by (subst unat_add_lem [symmetric]) (simp add: text_end_def)
  then show ?thesis using assms Cons
    by (auto simp: text_contains_def text_holds_def text_end_def word_le_nat_alt)
qed

section \<open>Opening twice\<close>

text \<open>Binding and initializing an image leave what the chain looks at.\<close>

definition same_chain :: "lnk \<Rightarrow> lnk \<Rightarrow> bool" where
  "same_chain st st' \<longleftrightarrow> (\<forall>xs. well_linked xs st \<longrightarrow> well_linked xs st') \<and>
     loaded_from (l_images st') = loaded_from (l_images st)"

lemma bind_image_same_chain: "bind_image i st = Inr st' \<Longrightarrow> same_chain st st'"
proof -
  assume "bind_image i st = Inr st'"
  then obtain m u where "st' = st\<lparr>l_mem := m, sUnresolvedCount := u\<rparr>" by (auto simp: bind_image_def)
  then show ?thesis by (simp add: same_chain_def well_linked_def)
qed

lemma bind_image_first: "bind_image i st = Inr st' \<Longrightarrow> sFirstImage st' = sFirstImage st"
  by (auto simp: bind_image_def)

lemma doInitialize_first: "doInitialize k i st = Inr st' \<Longrightarrow> sFirstImage st' = sFirstImage st"
  by (auto simp: doInitialize_def set_image_def split: if_splits)

lemma doInitialize_same_chain:
  assumes "doInitialize k i st = Inr st'"
  shows "same_chain st st'"
proof -
  from assms obtain im where im: "l_images st i = Some im" by (auto simp: doInitialize_def)
  show ?thesis
  proof (cases "fHasInitialized im")
    case True
    with assms im show ?thesis by (simp add: doInitialize_def same_chain_def)
  next
    case False
    with assms im obtain m calls where st': "st' = set_image i (im\<lparr>fHasInitialized := True\<rparr>)
        (st\<lparr>l_mem := m, l_calls := calls\<rparr>)"
      by (auto simp: doInitialize_def)
    have "loaded_from (l_images st') = loaded_from (l_images st)"
      by (auto simp: st' loaded_from_def set_image_def fun_eq_iff im)
    moreover have "well_linked xs st'" if "well_linked xs st" for xs
    proof -
      have "well_linked xs (st\<lparr>l_mem := m, l_calls := calls\<rparr>)" using that by (simp add: well_linked_def)
      moreover have "set (fDependencies im) \<subseteq> set xs" "set (fReExports im) \<subseteq> set (fDependencies im)"
        using that im unfolding well_linked_def by blast+
      ultimately show ?thesis unfolding st' using im by (intro well_linked_set_image) simp_all
    qed
    ultimately show ?thesis by (simp add: same_chain_def)
  qed
qed

lemma same_chain_trans: "same_chain a b \<Longrightarrow> same_chain b c \<Longrightarrow> same_chain a c"
  by (simp add: same_chain_def)

lemma dlopen_links:
  assumes "dlopen k fuel path st = Some (Inr (Some h, st'))" "well_linked xs st" "sDylinker st = sFirstImage st"
  shows "\<exists>ys. well_linked ys st' \<and> h \<in> set ys \<and> loaded_from (l_images st') path h \<and> Some h \<noteq> sFirstImage st' \<and>
    path \<notin> {LIBSYSTEM_PATH, LIBGCC_PATH}"
proof -
  from assms(1) obtain r al st1 where ld: "loadLibraryEx k fuel path st = Some (Inr ((r, al), st1))"
    and ne: "r \<noteq> sFirstImage st1"
    and rest: "(case al of None \<Rightarrow> Some (Inl Undefined) | Some True \<Rightarrow> Some (Inr (r, st1))
       | Some False \<Rightarrow> (case r of None \<Rightarrow> Some (Inl (Fault 0)) | Some i \<Rightarrow>
           bindO (Some (bind_image i st1)) (\<lambda>st. bindO (Some (doInitialize k i st)) (\<lambda>st. Some (Inr (r, st)))))) =
       Some (Inr (Some h, st'))"
    by (auto simp: dlopen_def split: if_splits)
  obtain n where "fuel = Suc n" using ld by (cases fuel) auto
  with ld have step: "load_step k (loadLibraryEx k n) path st = Some (Inr ((r, al), st1))" by simp
  have first: "sFirstImage st = Some (hd xs)" if "hd xs \<in> set xs"
    using assms(2) that by (cases xs) (auto simp: well_linked_def chain_Cons)
  from step assms(2) show ?thesis
  proof (cases rule: load_step_cases)
    case system
    with ne first show ?thesis by simp
  next
    case missing
    with ne assms(3) show ?thesis by simp
  next
    case (loaded j)
    have "path \<notin> {LIBSYSTEM_PATH, LIBGCC_PATH}"
      using step ne loaded(3,4) by (auto simp: load_step_def)
    with loaded rest ne assms(2) show ?thesis by (intro exI [of _ xs]) auto
  next
    case (new nn fl lib s1 s2 s3 m)
    from loadEx.load_step_keeps [OF step assms(2)] new(1,3,7) obtain ys where
      ys: "well_linked ys st1" "lib \<in> set ys" "loaded_from (l_images st1) path lib"
      by (auto simp: loads_def)
    from rest new(7,9) obtain st2 where st2: "bind_image lib st1 = Inr st2" "doInitialize k lib st2 = Inr st'"
      and h: "h = lib" by auto
    have "same_chain st1 st'"
      using same_chain_trans [OF bind_image_same_chain [OF st2(1)] doInitialize_same_chain [OF st2(2)]] .
    moreover have "sFirstImage st' = sFirstImage st1"
      using bind_image_first [OF st2(1)] doInitialize_first [OF st2(2)] by simp
    ultimately show ?thesis using ys ne new(1,7) unfolding h same_chain_def by metis
  qed
qed

section \<open>A library without symbols\<close>

definition plugin_file :: macho_file where
  "plugin_file = \<lparr>f_magic = 0xFEEDFACE, f_commands =
     [LC_SEGMENT \<lparr>segname = ''__TEXT'', vmaddr = 0x30000, vmsize = 0x1000, fileoff = 0,
        filesize = 0x1000, initprot = 7, sections = []\<rparr>,
      LC_DYSYMTAB \<lparr>iextdefsym = 0, nextdefsym = 0, tocoff = 0, ntoc = 0, indirectsymoff = 0,
        extreloff = 0, nextrel = 0, locreloff = 0, nlocrel = 0\<rparr>]\<rparr>"

definition plugin_kernel :: kernel where
  "plugin_kernel = example_kernel\<lparr>k_open := [''/p'' \<mapsto> plugin_file]\<rparr>"

lemma plugin_kernel_fields: "k_compressed plugin_kernel i = False" "k_wire plugin_kernel f a n off m = m"
    "k_wire_anon plugin_kernel a n m = m" "open_library plugin_kernel ''/p'' = Some (''/p'', plugin_file)"
  by (simp_all add: plugin_kernel_def example_kernel_def open_library_def openWithPrefix_def)

lemma plugin_opens: "\<exists>st'. dlopen plugin_kernel 1 ''/p'' example_start = Some (Inr (Some 1, st'))"
  by (simp add: dlopen_def load_defs find_loaded_Some example_start_def plugin_file_def new_image_def
      plugin_kernel_fields Let_def segLoadCmd_def bind_image_def doBindSymbols_def classicBindIndirect_def
      classicBindExterns_def dynamic_info_def getClassicRelocBase_def getFirstWritableSegmentAddress_def
      segWriteable_def segActualLoadAddr_def each_reloc_stop doInitialize_def run_initializers_def)

definition loaded_plugin :: lnk where
  "loaded_plugin = four_images [2] [3] [0]\<lparr>l_images := [0 \<mapsto> new_image\<lparr>fSlide := 0x1000,
     fFilePath := Some ''/p'', fSegmentLoadCommands := [\<lparr>segname = ''__TEXT'', vmaddr = 0, vmsize = 0x1000,
       fileoff = 0, filesize = 0x1000, initprot = 5, sections = []\<rparr>]\<rparr>], sImageCount := 1\<rparr>"

section \<open>Properties\<close>

text \<open>
  C31: The three enumeration routines agree with the chain: the count is its length, and at every
  index the header and the slide are those of the image at that place, or zero past the end.
\<close>

theorem image_enumeration:
  assumes "well_linked xs st" "length xs < 2 ^ 32"
  shows "dyld_image_count st = Inr (of_nat (length xs)) \<and>
    dyld_get_image_header st n =
      Inr (if unat n < length xs then fHeader (the (l_images st (xs ! unat n))) else 0) \<and>
    dyld_get_image_vmaddr_slide st n =
      Inr (if unat n < length xs then fSlide (the (l_images st (xs ! unat n))) else 0)"
proof -
  have ch: "chain (l_images st) (sFirstImage st) xs" using assms(1) by (simp add: well_linked_def)
  have "\<exists>im. l_images st (xs ! unat n) = Some im" if "unat n < length xs"
    using chain_in_dom [OF ch] that by simp
  then show ?thesis
    using count_loop_chain [OF ch, of 0] index_loop_chain [OF ch, of 0 n] assms(2)
    by (auto simp: dyld_image_count_def dyld_get_image_header_def dyld_get_image_vmaddr_slide_def)
qed

lemma image_enumeration_witness:
  "dyld_image_count (four_images [2] [3] [0]) = Inr 4 \<and>
   dyld_get_image_header (four_images [2] [3] [0]) 7 = Inr 0"
proof -
  have "well_linked [0, 1, 2, 3] (four_images [2] [3] [0])"
    using four_images_startable [of "[2]" "[3]" "[0]"] by (simp add: startable_def)
  from image_enumeration [OF this, of 7] show ?thesis by simp
qed

text \<open>
  C32: An address is looked up in the chain's order: the first image whose text segment holds the
  address is reported, with its path and its slide, and nothing where there is none; for images whose
  text segment lies in the address space, and an address that is not the one past the end of such a
  segment. For that address the code reports the image.
\<close>

theorem dladdr_finds_first:
  assumes "well_linked xs st"
    and "\<forall>i\<in>set xs. \<forall>im. l_images st i = Some im \<longrightarrow>
      fSegmentLoadCommands im \<noteq> [] \<and> text_end im < 2 ^ 32 \<and> unat a \<noteq> text_end im"
  shows "dladdr st a = Inr (case List.find (text_holds (l_images st) a) xs of
      None \<Rightarrow> None
    | Some i \<Rightarrow> map_option (\<lambda>im. \<lparr>dli_fname = fFilePath im, dli_fbase = fSlide im\<rparr>) (l_images st i))"
proof -
  have chain: "chain (l_images st) (sFirstImage st) xs" using assms(1) by (simp add: well_linked_def)
  have "text_contains (l_images st) a i = text_holds (l_images st) a i" if i: "i \<in> set xs" for i
    using chain_in_dom [OF chain i] assms(2) i text_contains_holds [of "l_images st" i _ a] by blast
  then have "List.find (text_contains (l_images st) a) xs = List.find (text_holds (l_images st) a) xs"
    by (rule find_cong [OF refl])
  then show ?thesis
    using dladdr_loop_chain [OF chain, of a] assms(2) by (auto simp: dladdr_def split: option.split)
qed

lemma loaded_plugin_linked: "well_linked [0] loaded_plugin"
  by (auto simp: well_linked_def loaded_plugin_def four_images_def example_start_def chain_Some
      new_image_def split: if_splits)

lemma dladdr_finds_first_witness:
  "dladdr loaded_plugin 0x1800 = Inr (Some \<lparr>dli_fname = Some ''/p'', dli_fbase = 0x1000\<rparr>)"
proof -
  have "\<forall>i\<in>set [0]. \<forall>im. l_images loaded_plugin i = Some im \<longrightarrow>
      fSegmentLoadCommands im \<noteq> [] \<and> text_end im < 2 ^ 32 \<and> unat (0x1800 :: u32) \<noteq> text_end im"
    by (simp add: loaded_plugin_def text_end_def new_image_def)
  from dladdr_finds_first [OF loaded_plugin_linked this] show ?thesis
    by (simp add: text_holds_def loaded_plugin_def new_image_def)
qed

text \<open>One past the end of a text segment is taken for an address inside.\<close>

lemma dladdr_past_end:
  "dladdr loaded_plugin 0x2000 = Inr (Some \<lparr>dli_fname = Some ''/p'', dli_fbase = 0x1000\<rparr>) \<and>
   \<not> text_holds (l_images loaded_plugin) 0x2000 0"
  using dladdr_loop_chain [of "l_images loaded_plugin" "sFirstImage loaded_plugin" "[0]" "0x2000"] loaded_plugin_linked
  by (simp add: dladdr_def well_linked_def text_contains_def text_holds_def loaded_plugin_def new_image_def)

text \<open>
  C33: Opening a library again returns the same handle and changes nothing: its symbols are not
  bound and its initializers are not run a second time.
\<close>

theorem dlopen_twice:
  assumes "dlopen k fuel path st = Some (Inr (Some h, st'))" "well_linked xs st"
    "sDylinker st = sFirstImage st"
  shows "dlopen k (Suc fuel') path st' = Some (Inr (Some h, st'))"
proof -
  from dlopen_links [OF assms] obtain ys where ys: "well_linked ys st'" "h \<in> set ys"
    "loaded_from (l_images st') path h" "Some h \<noteq> sFirstImage st'"
    "path \<notin> {LIBSYSTEM_PATH, LIBGCC_PATH}" by blast
  from load_again [OF ys(1-3,5), of k fuel'] ys(4) show ?thesis by (simp add: dlopen_def)
qed

lemma dlopen_twice_witness: "\<exists>st'. dlopen plugin_kernel 1 ''/p'' example_start = Some (Inr (Some 1, st')) \<and>
    dlopen plugin_kernel 1 ''/p'' st' = Some (Inr (Some 1, st'))"
  using plugin_opens dlopen_twice [OF _ example_start_well_linked, where k = plugin_kernel and
      path = "''/p''" and fuel' = 0]
  by (fastforce simp: example_start_def)

end
