(* ===== verification/CrtArith.thy ===== *)
theory CrtArith
  imports CPrelude "HOL-Library.Signed_Division"
begin

text \<open>
  The trapping integer routines of the compiler runtime (src/core/CompilerRT): addition,
  subtraction, negation, absolute value and multiplication that abort on signed overflow, and
  the multiplications that report it in a flag. The routines of the three widths (\<open>si\<close>, \<open>di\<close>
  and \<open>ti\<close>) share their text in the source, so each is written once over words of any length
  and the routines of the source are its instances. \<open>compilerrt_abort\<close> is \<open>None\<close>. Signed
  overflow is the two's complement wrap-around the routines are written for.
\<close>

section \<open>Signed words\<close>

text \<open>The mathematical integers a signed word of a type can hold.\<close>

definition int_max :: "'a::len itself \<Rightarrow> int" where
  "int_max _ = 2 ^ (LENGTH('a) - 1)"

definition fits :: "'a::len itself \<Rightarrow> int \<Rightarrow> bool" where
  "fits t i \<longleftrightarrow> - int_max t \<le> i \<and> i < int_max t"

text \<open>\<open>MIN = (si_int)1 << (N-1)\<close> and \<open>MAX = ~MIN\<close>.\<close>

definition MIN_int :: "'a::len word" where
  "MIN_int = push_bit (LENGTH('a) - 1) 1"

definition MAX_int :: "'a::len word" where
  "MAX_int = NOT MIN_int"

text \<open>\<open>a >> (N - 1)\<close> on a signed \<open>a\<close>: all ones for a negative number, else zero.\<close>

definition sign_mask :: "'a::len word \<Rightarrow> 'a word" where
  "sign_mask a = signed_drop_bit (LENGTH('a) - 1) a"

text \<open>\<open>(a ^ s) - s\<close>, the negation of \<open>a\<close> where the mask \<open>s\<close> is all ones.\<close>

definition negate_if :: "'a::len word \<Rightarrow> 'a word \<Rightarrow> 'a word" where
  "negate_if s a = (a XOR s) - s"

text \<open>The quotient of two signed words as C rounds it, towards zero.\<close>

definition sdiv_word :: "'a::len word \<Rightarrow> 'a word \<Rightarrow> 'a word" where
  "sdiv_word a b = word_of_int (sint a sdiv sint b)"

lemma sint_bounds: "- int_max TYPE('a) \<le> sint (y :: 'a::len word)" "sint y < int_max TYPE('a)"
  using sint_ge [of y] sint_lt [of y] by (simp_all add: int_max_def)

lemma sint_fits [simp]: "fits TYPE('a) (sint (y :: 'a::len word))"
  by (simp add: fits_def sint_bounds)

lemma int_max_pos [simp]: "0 < int_max (t :: 'a::len itself)"
  by (simp add: int_max_def)

lemma int_max_neq [simp]: "0 \<le> int_max t" "int_max t \<noteq> 0" "\<not> int_max t < - 1" "int_max t \<noteq> - 1"
  using int_max_pos [of t] by linarith+

lemma two_int_max: "2 ^ LENGTH('a) = 2 * int_max TYPE('a::len)"
  by (simp add: int_max_def flip: power_Suc)

text \<open>A signed word holds what fits, and wraps around on what does not.\<close>

lemma sint_of_int: "fits TYPE('a::len) i \<Longrightarrow> sint (word_of_int i :: 'a word) = i"
  by (simp add: fits_def int_max_def sint_uint uint_word_of_int_eq signed_take_bit_take_bit
      signed_take_bit_int_eq_self)

lemma sint_wrap:
  assumes "fits TYPE('a::len) (i + k * 2 ^ LENGTH('a))"
  shows "sint (word_of_int i :: 'a word) = i + k * 2 ^ LENGTH('a)"
proof -
  have "(word_of_int i :: 'a word) = word_of_int (i + k * 2 ^ LENGTH('a))"
    by (simp add: word_of_int_eq_iff take_bit_eq_mod)
  also have "sint \<dots> = i + k * 2 ^ LENGTH('a)"
    using assms by (rule sint_of_int)
  finally show ?thesis .
qed

lemma sint_of_int_high:
  "int_max TYPE('a::len) \<le> i \<Longrightarrow> i < 3 * int_max TYPE('a) \<Longrightarrow>
     sint (word_of_int i :: 'a word) = i - 2 * int_max TYPE('a)"
  using sint_wrap [of i "-1", where 'a = 'a] by (simp add: fits_def two_int_max)

lemma sint_of_int_low:
  "i < - int_max TYPE('a::len) \<Longrightarrow> - 3 * int_max TYPE('a) \<le> i \<Longrightarrow>
     sint (word_of_int i :: 'a word) = i + 2 * int_max TYPE('a)"
  using sint_wrap [of i 1, where 'a = 'a] by (simp add: fits_def two_int_max)

lemma word_add_int: "(a :: 'a::len word) + b = word_of_int (sint a + sint b)"
  by simp

lemma word_sub_int: "(a :: 'a::len word) - b = word_of_int (sint a - sint b)"
  by simp

lemma word_mul_int: "(a :: 'a::len word) * b = word_of_int (sint a * sint b)"
  by simp

lemma word_neg_int: "- (a :: 'a::len word) = word_of_int (- sint a)"
  by simp

lemma MIN_eq: "(MIN_int :: 'a::len word) = word_of_int (- int_max TYPE('a))"
proof -
  have "(MIN_int :: 'a word) = word_of_int (int_max TYPE('a))"
    by (simp add: MIN_int_def int_max_def push_bit_eq_mult)
  also have "\<dots> = word_of_int (int_max TYPE('a) - 2 * int_max TYPE('a))"
    by (simp add: word_of_int_eq_iff take_bit_eq_mod flip: two_int_max)
  finally show ?thesis by simp
qed

lemma sint_MIN [simp]: "sint (MIN_int :: 'a::len word) = - int_max TYPE('a)"
  unfolding MIN_eq by (rule sint_of_int) (simp add: fits_def)

lemma sint_MAX [simp]: "sint (MAX_int :: 'a::len word) = int_max TYPE('a) - 1"
proof -
  have "(MAX_int :: 'a word) = word_of_int (int_max TYPE('a) - 1)"
    by (simp add: MAX_int_def MIN_eq not_eq_complement)
  also have "sint \<dots> = int_max TYPE('a) - 1"
    by (rule sint_of_int) (simp add: fits_def)
  finally show ?thesis .
qed

lemma eq_MIN_iff: "a = MIN_int \<longleftrightarrow> sint a = - int_max TYPE('a)" for a :: "'a::len word"
  unfolding sint_MIN [symmetric] by (rule word_eq_iff_signed)

lemma sign_mask_eq: "sign_mask a = (if sint a < 0 then - 1 else 0)" for a :: "'a::len word"
proof (rule bit_word_eqI)
  fix n assume n: "n < LENGTH('a)"
  have "bit a (LENGTH('a) - 1) \<longleftrightarrow> sint a < 0"
    by (simp add: sint_uint bit_uint_iff)
  then show "bit (sign_mask a) n = bit (if sint a < 0 then - 1 else 0 :: 'a word) n"
    using n by (cases "n = 0") (auto simp: sign_mask_def bit_signed_drop_bit_iff)
qed

lemma negate_if_simps [simp]: "negate_if 0 a = a" "negate_if (- 1) a = - (a :: 'a::len word)"
  by (simp_all add: negate_if_def bit.xor_one_right not_eq_complement)

section \<open>The routines\<close>

text \<open>\<open>__addvsi3\<close>, \<open>__addvdi3\<close> and \<open>__addvti3\<close>.\<close>

definition addv :: "'a::len word \<Rightarrow> 'a word \<Rightarrow> 'a word option" where
  "addv a b =
     (let s = a + b in
      if 0 \<le>s b then (if s <s a then None else Some s)
      else (if a \<le>s s then None else Some s))"

definition addvsi3 :: "u32 \<Rightarrow> u32 \<Rightarrow> u32 option" where
  "addvsi3 a b = addv a b"

definition addvdi3 :: "u64 \<Rightarrow> u64 \<Rightarrow> u64 option" where
  "addvdi3 a b = addv a b"

definition addvti3 :: "128 word \<Rightarrow> 128 word \<Rightarrow> 128 word option" where
  "addvti3 a b = addv a b"

text \<open>\<open>__subvsi3\<close>, \<open>__subvdi3\<close> and \<open>__subvti3\<close>.\<close>

definition subv :: "'a::len word \<Rightarrow> 'a word \<Rightarrow> 'a word option" where
  "subv a b =
     (let s = a - b in
      if 0 \<le>s b then (if a <s s then None else Some s)
      else (if s \<le>s a then None else Some s))"

definition subvsi3 :: "u32 \<Rightarrow> u32 \<Rightarrow> u32 option" where
  "subvsi3 a b = subv a b"

definition subvdi3 :: "u64 \<Rightarrow> u64 \<Rightarrow> u64 option" where
  "subvdi3 a b = subv a b"

definition subvti3 :: "128 word \<Rightarrow> 128 word \<Rightarrow> 128 word option" where
  "subvti3 a b = subv a b"

text \<open>\<open>__negvsi2\<close>, \<open>__negvdi2\<close> and \<open>__negvti2\<close>; \<open>__negdi2\<close> and \<open>__negti2\<close> only negate.\<close>

definition negv :: "'a::len word \<Rightarrow> 'a word option" where
  "negv a = (if a = MIN_int then None else Some (- a))"

definition negvsi2 :: "u32 \<Rightarrow> u32 option" where
  "negvsi2 a = negv a"

definition negvdi2 :: "u64 \<Rightarrow> u64 option" where
  "negvdi2 a = negv a"

definition negvti2 :: "128 word \<Rightarrow> 128 word option" where
  "negvti2 a = negv a"

definition negdi2 :: "u64 \<Rightarrow> u64" where
  "negdi2 a = - a"

definition negti2 :: "128 word \<Rightarrow> 128 word" where
  "negti2 a = - a"

text \<open>\<open>__absvsi2\<close>, \<open>__absvdi2\<close> and \<open>__absvti2\<close>.\<close>

definition absv :: "'a::len word \<Rightarrow> 'a word option" where
  "absv a =
     (if a = MIN_int then None
      else let t = sign_mask a in Some (negate_if t a))"

definition absvsi2 :: "u32 \<Rightarrow> u32 option" where
  "absvsi2 a = absv a"

definition absvdi2 :: "u64 \<Rightarrow> u64 option" where
  "absvdi2 a = absv a"

definition absvti2 :: "128 word \<Rightarrow> 128 word option" where
  "absvti2 a = absv a"

text \<open>\<open>__mulvsi3\<close>, \<open>__mulvdi3\<close> and \<open>__mulvti3\<close>.\<close>

definition mulv :: "'a::len word \<Rightarrow> 'a word \<Rightarrow> 'a word option" where
  "mulv a b =
     (if a = MIN_int then (if b = 0 \<or> b = 1 then Some (a * b) else None)
      else if b = MIN_int then (if a = 0 \<or> a = 1 then Some (a * b) else None)
      else
        let sa = sign_mask a; abs_a = negate_if sa a;
            sb = sign_mask b; abs_b = negate_if sb b in
        if abs_a <s 2 \<or> abs_b <s 2 then Some (a * b)
        else if sa = sb then
          (if sdiv_word MAX_int abs_b <s abs_a then None else Some (a * b))
        else
          (if sdiv_word MIN_int (- abs_b) <s abs_a then None else Some (a * b)))"

definition mulvsi3 :: "u32 \<Rightarrow> u32 \<Rightarrow> u32 option" where
  "mulvsi3 a b = mulv a b"

definition mulvdi3 :: "u64 \<Rightarrow> u64 \<Rightarrow> u64 option" where
  "mulvdi3 a b = mulv a b"

definition mulvti3 :: "128 word \<Rightarrow> 128 word \<Rightarrow> 128 word option" where
  "mulvti3 a b = mulv a b"

text \<open>
  \<open>__mulosi4\<close>, \<open>__mulodi4\<close> and \<open>__muloti4\<close>: the product, wrapped around, and the flag the
  routine stores through \<open>overflow\<close>.
\<close>

definition mulo :: "'a::len word \<Rightarrow> 'a word \<Rightarrow> 'a word \<times> bool" where
  "mulo a b =
     (let result = a * b in
      if a = MIN_int then (result, b \<noteq> 0 \<and> b \<noteq> 1)
      else if b = MIN_int then (result, a \<noteq> 0 \<and> a \<noteq> 1)
      else
        let sa = sign_mask a; abs_a = negate_if sa a;
            sb = sign_mask b; abs_b = negate_if sb b in
        if abs_a <s 2 \<or> abs_b <s 2 then (result, False)
        else if sa = sb then (result, sdiv_word MAX_int abs_b <s abs_a)
        else (result, sdiv_word MIN_int (- abs_b) <s abs_a))"

definition mulosi4 :: "u32 \<Rightarrow> u32 \<Rightarrow> u32 \<times> bool" where
  "mulosi4 a b = mulo a b"

definition mulodi4 :: "u64 \<Rightarrow> u64 \<Rightarrow> u64 \<times> bool" where
  "mulodi4 a b = mulo a b"

definition muloti4 :: "128 word \<Rightarrow> 128 word \<Rightarrow> 128 word \<times> bool" where
  "muloti4 a b = mulo a b"

lemmas width_defs =
  addvsi3_def addvdi3_def addvti3_def subvsi3_def subvdi3_def subvti3_def
  negvsi2_def negvdi2_def negvti2_def absvsi2_def absvdi2_def absvti2_def
  mulvsi3_def mulvdi3_def mulvti3_def mulosi4_def mulodi4_def muloti4_def

section \<open>Overflow is detected exactly\<close>

text \<open>The signed word of an integer that is the exact result, or the trap.\<close>

definition exact :: "int \<Rightarrow> 'a::len word option" where
  "exact i = (if fits TYPE('a) i then Some (word_of_int i) else None)"

lemma addv_exact: "addv a b = exact (sint a + sint b)" for a b :: "'a::len word"
proof -
  let ?M = "int_max TYPE('a)" and ?i = "sint a + sint b"
  have r: "- ?M \<le> sint a" "sint a < ?M" "- ?M \<le> sint b" "sint b < ?M"
    by (simp_all add: sint_bounds)
  consider "fits TYPE('a) ?i" | "?M \<le> ?i" | "?i < - ?M"
    by (fastforce simp: fits_def)
  then show ?thesis
  proof cases
    case 1
    then have "sint (a + b) = ?i"
      unfolding word_add_int by (rule sint_of_int)
    with 1 r show ?thesis
      by (auto simp: addv_def exact_def Let_def word_sle_eq word_sless_alt)
  next
    case 2
    with r have "sint (a + b) = ?i - 2 * ?M"
      unfolding word_add_int by (intro sint_of_int_high) simp_all
    with 2 r show ?thesis
      by (auto simp: addv_def exact_def Let_def word_sle_eq word_sless_alt fits_def)
  next
    case 3
    with r have "sint (a + b) = ?i + 2 * ?M"
      unfolding word_add_int by (intro sint_of_int_low) simp_all
    with 3 r show ?thesis
      by (auto simp: addv_def exact_def Let_def word_sle_eq word_sless_alt fits_def)
  qed
qed

lemma subv_exact: "subv a b = exact (sint a - sint b)" for a b :: "'a::len word"
proof -
  let ?M = "int_max TYPE('a)" and ?i = "sint a - sint b"
  have r: "- ?M \<le> sint a" "sint a < ?M" "- ?M \<le> sint b" "sint b < ?M"
    by (simp_all add: sint_bounds)
  consider "fits TYPE('a) ?i" | "?M \<le> ?i" | "?i < - ?M"
    by (fastforce simp: fits_def)
  then show ?thesis
  proof cases
    case 1
    then have "sint (a - b) = ?i"
      unfolding word_sub_int by (rule sint_of_int)
    with 1 r show ?thesis
      by (auto simp: subv_def exact_def Let_def word_sle_eq word_sless_alt)
  next
    case 2
    with r have "sint (a - b) = ?i - 2 * ?M"
      unfolding word_sub_int by (intro sint_of_int_high) simp_all
    with 2 r show ?thesis
      by (auto simp: subv_def exact_def Let_def word_sle_eq word_sless_alt fits_def)
  next
    case 3
    with r have "sint (a - b) = ?i + 2 * ?M"
      unfolding word_sub_int by (intro sint_of_int_low) simp_all
    with 3 r show ?thesis
      by (auto simp: subv_def exact_def Let_def word_sle_eq word_sless_alt fits_def)
  qed
qed

lemma sint_neg: "a \<noteq> MIN_int \<Longrightarrow> sint (- a) = - sint a" for a :: "'a::len word"
  unfolding word_neg_int
  by (rule sint_of_int) (use sint_bounds [of a] in \<open>auto simp: fits_def eq_MIN_iff\<close>)

lemma negv_exact: "negv a = exact (- sint a)" for a :: "'a::len word"
  using sint_bounds [of a] by (auto simp: negv_def exact_def fits_def eq_MIN_iff)

lemma absv_exact: "absv a = exact \<bar>sint a\<bar>" for a :: "'a::len word"
  using sint_bounds [of a]
  by (auto simp: absv_def exact_def fits_def eq_MIN_iff sign_mask_eq)

text \<open>The two multiplications agree: one traps where the other raises the flag.\<close>

lemma mulv_mulo: "mulv a b = (if snd (mulo a b) then None else Some (fst (mulo a b)))"
  by (simp add: mulv_def mulo_def Let_def)

lemma fst_mulo: "fst (mulo a b) = a * b"
  by (simp add: mulo_def Let_def)

lemma sint_small:
  assumes "2 < LENGTH('a::len)"
  shows "sint (1 :: 'a word) = 1" "sint (2 :: 'a word) = 2"
proof -
  have "(2::int) ^ 2 \<le> 2 ^ (LENGTH('a) - 1)"
    using assms by (intro power_increasing) simp_all
  then have "fits TYPE('a) 1" "fits TYPE('a) 2"
    by (simp_all add: fits_def int_max_def)
  then show "sint (1 :: 'a word) = 1" "sint (2 :: 'a word) = 2"
    using sint_of_int [of 1, where 'a = 'a] sint_of_int [of 2, where 'a = 'a] by simp_all
qed

lemma eq_0_iff_sint: "a = 0 \<longleftrightarrow> sint a = 0" for a :: "'a::len word"
  by (simp add: signed_eq_0_iff)

lemma eq_1_iff_sint: "2 < LENGTH('a) \<Longrightarrow> a = 1 \<longleftrightarrow> sint a = 1" for a :: "'a::len word"
  unfolding sint_small(1) [where 'a = 'a, symmetric] by (rule word_eq_iff_signed)

text \<open>The magnitude of a word other than the least one.\<close>

lemma sint_magnitude:
  "a \<noteq> MIN_int \<Longrightarrow> sint (negate_if (sign_mask a) a) = \<bar>sint a\<bar>" for a :: "'a::len word"
  by (simp add: sign_mask_eq sint_neg)

lemma sign_mask_eq_iff:
  "sign_mask a = sign_mask b \<longleftrightarrow> (sint a < 0 \<longleftrightarrow> sint b < 0)" for a b :: "'a::len word"
  by (simp add: sign_mask_eq)

lemma sdiv_nonneg: "0 \<le> x \<Longrightarrow> 0 < y \<Longrightarrow> x sdiv y = x div y" for x y :: int
  by (simp add: signed_divide_int_def sgn_if)

lemma sint_sdiv_word:
  "fits TYPE('a) (sint a sdiv sint b) \<Longrightarrow> sint (sdiv_word a b) = sint a sdiv sint b"
  for a b :: "'a::len word"
  unfolding sdiv_word_def by (rule sint_of_int)

text \<open>The two quotients the magnitudes are compared with.\<close>

lemma int_div_less_iff: "0 < y \<Longrightarrow> m div y < x \<longleftrightarrow> m < x * y" for x y m :: int
proof -
  assume y: "0 < y"
  have "x \<le> m div y" if "x * y \<le> m"
    using zdiv_mono1 [OF that y] y by simp
  moreover have "x * y \<le> m" if "x \<le> m div y"
  proof -
    have "x * y \<le> m div y * y"
      using that y by (intro mult_right_mono) simp_all
    also have "\<dots> \<le> m"
      using div_mult_mod_eq [of m y] pos_mod_sign [OF y, of m] by linarith
    finally show ?thesis .
  qed
  ultimately show ?thesis by linarith
qed

lemma div_le_dividend_int: "0 \<le> x \<Longrightarrow> 0 < y \<Longrightarrow> x div y \<le> x" for x y :: int
  using int_div_less_self [of x y] by (cases "x = 0 \<or> y = 1") auto

lemma sint_MAX_div:
  "0 < sint b \<Longrightarrow> sint (sdiv_word MAX_int b) = (int_max TYPE('a) - 1) div sint b"
  for b :: "'a::len word"
proof -
  assume b: "0 < sint b"
  let ?q = "(int_max TYPE('a) - 1) div sint b"
  have M: "0 \<le> int_max TYPE('a) - 1"
    using int_max_pos [of "TYPE('a)"] by linarith
  then have "0 \<le> ?q"
    using b by (simp only: pos_imp_zdiv_nonneg_iff)
  moreover have "?q \<le> int_max TYPE('a) - 1"
    by (rule div_le_dividend_int [OF M b])
  ultimately have "- int_max TYPE('a) \<le> ?q" "?q < int_max TYPE('a)"
    using M by linarith+
  with M b show ?thesis
    by (subst sint_sdiv_word) (simp_all add: sdiv_nonneg fits_def)
qed

lemma sint_MIN_div:
  "1 < sint b \<Longrightarrow> sint (sdiv_word MIN_int (- b)) = int_max TYPE('a) div sint b"
  for b :: "'a::len word"
proof -
  assume b: "1 < sint b"
  let ?q = "int_max TYPE('a) div sint b"
  have "b \<noteq> MIN_int"
    using b by (auto simp: eq_MIN_iff)
  then have n: "sint (- b) = - sint b"
    by (rule sint_neg)
  have "0 \<le> ?q" "?q < int_max TYPE('a)"
    using b by (simp_all add: pos_imp_zdiv_nonneg_iff int_div_less_self)
  with b n show ?thesis
    by (subst sint_sdiv_word) (simp_all add: sdiv_nonneg fits_def)
qed

lemma fits_MIN_mult: "fits TYPE('a::len) (- (int_max TYPE('a) * x)) \<longleftrightarrow> x = 0 \<or> x = 1"
proof -
  let ?M = "int_max TYPE('a)"
  consider "x \<le> - 1" | "x = 0" | "x = 1" | "2 \<le> x"
    by linarith
  then show ?thesis
  proof cases
    case 1
    then have "?M * x \<le> ?M * (- 1)"
      by (intro mult_left_mono) (simp_all add: less_imp_le)
    with 1 show ?thesis by (simp add: fits_def)
  next
    case 4
    then have "?M * 2 \<le> ?M * x"
      by (intro mult_left_mono) (simp_all add: less_imp_le)
    with 4 int_max_pos [of "TYPE('a)"] show ?thesis by (simp add: fits_def)
  qed (simp_all add: fits_def)
qed

lemma fits_mult_small:
  assumes "\<bar>x\<bar> < int_max TYPE('a::len)" "\<bar>y\<bar> < 2"
  shows "fits TYPE('a) (x * y)"
proof -
  have "y = - 1 \<or> y = 0 \<or> y = 1"
    using assms(2) by linarith
  with assms(1) show ?thesis
    by (auto simp: fits_def)
qed

lemma mulo_exact:
  fixes a b :: "'a::len word"
  assumes "2 < LENGTH('a)"
  shows "snd (mulo a b) \<longleftrightarrow> \<not> fits TYPE('a) (sint a * sint b)"
proof -
  let ?M = "int_max TYPE('a)" and ?a = "\<bar>sint a\<bar>" and ?b = "\<bar>sint b\<bar>"
  have two: "x <s 2 \<longleftrightarrow> sint x < 2" for x :: "'a word"
    unfolding word_sless_alt sint_small(2) [OF assms] ..
  note small = two eq_1_iff_sint [OF assms] sint_small(1) [OF assms]
  have ra: "- ?M \<le> sint a" "sint a < ?M" and rb: "- ?M \<le> sint b" "sint b < ?M"
    by (simp_all add: sint_bounds)
  show ?thesis
  proof (cases "a = MIN_int \<or> b = MIN_int")
    case True
    then show ?thesis
      using fits_MIN_mult [of "sint a", where 'a = 'a] fits_MIN_mult [of "sint b", where 'a = 'a]
      by (auto simp: mulo_def Let_def small eq_0_iff_sint mult.commute)
  next
    case False
    then have mag: "sint (negate_if (sign_mask a) a) = ?a" "sint (negate_if (sign_mask b) b) = ?b"
      by (simp_all add: sint_magnitude)
    have lt: "?a < ?M" "?b < ?M"
      using ra rb False by (auto simp: eq_MIN_iff abs_if)
    have unf: "snd (mulo a b) \<longleftrightarrow> \<not> (?a < 2 \<or> ?b < 2) \<and>
        (if sint a < 0 \<longleftrightarrow> sint b < 0 then (?M - 1) div ?b < ?a else ?M div ?b < ?a)"
      using False by (auto simp: mulo_def Let_def sign_mask_eq_iff small mag
          word_sless_alt [where b = "negate_if s c" for s c] sint_MAX_div sint_MIN_div)
    consider "?a < 2" | "?b < 2" | "2 \<le> ?a" "2 \<le> ?b" by linarith
    then show ?thesis
    proof cases
      case 1
      then show ?thesis
        using fits_mult_small [OF lt(2) 1] by (simp add: unf mult.commute)
    next
      case 2
      then show ?thesis
        using fits_mult_small [OF lt(1) 2] by (simp add: unf)
    next
      case 3
      obtain x y where xy: "?a = x" "?b = y" by blast
      note unf = unf [unfolded xy] and 3 = 3 [unfolded xy]
      have "0 \<le> x * y" "0 < y" using 3 by simp_all
      with int_max_pos [of "TYPE('a)"] have pos: "- ?M \<le> x * y" "- (x * y) < ?M" "0 < y"
        by linarith+
      show ?thesis
      proof (cases "sint a < 0 \<longleftrightarrow> sint b < 0")
        case True
        then have "sint a * sint b = x * y" by (auto simp flip: xy)
        with True 3 pos int_max_pos [of "TYPE('a)"] show ?thesis
          by (auto simp: unf int_div_less_iff fits_def)
      next
        case False
        then have "sint a * sint b = - (x * y)" by (auto simp: abs_if simp flip: xy)
        with False 3 pos int_max_pos [of "TYPE('a)"] show ?thesis
          by (auto simp: unf int_div_less_iff fits_def)
      qed
    qed
  qed
qed

lemma mulv_exact: "2 < LENGTH('a) \<Longrightarrow> mulv a b = exact (sint a * sint b)" for a b :: "'a::len word"
  by (simp add: mulv_mulo mulo_exact fst_mulo exact_def)

section \<open>Properties\<close>

text \<open>
  C21: the trapping routines of one addition or sign change return the exact result of the
  mathematical operation on the signed values whenever a signed word can hold it, and abort
  whenever it cannot, at each of the widths 32, 64 and 128: the comparisons of the wrapped
  result with an operand detect every overflow and nothing else.
\<close>

theorem trapping_add_sub:
  "addvsi3 a b = exact (sint a + sint b) \<and> subvsi3 a b = exact (sint a - sint b) \<and>
   negvsi2 a = exact (- sint a) \<and> absvsi2 a = exact \<bar>sint a\<bar> \<and>
   addvdi3 c d = exact (sint c + sint d) \<and> subvdi3 c d = exact (sint c - sint d) \<and>
   negvdi2 c = exact (- sint c) \<and> absvdi2 c = exact \<bar>sint c\<bar> \<and>
   addvti3 e f = exact (sint e + sint f) \<and> subvti3 e f = exact (sint e - sint f) \<and>
   negvti2 e = exact (- sint e) \<and> absvti2 e = exact \<bar>sint e\<bar>"
  by (simp add: width_defs addv_exact subv_exact negv_exact absv_exact)

text \<open>
  C20: the trapping multiplications return the exact product of the signed values when a
  signed word can hold it and abort otherwise, and the flagging multiplications return the
  product wrapped around together with a flag that is set exactly when the true product does
  not fit: the sign masks and the truncating divisions of the least and the greatest word
  by the magnitude decide overflow without ever computing a wider product.
\<close>

theorem trapping_mul:
  "mulvsi3 a b = exact (sint a * sint b) \<and>
   mulosi4 a b = (word_of_int (sint a * sint b), \<not> fits TYPE(32) (sint a * sint b)) \<and>
   mulvdi3 c d = exact (sint c * sint d) \<and>
   mulodi4 c d = (word_of_int (sint c * sint d), \<not> fits TYPE(64) (sint c * sint d)) \<and>
   mulvti3 e f = exact (sint e * sint f) \<and>
   muloti4 e f = (word_of_int (sint e * sint f), \<not> fits TYPE(128) (sint e * sint f))"
  by (simp add: width_defs mulv_exact prod_eq_iff mulo_exact fst_mulo)

end
