(* ===== verification/CrtWide.thy ===== *)
theory CrtWide
  imports CrtArith
begin

text \<open>
  The double-word routines of the compiler runtime (src/core/CompilerRT): the unions that
  split a double word into halves, the comparisons and the multiplications on halves, the
  parity and population counts, and the shift-and-subtract division with the signed divisions
  on top of it. The 64-bit (\<open>di\<close>) and 128-bit (\<open>ti\<close>) routines share their text, so each is
  written once over a half word of type \<open>'h\<close> and a full word of type \<open>'f\<close>; the lemmas take
  \<open>LENGTH('f) = 2 * LENGTH('h)\<close>, which the instances have.
\<close>

section \<open>The unions of int_types.h\<close>

text \<open>\<open>udwords\<close>, \<open>dwords\<close>, \<open>utwords\<close> and \<open>twords\<close>: the two halves, and the whole as \<open>all\<close>.\<close>

record 'w dwords =
  low :: 'w
  high :: 'w

definition of_all :: "'f::len word \<Rightarrow> 'h::len word dwords" where
  "of_all x = \<lparr>low = ucast x, high = ucast (drop_bit LENGTH('h) x)\<rparr>"

definition all :: "'h::len word dwords \<Rightarrow> 'f::len word" where
  "all x = push_bit LENGTH('h) (ucast (high x)) OR ucast (low x)"

lemma div_pow2_less: "x < 2 ^ (m + n) \<Longrightarrow> x div 2 ^ m < (2::nat) ^ n"
  by (simp add: less_mult_imp_div_less power_add mult.commute)

lemma unat_bound: "unat (x :: 'a::len word) < 2 ^ LENGTH('a)"
  by (rule unsigned_less)

lemma unat_low: "unat (low (of_all x :: 'h::len word dwords)) = unat x mod 2 ^ LENGTH('h)"
  by (simp add: of_all_def take_bit_eq_mod unsigned_ucast_eq)

lemma unat_high:
  "LENGTH('f) = 2 * LENGTH('h) \<Longrightarrow>
     unat (high (of_all (x :: 'f::len word) :: 'h::len word dwords)) = unat x div 2 ^ LENGTH('h)"
  using div_pow2_less [of "unat x" "LENGTH('h)" "LENGTH('h)"] unat_bound [of x]
  by (simp add: of_all_def unsigned_ucast_eq unat_drop_bit_eq take_bit_eq_mod drop_bit_eq_div [where 'a = nat]
      mult_2)

lemma unat_ucast_half: "LENGTH('h) \<le> LENGTH('f) \<Longrightarrow> unat (ucast (h :: 'h::len word) :: 'f::len word) = unat h"
  by (simp add: unsigned_ucast_eq take_bit_nat_eq_self_iff less_le_trans [OF unat_bound])

lemma unat_all:
  assumes "LENGTH('f) = 2 * LENGTH('h)"
  shows "unat (all (x :: 'h::len word dwords) :: 'f::len word) =
           unat (high x) * 2 ^ LENGTH('h) + unat (low x)"
proof -
  let ?h = "unat (high x)" and ?l = "unat (low x)"
  have b: "?h < 2 ^ LENGTH('h)" "?l < 2 ^ LENGTH('h)"
    by (rule unat_bound)+
  have "?h * 2 ^ LENGTH('h) < 2 ^ LENGTH('f)"
    using b(1) by (simp add: assms mult_2 power_add)
  then have "take_bit LENGTH('f) (push_bit LENGTH('h) ?h) = push_bit LENGTH('h) ?h"
    by (simp only: push_bit_eq_mult take_bit_nat_eq_self)
  moreover have "LENGTH('h) \<le> LENGTH('f)"
    using assms by simp
  ultimately have "unat (all x :: 'f word) = push_bit LENGTH('h) ?h OR ?l"
    by (simp only: all_def unsigned_or_eq unsigned_push_bit_eq unat_ucast_half)
  also have "\<dots> = push_bit LENGTH('h) ?h + ?l"
    by (rule disjunctive_add_eq_or [symmetric])
       (auto simp: bit_eq_iff bit_simps dest: bit_imp_le_length)
  finally show ?thesis by (simp add: push_bit_eq_mult)
qed

lemma all_of_all:
  "LENGTH('f) = 2 * LENGTH('h) \<Longrightarrow> all (of_all x :: 'h::len word dwords) = (x :: 'f::len word)"
  by (rule word_unat_eq_iff [THEN iffD2]) (simp add: unat_all unat_low unat_high div_mult_mod_eq)

section \<open>Comparisons\<close>

text \<open>\<open>__cmpdi2\<close>: the high halves are signed.\<close>

definition cmpdi2 :: "u64 \<Rightarrow> u64 \<Rightarrow> u32" where
  "cmpdi2 a b =
     (let x = of_all a :: u32 dwords; y = of_all b :: u32 dwords in
      if high x <s high y then 0
      else if high y <s high x then 2
      else if low x < low y then 0
      else if low y < low x then 2
      else 1)"

text \<open>\<open>__ucmpdi2\<close> and \<open>__ucmpti2\<close>.\<close>

definition ucmp :: "'h::len word dwords \<Rightarrow> 'h word dwords \<Rightarrow> u32" where
  "ucmp x y =
     (if high x < high y then 0
      else if high y < high x then 2
      else if low x < low y then 0
      else if low y < low x then 2
      else 1)"

definition ucmpdi2 :: "u64 \<Rightarrow> u64 \<Rightarrow> u32" where
  "ucmpdi2 a b = ucmp (of_all a :: u32 dwords) (of_all b)"

definition ucmpti2 :: "128 word \<Rightarrow> 128 word \<Rightarrow> u32" where
  "ucmpti2 a b = ucmp (of_all a :: u64 dwords) (of_all b)"

section \<open>Multiplication\<close>

text \<open>\<open>__muldsi3\<close> and \<open>__mulddi3\<close>: the double-word product of two words by their half words.\<close>

definition muldouble :: "'h::len word \<Rightarrow> 'h word \<Rightarrow> 'h word dwords" where
  "muldouble a b =
     (let k = LENGTH('h) div 2;
          lower_mask = drop_bit k (NOT 0);
          low0 = (a AND lower_mask) * (b AND lower_mask);
          t1 = drop_bit k low0;
          low1 = low0 AND lower_mask;
          t2 = t1 + drop_bit k a * (b AND lower_mask);
          low2 = low1 + push_bit k (t2 AND lower_mask);
          high1 = drop_bit k t2;
          t3 = drop_bit k low2;
          low3 = low2 AND lower_mask;
          t4 = t3 + drop_bit k b * (a AND lower_mask);
          low4 = low3 + push_bit k (t4 AND lower_mask);
          high2 = high1 + drop_bit k t4;
          high3 = high2 + drop_bit k a * drop_bit k b
      in \<lparr>low = low4, high = high3\<rparr>)"

definition muldsi3 :: "u32 \<Rightarrow> u32 \<Rightarrow> u64" where
  "muldsi3 a b = all (muldouble a b)"

definition mulddi3 :: "u64 \<Rightarrow> u64 \<Rightarrow> 128 word" where
  "mulddi3 a b = all (muldouble a b)"

text \<open>\<open>__muldi3\<close> and \<open>__multi3\<close>.\<close>

definition muldi3 :: "u64 \<Rightarrow> u64 \<Rightarrow> u64" where
  "muldi3 a b =
     (let x = of_all a :: u32 dwords; y = of_all b :: u32 dwords;
          r = of_all (muldsi3 (low x) (low y)) :: u32 dwords
      in all (r\<lparr>high := high r + (high x * low y + low x * high y)\<rparr>))"

definition multi3 :: "128 word \<Rightarrow> 128 word \<Rightarrow> 128 word" where
  "multi3 a b =
     (let x = of_all a :: u64 dwords; y = of_all b :: u64 dwords;
          r = of_all (mulddi3 (low x) (low y)) :: u64 dwords
      in all (r\<lparr>high := high r + (high x * low y + low x * high y)\<rparr>))"

subsection \<open>The half-word products add up\<close>

lemma nat_half_product:
  fixes B a0 a1 b0 b1 :: nat
  assumes B: "0 < B"
  defines "p \<equiv> a0 * b0"
  defines "t2 \<equiv> p div B + a1 * b0"
  defines "t4 \<equiv> t2 mod B + b1 * a0"
  shows "(t2 div B + t4 div B + a1 * b1) * (B * B) + (p mod B + t4 mod B * B)
       = (a1 * B + a0) * (b1 * B + b0)"
proof -
  have e4: "t4 mod B + t4 div B * B = t2 mod B + b1 * a0"
    and e2: "t2 mod B + t2 div B * B = p div B + a1 * b0"
    and e0: "p div B * B + p mod B = a0 * b0"
    by (simp_all add: mod_div_mult_eq div_mult_mod_eq t4_def t2_def p_def)
  have "(t2 div B + t4 div B + a1 * b1) * (B * B) + (p mod B + t4 mod B * B)
      = a1 * b1 * (B * B) + t2 div B * B * B + (t4 mod B + t4 div B * B) * B + p mod B"
    by (simp only: add_mult_distrib add_mult_distrib2 ac_simps)
  also have "\<dots> = a1 * b1 * (B * B) + (t2 mod B + t2 div B * B) * B + b1 * a0 * B + p mod B"
    unfolding e4 by (simp only: add_mult_distrib add_mult_distrib2 ac_simps)
  also have "\<dots> = a1 * b1 * (B * B) + (p div B * B + p mod B) + a1 * b0 * B + b1 * a0 * B"
    unfolding e2 by (simp only: add_mult_distrib add_mult_distrib2 ac_simps)
  also have "\<dots> = (a1 * B + a0) * (b1 * B + b0)"
    unfolding e0 by (simp only: add_mult_distrib add_mult_distrib2 ac_simps)
  finally show ?thesis .
qed

text \<open>A product of two half-word numbers and one more half-word number do not overflow.\<close>

lemma half_bound: "x < B \<Longrightarrow> y < B \<Longrightarrow> z < B \<Longrightarrow> z + x * y < B * (B::nat)"
proof -
  assume "x < B" "y < B" "z < B"
  then have "x * y \<le> (B - 1) * (B - 1)"
    by (intro mult_mono) simp_all
  moreover have "(B - 1) * (B - 1) + B \<le> B * B"
    by (cases B) simp_all
  ultimately show ?thesis
    using \<open>z < B\<close> by linarith
qed

lemma and_lower_mask:
  "LENGTH('h) = 2 * k \<Longrightarrow> x AND drop_bit k (NOT 0) = take_bit k (x :: 'h::len word)"
  by (rule bit_word_eqI) (auto simp: bit_simps)

lemma unat_add_no_wrap: "unat a + unat b < 2 ^ LENGTH('a) \<Longrightarrow> unat (a + b) = unat a + unat b"
  for a b :: "'a::len word"
  by (simp add: unat_add_lem)

lemma unat_mult_no_wrap: "unat a * unat b < 2 ^ LENGTH('a) \<Longrightarrow> unat (a * b) = unat a * unat b"
  for a b :: "'a::len word"
  by (simp add: unat_mult_lem)

lemma unat_drop_half: "unat (drop_bit k (x :: 'h::len word)) = unat x div 2 ^ k"
  by (simp add: unat_drop_bit_eq drop_bit_eq_div [where 'a = nat])

lemma unat_take_half: "unat (take_bit k (x :: 'h::len word)) = unat x mod 2 ^ k"
  by (simp add: unsigned_take_bit_eq take_bit_eq_mod [where 'a = nat])

lemma unat_push_half:
  "unat x * 2 ^ k < 2 ^ LENGTH('h) \<Longrightarrow> unat (push_bit k (x :: 'h::len word)) = unat x * 2 ^ k"
  by (simp only: unsigned_push_bit_eq push_bit_eq_mult [where 'a = nat] take_bit_nat_eq_self)

lemma muldouble_nat:
  fixes a b :: "'h::len word"
  assumes k: "LENGTH('h) = 2 * k"
  defines "r \<equiv> muldouble a b"
  shows "unat (high r) * 2 ^ LENGTH('h) + unat (low r) = unat a * unat b"
proof -
  define B :: nat where "B = 2 ^ k"
  define a0 where "a0 = unat a mod B"
  define a1 where "a1 = unat a div B"
  define b0 where "b0 = unat b mod B"
  define b1 where "b1 = unat b div B"
  have BB: "2 ^ LENGTH('h) = B * B"
    by (simp add: B_def k mult_2 power_add)
  have B: "0 < B" by (simp add: B_def)
  have lt: "a0 < B" "a1 < B" "b0 < B" "b1 < B"
    using unat_bound [of a] unat_bound [of b]
    by (simp_all add: a0_def a1_def b0_def b1_def B BB less_mult_imp_div_less)
  have ab: "unat a = a1 * B + a0" "unat b = b1 * B + b0"
    by (simp_all add: a0_def a1_def b0_def b1_def)
  define p where "p = a0 * b0"
  define t2 where "t2 = p div B + a1 * b0"
  define t4 where "t4 = t2 mod B + b1 * a0"
  have prod: "(t2 div B + t4 div B + a1 * b1) * (B * B) + (p mod B + t4 mod B * B)
      = unat a * unat b"
    unfolding p_def t2_def t4_def ab by (rule nat_half_product [OF B])
  have p: "p < B * B" using half_bound [OF lt(1) lt(3) B] by (simp add: p_def)
  then have t2: "t2 < B * B"
    unfolding t2_def by (intro half_bound lt) (simp add: less_mult_imp_div_less)
  have t4: "t4 < B * B"
    unfolding t4_def by (intro half_bound lt) (simp add: B)
  have lo: "p mod B + m mod B * B < B * B" for m
  proof -
    have "m mod B * B + p mod B < (m mod B + 1) * B" by (simp add: B)
    also have "\<dots> \<le> B * B" using B by (intro mult_right_mono) (simp_all add: Suc_leI)
    finally show ?thesis by (simp add: add.commute)
  qed
  have hi: "t2 div B + t4 div B + a1 * b1 < B * B"
  proof (rule ccontr)
    assume "\<not> ?thesis"
    then have "B * B * (B * B) \<le> (t2 div B + t4 div B + a1 * b1) * (B * B)" by simp
    also have "\<dots> \<le> unat a * unat b" using prod by linarith
    also have "\<dots> < B * B * (B * B)"
      using unat_bound [of a] unat_bound [of b] by (intro mult_strict_mono) (simp_all add: BB B)
    finally show False by simp
  qed
  have k2: "LENGTH('h) div 2 = k" by (simp add: k)
  define w1 where "w1 = take_bit k a * take_bit k b"
  define w2 where "w2 = drop_bit k w1 + drop_bit k a * take_bit k b"
  define w3 where "w3 = take_bit k w1 + push_bit k (take_bit k w2)"
  define w4 where "w4 = drop_bit k w3 + drop_bit k b * take_bit k a"
  note parts = a0_def a1_def b0_def b1_def B_def
  have u1: "unat w1 = p"
    using p unfolding w1_def p_def
    by (subst unat_mult_no_wrap) (simp_all add: unat_take_half BB flip: parts)
  have m2: "unat (drop_bit k a * take_bit k b) = a1 * b0"
    using half_bound [OF lt(2,3) B]
    by (subst unat_mult_no_wrap) (simp_all add: unat_take_half unat_drop_half BB flip: parts)
  have u2: "unat w2 = t2"
    using t2 unfolding w2_def t2_def
    by (subst unat_add_no_wrap) (simp_all add: unat_drop_half u1 m2 BB flip: B_def)
  have pm: "unat (push_bit k (take_bit k w)) = unat w mod B * B" for w :: "'h word"
    using lo [of "unat w"]
    by (subst unat_push_half) (simp_all add: unat_take_half BB B flip: B_def)
  have u3: "unat w3 = p mod B + t2 mod B * B"
    using lo [of t2] unfolding w3_def
    by (subst unat_add_no_wrap) (simp_all add: unat_take_half pm u1 u2 BB flip: B_def)
  have m4: "unat (drop_bit k b * take_bit k a) = b1 * a0"
    using half_bound [OF lt(4,1) B]
    by (subst unat_mult_no_wrap) (simp_all add: unat_take_half unat_drop_half BB flip: parts)
  have u4: "unat w4 = t4"
    using t4 B unfolding w4_def t4_def
    by (subst unat_add_no_wrap) (simp_all add: unat_drop_half u3 m4 BB flip: B_def)
  have low: "unat (low r) = p mod B + t4 mod B * B"
  proof -
    have lr: "low r = take_bit k w3 + push_bit k (take_bit k w4)"
      by (simp only: r_def muldouble_def Let_def k2 and_lower_mask [OF k] w1_def w2_def w3_def
        w4_def dwords.select_convs)
    show ?thesis
      using lo [of t4] unfolding lr
      by (subst unat_add_no_wrap) (simp_all add: unat_take_half pm u3 u4 BB B flip: B_def)
  qed
  have m5: "unat (drop_bit k a * drop_bit k b) = a1 * b1"
    using half_bound [OF lt(2,4) B]
    by (subst unat_mult_no_wrap) (simp_all add: unat_drop_half BB flip: parts)
  have "high r = drop_bit k w2 + drop_bit k w4 + drop_bit k a * drop_bit k b"
    by (simp only: r_def muldouble_def Let_def k2 and_lower_mask [OF k] w1_def w2_def w3_def
        w4_def dwords.select_convs)
  then have "unat (high r) = t2 div B + t4 div B + a1 * b1"
    using hi
    by (simp add: unat_add_no_wrap unat_drop_half u2 u4 m5 BB flip: B_def)
  with low prod show ?thesis
    by (simp add: BB)
qed

text \<open>The full product of two words, and the low part of the product of two double words.\<close>

lemma muldouble_all:
  assumes "LENGTH('h) = 2 * k" "LENGTH('f) = 2 * LENGTH('h)"
  shows "(all (muldouble a b) :: 'f::len word) = ucast a * ucast (b :: 'h::len word)"
proof (rule word_unat_eq_iff [THEN iffD2])
  have "unat a * unat b < 2 ^ LENGTH('h) * 2 ^ LENGTH('h)"
    using unat_bound [of a] unat_bound [of b] by (intro mult_strict_mono) simp_all
  also have "\<dots> = 2 ^ LENGTH('f)"
    by (simp only: assms(2) mult_2 power_add)
  finally show "unat (all (muldouble a b) :: 'f word) = unat (ucast a * ucast b :: 'f word)"
    using assms
    by (subst unat_mult_no_wrap)
       (simp_all add: unat_ucast_half unat_all muldouble_nat [OF assms(1), simplified assms])
qed

text \<open>As a word, the whole is the high half times the base plus the low half.\<close>

lemma all_sum:
  assumes "LENGTH('f) = 2 * LENGTH('h)"
  shows "(all (x :: 'h::len word dwords) :: 'f::len word) =
           ucast (high x) * 2 ^ LENGTH('h) + ucast (low x)"
proof -
  have "(all x :: 'f word) = of_nat (unat (all x :: 'f word))" by simp
  also have "\<dots> = of_nat (unat (high x)) * 2 ^ LENGTH('h) + of_nat (unat (low x))"
    by (simp only: unat_all [OF assms] of_nat_add of_nat_mult of_nat_power of_nat_numeral)
  finally show ?thesis by simp
qed

lemma base_square: "LENGTH('f) = 2 * LENGTH('h::len) \<Longrightarrow> (2 ^ LENGTH('h) * 2 ^ LENGTH('h) :: 'f::len word) = 0"
  by (simp flip: power_add mult_2)

text \<open>Only the residue of the high half matters there.\<close>

lemma ucast_high_arith:
  fixes u v :: "'h::len word"
  assumes "LENGTH('f) = 2 * LENGTH('h)"
  shows "(ucast (u + v) * 2 ^ LENGTH('h) :: 'f::len word) = (ucast u + ucast v) * 2 ^ LENGTH('h)"
    and "(ucast (u * v) * 2 ^ LENGTH('h) :: 'f::len word) = (ucast u * ucast v) * 2 ^ LENGTH('h)"
proof -
  have m: "(of_nat (n mod 2 ^ LENGTH('h)) * 2 ^ LENGTH('h) :: 'f word) = of_nat n * 2 ^ LENGTH('h)" for n
  proof -
    have "(of_nat n :: 'f word) = of_nat (n div 2 ^ LENGTH('h) * 2 ^ LENGTH('h) + n mod 2 ^ LENGTH('h))"
      by (simp only: div_mult_mod_eq)
    then have "(of_nat n * 2 ^ LENGTH('h) :: 'f word)
        = of_nat (n div 2 ^ LENGTH('h)) * (2 ^ LENGTH('h) * 2 ^ LENGTH('h))
          + of_nat (n mod 2 ^ LENGTH('h)) * 2 ^ LENGTH('h)"
      by (simp only: of_nat_add of_nat_mult of_nat_power of_nat_numeral distrib_right
          distrib_left ac_simps)
    then show ?thesis by (simp add: base_square [OF assms])
  qed
  have u: "(ucast (u + v) :: 'f word) = of_nat ((unat u + unat v) mod 2 ^ LENGTH('h))"
    "(ucast (u * v) :: 'f word) = of_nat ((unat u * unat v) mod 2 ^ LENGTH('h))"
    by (simp_all only: unat_word_ariths [symmetric] of_nat_unat)
  show "(ucast (u + v) * 2 ^ LENGTH('h) :: 'f word) = (ucast u + ucast v) * 2 ^ LENGTH('h)"
    using m [of "unat u + unat v"] by (simp add: u(1))
  show "(ucast (u * v) * 2 ^ LENGTH('h) :: 'f word) = (ucast u * ucast v) * 2 ^ LENGTH('h)"
    using m [of "unat u * unat v"] by (simp add: u(2))
qed

lemma mul_halves:
  fixes x y :: "'f::len word"
  assumes k: "LENGTH('h) = 2 * k" and f: "LENGTH('f) = 2 * LENGTH('h)"
  defines "u \<equiv> of_all x :: 'h::len word dwords" and "v \<equiv> of_all y"
  defines "r \<equiv> of_all (all (muldouble (low u) (low v)) :: 'f word) :: 'h word dwords"
  shows "all (r\<lparr>high := high r + (high u * low v + low u * high v)\<rparr>) = x * y"
proof -
  let ?B = "2 ^ LENGTH('h) :: 'f word"
  have r: "ucast (high r) * ?B + ucast (low r) = ucast (low u) * ucast (low v)"
    unfolding r_def all_sum [OF f, symmetric] all_of_all [OF f] by (rule muldouble_all [OF k f])
  have xy: "x = ucast (high u) * ?B + ucast (low u)" "y = ucast (high v) * ?B + ucast (low v)"
    unfolding u_def v_def all_sum [OF f, symmetric] all_of_all [OF f] by simp_all
  have "all (r\<lparr>high := high r + (high u * low v + low u * high v)\<rparr>) =
      (ucast (high r) + (ucast (high u) * ucast (low v) + ucast (low u) * ucast (high v))) * ?B
        + ucast (low r)"
    by (simp add: all_sum [OF f] ucast_high_arith [OF f] distrib_right)
  also have "\<dots> = (ucast (high u) * ucast (low v) + ucast (low u) * ucast (high v)) * ?B
      + ucast (low u) * ucast (low v)"
    by (simp add: distrib_right flip: r)
  also have "\<dots> = x * y"
    by (simp add: xy distrib_left distrib_right ac_simps base_square [OF f])
  finally show ?thesis .
qed

section \<open>Division\<close>

text \<open>\<open>__builtin_clz\<close> and \<open>__builtin_ctz\<close>: the leading and the trailing zero bits of a nonzero word.\<close>

definition clz :: "'a::len word \<Rightarrow> nat" where
  "clz x = length (takeWhile (\<lambda>i. \<not> bit x i) (rev [0..<LENGTH('a)]))"

definition ctz :: "'a::len word \<Rightarrow> nat" where
  "ctz x = length (takeWhile (\<lambda>i. \<not> bit x i) [0..<LENGTH('a)])"

text \<open>
  Shifts whose amount is an \<open>unsigned\<close>. An amount of the width or more is undefined in C; \<open>ub\<close>
  stands for whatever the machine then yields. The masked code below computes such shifts and
  discards them.
\<close>

definition shl :: "('h word \<Rightarrow> nat \<Rightarrow> 'h word) \<Rightarrow> 'h::len word \<Rightarrow> u32 \<Rightarrow> 'h word" where
  "shl ub x n = (if unat n < LENGTH('h) then push_bit (unat n) x else ub x (unat n))"

definition shr :: "('h word \<Rightarrow> nat \<Rightarrow> 'h word) \<Rightarrow> 'h::len word \<Rightarrow> u32 \<Rightarrow> 'h word" where
  "shr ub x n = (if unat n < LENGTH('h) then drop_bit (unat n) x else ub x (unat n))"

text \<open>\<open>(si_int)(sr - n_uword_bits) >> (n_uword_bits-1)\<close>: the sign of a difference as a mask.\<close>

definition neg_mask :: "u32 \<Rightarrow> 'h::len word" where
  "neg_mask d = signed_drop_bit (LENGTH('h) - 1) (scast d)"

text \<open>
  What the case analysis at the start of \<open>__udivmoddi4\<close> and \<open>__udivmodti4\<close> comes to: a
  quotient and a remainder at once, or the registers \<open>q\<close>, \<open>r\<close> and \<open>sr\<close> of the loop.
\<close>

datatype ('f, 'h) division =
    Quotient (quotient: 'f) (remainder: 'f)
  | Shift_subtract "'h dwords" "'h dwords" u32

definition div_small ::
  "'h::len word dwords \<Rightarrow> 'h word dwords \<Rightarrow> ('f::len word, 'h word) division" where
  "div_small n d =
     (if high d = 0 then Quotient (ucast (low n div low d)) (ucast (low n mod low d))
      else Quotient 0 (ucast (low n)))"

definition div_low_zero :: "('h word \<Rightarrow> nat \<Rightarrow> 'h word) \<Rightarrow>
    'h::len word dwords \<Rightarrow> 'h word dwords \<Rightarrow> ('f::len word, 'h word) division" where
  "div_low_zero ub n d =
     (let bits = of_nat LENGTH('h) :: u32 in
      if low n = 0 then
        Quotient (ucast (high n div high d)) (all \<lparr>low = 0, high = high n mod high d\<rparr>)
      else if high d AND (high d - 1) = 0 then
        Quotient (ucast (drop_bit (ctz (high d)) (high n)))
          (all \<lparr>low = low n, high = high n AND (high d - 1)\<rparr>)
      else
        let sr = of_nat (clz (high d)) - of_nat (clz (high n)) :: u32 in
        if bits - 2 < sr then Quotient 0 (all n)
        else
          let sr = sr + 1 in
          Shift_subtract
            \<lparr>low = 0, high = shl ub (low n) (bits - sr)\<rparr>
            \<lparr>low = shl ub (high n) (bits - sr) OR shr ub (low n) sr, high = shr ub (high n) sr\<rparr>
            sr)"

text \<open>The registers where the divisor is one word: the three cases of the shift, masked.\<close>

definition one_word_q :: "('h word \<Rightarrow> nat \<Rightarrow> 'h word) \<Rightarrow> u32 \<Rightarrow> u32 \<Rightarrow> 'h::len word dwords \<Rightarrow> u32 \<Rightarrow>
    'h word dwords" where
  "one_word_q ub bits dbits n sr =
     \<lparr>low = shl ub (low n) (dbits - sr) AND neg_mask (bits - sr),
      high = (shl ub (low n) (bits - sr) AND neg_mask (sr - bits - 1)) OR
             ((shl ub (high n) (dbits - sr) OR shr ub (low n) (sr - bits))
              AND neg_mask (bits - sr))\<rparr>"

definition one_word_r :: "('h word \<Rightarrow> nat \<Rightarrow> 'h word) \<Rightarrow> u32 \<Rightarrow> 'h::len word dwords \<Rightarrow> u32 \<Rightarrow>
    'h word dwords" where
  "one_word_r ub bits n sr =
     \<lparr>low = (shr ub (high n) (sr - bits) AND neg_mask (bits - sr - 1)) OR
            ((shl ub (high n) (bits - sr) OR shr ub (low n) sr) AND neg_mask (sr - bits)),
      high = shr ub (high n) sr AND neg_mask (sr - bits)\<rparr>"

definition div_one_word :: "('h word \<Rightarrow> nat \<Rightarrow> 'h word) \<Rightarrow>
    'h::len word dwords \<Rightarrow> 'h word dwords \<Rightarrow> ('f::len word, 'h word) division" where
  "div_one_word ub n d =
     (let bits = of_nat LENGTH('h) :: u32; dbits = of_nat LENGTH('f) :: u32 in
      if low d AND (low d - 1) = 0 then
        let rem = ucast (low n AND (low d - 1)) in
        if low d = 1 then Quotient (all n) rem
        else
          let sr = of_nat (ctz (low d)) in
          Quotient
            (all \<lparr>low = shl ub (high n) (bits - sr) OR shr ub (low n) sr,
                  high = shr ub (high n) sr\<rparr>) rem
      else
        let sr = 1 + bits + of_nat (clz (low d)) - of_nat (clz (high n)) in
        Shift_subtract (one_word_q ub bits dbits n sr) (one_word_r ub bits n sr) sr)"

definition div_two_words :: "('h word \<Rightarrow> nat \<Rightarrow> 'h word) \<Rightarrow>
    'h::len word dwords \<Rightarrow> 'h word dwords \<Rightarrow> ('f::len word, 'h word) division" where
  "div_two_words ub n d =
     (let bits = of_nat LENGTH('h) :: u32;
          sr = of_nat (clz (high d)) - of_nat (clz (high n)) :: u32 in
      if bits - 1 < sr then Quotient 0 (all n)
      else
        let sr = sr + 1 in
        Shift_subtract
          \<lparr>low = 0, high = shl ub (low n) (bits - sr)\<rparr>
          \<lparr>low = shl ub (high n) (bits - sr) OR (shr ub (low n) sr AND neg_mask (sr - bits)),
           high = shr ub (high n) sr AND neg_mask (sr - bits)\<rparr>
          sr)"

text \<open>The loop: \<open>r:q = ((r:q) << 1) | carry\<close>, then a subtraction of \<open>d\<close> where it fits.\<close>

definition div_shift :: "'h::len word dwords \<Rightarrow> 'h word dwords \<Rightarrow> 'h word \<Rightarrow>
    'h word dwords \<times> 'h word dwords" where
  "div_shift q r carry =
     (\<lparr>low = push_bit 1 (low q) OR carry,
       high = push_bit 1 (high q) OR drop_bit (LENGTH('h) - 1) (low q)\<rparr>,
      \<lparr>low = push_bit 1 (low r) OR drop_bit (LENGTH('h) - 1) (high q),
       high = push_bit 1 (high r) OR drop_bit (LENGTH('h) - 1) (low r)\<rparr>)"

fun div_loop :: "'f::len word \<Rightarrow> nat \<Rightarrow> 'h::len word dwords \<Rightarrow> 'h word dwords \<Rightarrow> 'h word \<Rightarrow>
    'h word dwords \<times> 'h word dwords \<times> 'h word" where
  "div_loop d 0 q r carry = (q, r, carry)"
| "div_loop d (Suc sr) q r carry =
     (let (q, r) = div_shift q r carry;
          s = signed_drop_bit (LENGTH('f) - 1) (d - all r - 1) in
      div_loop d sr q (of_all (all r - (d AND s))) (ucast (s AND 1)))"

text \<open>
  \<open>__udivmoddi4\<close> and \<open>__udivmodti4\<close>: \<open>None\<close> is the division by zero, which C leaves
  undefined; the remainder is what the routine stores through \<open>rem\<close> when it is not null.
\<close>

definition udivmod :: "('h word \<Rightarrow> nat \<Rightarrow> 'h::len word) \<Rightarrow> 'f::len word \<Rightarrow> 'f word \<Rightarrow>
    ('f word \<times> 'f word) option" where
  "udivmod ub a b =
     (let n = of_all a :: 'h word dwords; d = of_all b :: 'h word dwords in
      if low d = 0 \<and> high d = 0 then None
      else
        case (if high n = 0 then div_small n d
              else if low d = 0 then div_low_zero ub n d
              else if high d = 0 then div_one_word ub n d
              else div_two_words ub n d) of
          Quotient q r \<Rightarrow> Some (q, r)
        | Shift_subtract q r sr \<Rightarrow>
            let (q, r, carry) = div_loop b (unat sr) q r 0 in
            Some (push_bit 1 (all q) OR ucast carry, all r))"

section \<open>Properties\<close>

text \<open>
  C23: the double-word multiplications, built from four half-word products and the carries
  between them, return the product: \<open>__muldsi3\<close> and \<open>__mulddi3\<close> the full product of two
  words, without loss, and \<open>__muldi3\<close> and \<open>__multi3\<close> the product of two double words
  modulo their width.
\<close>

theorem double_word_product:
  "muldsi3 a b = ucast a * ucast b \<and> uint (muldsi3 a b) = uint a * uint b \<and>
   mulddi3 c d = ucast c * ucast d \<and> uint (mulddi3 c d) = uint c * uint d \<and>
   muldi3 c d = c * d \<and> multi3 e f = e * f"
proof -
  have u: "uint w = int (unat w)" for w :: "'w::len word" by simp
  have "unat (muldsi3 a b) = unat a * unat b" "unat (mulddi3 c d) = unat c * unat d"
    by (simp_all add: muldsi3_def mulddi3_def unat_all muldouble_nat [where k = 16 and a = a and b = b, simplified]
        muldouble_nat [where k = 32 and a = c and b = d, simplified])
  moreover have "muldsi3 a b = ucast a * ucast b" "mulddi3 c d = ucast c * ucast d"
    unfolding muldsi3_def mulddi3_def
    by (rule muldouble_all [where k = 16], simp_all) (rule muldouble_all [where k = 32], simp_all)
  moreover have "muldi3 c d = c * d" "multi3 e f = e * f"
    unfolding muldi3_def multi3_def muldsi3_def mulddi3_def Let_def
    by (rule mul_halves [where k = 16], simp_all) (rule mul_halves [where k = 32], simp_all)
  ultimately show ?thesis by (simp add: u del: of_nat_unat)
qed

text \<open>The order of two double words is the order of their halves, the high ones first.\<close>

lemma div_mod_less:
  "x < y \<longleftrightarrow> x div m < y div m \<or> x div m = y div m \<and> x mod m < y mod m" for x y m :: nat
proof -
  have "x div m < y div m \<Longrightarrow> x < y" by (metis div_le_mono not_le)
  moreover have "y div m < x div m \<Longrightarrow> y < x" by (metis div_le_mono not_le)
  moreover have "x < y \<longleftrightarrow> x mod m < y mod m" if "x div m = y div m"
    by (metis div_mult_mod_eq nat_add_left_cancel_less that)
  ultimately show ?thesis by (meson linorder_neqE_nat not_less_iff_gr_or_eq)
qed

lemma halves_less:
  assumes "LENGTH('f) = 2 * LENGTH('h)"
  defines "u \<equiv> of_all :: 'f::len word \<Rightarrow> 'h::len word dwords"
  shows "x < y \<longleftrightarrow> high (u x) < high (u y) \<or> high (u x) = high (u y) \<and> low (u x) < low (u y)"
  unfolding word_less_nat_alt word_unat_eq_iff u_def unat_low unat_high [OF assms(1)]
  by (rule div_mod_less)

lemma ucmp_order:
  assumes "LENGTH('f) = 2 * LENGTH('h)"
  shows "ucmp (of_all x :: 'h::len word dwords) (of_all (y :: 'f::len word)) =
           (if x < y then 0 else if y < x then 2 else 1)"
  by (auto simp: ucmp_def halves_less [OF assms])


text \<open>For signed double words the high half is signed.\<close>

lemma sint_high: "sint (high (of_all x :: u32 dwords)) = sint x div 2 ^ 32" for x :: u64
proof -
  have "sint (high (of_all x :: u32 dwords)) = drop_bit 32 (sint x)"
    by (rule bit_eqI) (auto simp: of_all_def bit_simps sint_uint min_def)
  then show ?thesis by (simp add: drop_bit_eq_div)
qed

lemma uint_low: "uint (low (of_all x :: u32 dwords)) = sint x mod 2 ^ 32" for x :: u64
proof -
  have "uint (low (of_all x :: u32 dwords)) = take_bit 32 (sint x)"
    by (rule bit_eqI) (auto simp: of_all_def bit_simps sint_uint min_def)
  then show ?thesis by (simp add: take_bit_eq_mod)
qed

lemma int_div_mod_less:
  "0 < m \<Longrightarrow> x < y \<longleftrightarrow> x div m < y div m \<or> x div m = y div m \<and> x mod m < y mod m" for x y m :: int
proof -
  assume m: "0 < m"
  have "x div m < y div m \<Longrightarrow> x < y" "y div m < x div m \<Longrightarrow> y < x"
    using m by (meson not_le zdiv_mono1)+
  moreover have "x < y \<longleftrightarrow> x mod m < y mod m" if "x div m = y div m"
    by (metis add_less_cancel_left div_mult_mod_eq that)
  ultimately show ?thesis by (meson linorder_neqE_linordered_idom not_less_iff_gr_or_eq)
qed

lemma signed_halves_less:
  fixes x y :: u64
  defines "u \<equiv> of_all :: u64 \<Rightarrow> u32 dwords"
  shows "x <s y \<longleftrightarrow> high (u x) <s high (u y) \<or> high (u x) = high (u y) \<and> low (u x) < low (u y)"
  unfolding word_sless_alt word_less_def word_eq_iff_signed [where 'a = int] u_def sint_high uint_low
  by (rule int_div_mod_less) simp

text \<open>
  C24: the three-way comparisons of double words by halves return 0, 1 or 2 as the first
  operand is less than, equal to or greater than the second, in the signed order for
  \<open>__cmpdi2\<close> and the unsigned order for \<open>__ucmpdi2\<close> and \<open>__ucmpti2\<close>.
\<close>

theorem three_way_comparison:
  "cmpdi2 a b = (if a <s b then 0 else if b <s a then 2 else 1) \<and>
   ucmpdi2 a b = (if a < b then 0 else if b < a then 2 else 1) \<and>
   ucmpti2 c d = (if c < d then 0 else if d < c then 2 else 1)"
proof -
  have "cmpdi2 a b = (if a <s b then 0 else if b <s a then 2 else 1)"
    using signed_halves_less [of a b] signed_halves_less [of b a]
    by (auto simp: cmpdi2_def Let_def)
  then show ?thesis
    by (simp add: ucmpdi2_def ucmpti2_def ucmp_order)
qed

end
