(* ===== verification/CrtDiv.thy ===== *)
theory CrtDiv
  imports CrtWide
begin

text \<open>
  The shift-and-subtract division of the compiler runtime computes quotients and remainders:
  the case analysis at its start either answers at once or sets up the registers \<open>q\<close>, \<open>r\<close>
  and \<open>sr\<close> (\<open>starts\<close>), and every round of the loop produces one bit of the quotient
  (\<open>loop_inv\<close>). The locale \<open>halves\<close> is a double word of two words; it is interpreted for
  the 64-bit and the 128-bit routines. The signed divisions follow.
\<close>

section \<open>Counting leading and trailing zeros\<close>

lemma takeWhile_not_split:
  "(\<forall>x\<in>set xs. P x) \<Longrightarrow> \<not> P y \<Longrightarrow> takeWhile P (xs @ y # ys) = xs"
  by (simp add: takeWhile_append2)

lemma upt_split: "m < n \<Longrightarrow> [0..<n] = [0..<m] @ m # [Suc m..<n]"
  using upt_add_eq_append [of 0 m "n - m"] by (simp add: upt_conv_Cons)

lemma nonzero_bit: "x \<noteq> 0 \<Longrightarrow> \<exists>i<LENGTH('a). bit x i" for x :: "'a::len word"
  by (metis bit_0_eq bit_imp_le_length bit_eqI bot_apply bot_bool_def)

lemma clz_spec:
  assumes "x \<noteq> (0 :: 'a::len word)"
  obtains m where "m < LENGTH('a)" "bit x m" "\<And>i. m < i \<Longrightarrow> \<not> bit x i" "clz x = LENGTH('a) - Suc m"
proof -
  let ?S = "{i. bit x i}"
  have fin: "finite ?S"
    by (rule finite_subset [of _ "{..<LENGTH('a)}"]) (auto dest: bit_imp_le_length)
  define m where "m = Max ?S"
  have ne: "?S \<noteq> {}" using nonzero_bit [OF assms] by blast
  then have m: "bit x m" using Max_in [OF fin] by (simp add: m_def)
  have hi: "\<not> bit x i" if "m < i" for i
  proof
    assume "bit x i"
    then have "i \<le> m" unfolding m_def by (intro Max_ge fin) simp
    with that show False by simp
  qed
  have lt: "m < LENGTH('a)" using m by (rule bit_imp_le_length)
  have "clz x = length (takeWhile (\<lambda>i. \<not> bit x i) (rev [Suc m..<LENGTH('a)] @ m # rev [0..<m]))"
    using upt_split [OF lt] by (simp add: clz_def)
  also have "\<dots> = length (rev [Suc m..<LENGTH('a)])"
    by (subst takeWhile_not_split) (auto simp: m hi)
  finally show thesis using that lt m hi by simp
qed

lemma ctz_spec:
  assumes "x \<noteq> (0 :: 'a::len word)"
  shows "ctz x < LENGTH('a)" "bit x (ctz x)" "i < ctz x \<Longrightarrow> \<not> bit x i"
proof -
  obtain k where "bit x k" using nonzero_bit [OF assms] by blast
  define m where "m = (LEAST i. bit x i)"
  have m: "bit x m" unfolding m_def using \<open>bit x k\<close> by (rule LeastI)
  have lo: "\<not> bit x i" if "i < m" for i using that unfolding m_def by (rule not_less_Least)
  have lt: "m < LENGTH('a)" using m by (rule bit_imp_le_length)
  have "ctz x = length [0..<m]"
    unfolding ctz_def upt_split [OF lt] by (subst takeWhile_not_split) (auto simp: m lo)
  with lt m lo show "ctz x < LENGTH('a)" "bit x (ctz x)" "i < ctz x \<Longrightarrow> \<not> bit x i"
    by simp_all
qed

lemma clz_bounds:
  assumes "x \<noteq> (0 :: 'a::len word)"
  shows "clz x < LENGTH('a)" "2 ^ (LENGTH('a) - 1 - clz x) \<le> unat x" "unat x < 2 ^ (LENGTH('a) - clz x)"
proof -
  obtain m where m: "m < LENGTH('a)" "bit x m" "\<And>i. m < i \<Longrightarrow> \<not> bit x i"
    and c: "clz x = LENGTH('a) - Suc m"
    using clz_spec [OF assms] by metis
  show "clz x < LENGTH('a)" using m(1) c by simp
  have "take_bit (Suc m) (unat x) = unat x"
    by (rule bit_eqI) (use m(3) in \<open>auto simp: bit_simps less_Suc_eq_le not_le[symmetric]\<close>)
  then have "unat x < 2 ^ Suc m" by (metis take_bit_nat_less_exp)
  then show "unat x < 2 ^ (LENGTH('a) - clz x)" using m(1) c by (simp add: Suc_diff_Suc)
  have "bit (unat x) m" using m(2) by (simp add: bit_simps)
  then have "2 ^ m \<le> unat x"
    by (metis bit_iff_odd div_less even_zero linorder_not_le)
  then show "2 ^ (LENGTH('a) - 1 - clz x) \<le> unat x" using m(1) c by simp
qed

text \<open>\<open>x & (x - 1)\<close> is zero for the powers of two.\<close>

lemma power_of_two:
  assumes "x \<noteq> (0 :: 'a::len word)" "x AND (x - 1) = 0"
  shows "unat x = 2 ^ ctz x"
proof -
  let ?j = "ctz x" and ?n = "unat x"
  have "take_bit ?j ?n = 0"
    by (rule bit_eqI) (use ctz_spec(3) [OF assms(1)] in \<open>auto simp: bit_simps\<close>)
  then have "?n = 2 ^ ?j * (?n div 2 ^ ?j)"
    by (metis add.right_neutral mult_div_mod_eq take_bit_eq_mod)
  moreover have "odd (?n div 2 ^ ?j)"
    using ctz_spec(2) [OF assms(1)] by (simp add: bit_simps flip: bit_iff_odd)
  ultimately obtain z where n: "?n = 2 ^ ?j * (2 * z + 1)"
    by (metis oddE)
  have "unat (x - 1) = ?n - 1"
    using assms(1) by (simp add: unat_minus_one)
  then have "?n AND (?n - 1) = 0"
    using assms(2) by (metis unsigned_0 unsigned_and_eq)
  then have "drop_bit (Suc ?j) ?n AND drop_bit (Suc ?j) (?n - 1) = 0"
    by (simp flip: drop_bit_and)
  moreover have "drop_bit (Suc ?j) ?n = z"
    by (simp only: drop_bit_eq_div n power_Suc2 div_mult2_eq) simp
  moreover have "drop_bit (Suc ?j) (?n - 1) = z"
  proof -
    have eq: "?n - 1 = (2 ^ ?j - 1) + 2 ^ Suc ?j * z"
      by (simp add: n)
    show ?thesis
      unfolding eq drop_bit_eq_div by (subst div_mult_self2) (simp_all add: div_less less_imp_diff_less)
  qed
  ultimately show ?thesis by (simp add: n)
qed

section \<open>Bits of the unions\<close>

lemma bit_all:
  "LENGTH('f) = 2 * LENGTH('h) \<Longrightarrow>
     bit (all (x :: 'h::len word dwords) :: 'f::len word) i \<longleftrightarrow>
       (if i < LENGTH('h) then bit (low x) i else i < LENGTH('f) \<and> bit (high x) (i - LENGTH('h)))"
  by (auto simp: all_def bit_simps dest: bit_imp_le_length)

lemma bit_low: "bit (low (of_all (x :: 'f::len word) :: 'h::len word dwords)) i \<longleftrightarrow> i < LENGTH('h) \<and> bit x i"
  by (auto simp: of_all_def bit_simps dest: bit_imp_le_length)

lemma bit_high:
  "bit (high (of_all (x :: 'f::len word) :: 'h::len word dwords)) i \<longleftrightarrow>
     i < LENGTH('h) \<and> bit x (LENGTH('h) + i)"
  by (auto simp: of_all_def bit_simps dest: bit_imp_le_length)
section \<open>Masks and shifts\<close>

lemma sint_diff_u32:
  "p < 2 ^ 31 \<Longrightarrow> q < 2 ^ 31 \<Longrightarrow> sint (of_nat p - of_nat q :: u32) = int p - int q"
proof -
  assume "p < 2 ^ 31" "q < 2 ^ 31"
  then have "fits TYPE(32) (int p - int q)"
    by (simp add: fits_def int_max_def)
  then show ?thesis
    using sint_of_int [of "int p - int q", where 'a = 32] by simp
qed

lemma neg_mask_diff:
  "p < 2 ^ 31 \<Longrightarrow> q < 2 ^ 31 \<Longrightarrow> 32 \<le> LENGTH('h) \<Longrightarrow>
     (neg_mask (of_nat p - of_nat q) :: 'h::len word) = (if p < q then - 1 else 0)"
proof -
  assume a: "p < 2 ^ 31" "q < 2 ^ 31" "32 \<le> LENGTH('h)"
  have "sint (scast (d :: u32) :: 'h word) = sint d" for d
  proof -
    have "(2 :: int) ^ 31 \<le> 2 ^ (LENGTH('h) - 1)"
      using a(3) by (intro power_increasing) simp_all
    with sint_bounds [of d] have "fits TYPE('h) (sint d)"
      by (simp add: fits_def int_max_def)
    then show ?thesis
      using sint_of_int [of "sint d", where 'a = 'h] by simp
  qed
  then have "sint (scast (of_nat p - of_nat q :: u32) :: 'h word) = int p - int q"
    using sint_diff_u32 [OF a(1,2)] by simp
  then show ?thesis
    using sign_mask_eq [of "scast (of_nat p - of_nat q :: u32) :: 'h word"]
    by (simp add: neg_mask_def sign_mask_def)
qed

lemma unat_of_nat_lt32 [simp]: "n < 2 ^ 32 \<Longrightarrow> unat (of_nat n :: u32) = n"
  by (simp add: unsigned_of_nat take_bit_nat_eq_self)

lemma unat_diff_u32:
  "p < 2 ^ 31 \<Longrightarrow> q \<le> p \<Longrightarrow> unat (of_nat p - of_nat q :: u32) = p - q"
  by (simp flip: of_nat_diff)

lemma less_diff_u32:
  "p < 2 ^ 31 \<Longrightarrow> q < 2 ^ 31 \<Longrightarrow> c < 2 ^ 31 \<Longrightarrow>
     (of_nat c :: u32) < of_nat p - of_nat q \<longleftrightarrow> p < q \<or> c < p - q"
proof -
  assume a: "p < 2 ^ 31" "q < 2 ^ 31" "c < 2 ^ 31"
  have "unat (of_nat p - of_nat q :: u32) = (if q \<le> p then p - q else p + 2 ^ 32 - q)"
    using a by (simp add: unat_sub_if' word_le_nat_alt)
  then show ?thesis
    using a by (auto simp: word_less_nat_alt)
qed
lemma shl_diff:
  "p < 2 ^ 31 \<Longrightarrow> q \<le> p \<Longrightarrow> p - q < LENGTH('h) \<Longrightarrow>
     shl ub (x :: 'h::len word) (of_nat p - of_nat q) = push_bit (p - q) x"
  by (simp add: shl_def unat_diff_u32)

lemma shr_diff:
  "p < 2 ^ 31 \<Longrightarrow> q \<le> p \<Longrightarrow> p - q < LENGTH('h) \<Longrightarrow>
     shr ub (x :: 'h::len word) (of_nat p - of_nat q) = drop_bit (p - q) x"
  by (simp add: shr_def unat_diff_u32)

lemma shr_nat:
  "q < 2 ^ 31 \<Longrightarrow> q < LENGTH('h) \<Longrightarrow> shr ub (x :: 'h::len word) (of_nat q) = drop_bit q x"
  by (simp add: shr_def)

section \<open>The registers before the loop\<close>

text \<open>
  The registers of the loop: the dividend shifted left out of \<open>q\<close> and right into \<open>r\<close>, the
  remaining bits fewer than the divisor's, so that \<open>r < d\<close>.
\<close>

definition ready :: "'f::len word \<Rightarrow> 'f word \<Rightarrow> 'h::len word dwords \<Rightarrow> 'h word dwords \<Rightarrow> nat \<Rightarrow> bool" where
  "ready a b q r s \<longleftrightarrow> 1 \<le> s \<and> s < LENGTH('f) \<and>
     all q = push_bit (LENGTH('f) - s) a \<and> all r = drop_bit s a \<and>
     unat a div 2 ^ s < unat b \<and> (s = 1 \<and> 2 ^ (LENGTH('f) - 1) \<le> unat a \<or> unat b \<le> 2 ^ (LENGTH('f) - 1))"

fun starts :: "'f::len word \<Rightarrow> 'f word \<Rightarrow> ('f word, 'h::len word) division \<Rightarrow> bool" where
  "starts a b (Quotient q r) \<longleftrightarrow> q = a div b \<and> r = a mod b"
| "starts a b (Shift_subtract q r sr) \<longleftrightarrow> ready a b q r (unat sr)"

lemma bit_drop_or_push:
  "bit (push_bit m x OR drop_bit n y) i \<longleftrightarrow> m \<le> i \<and> i < LENGTH('h) \<and> bit x (i - m) \<or> bit y (n + i)"
  for x y :: "'h::len word"
  by (auto simp: bit_simps dest: bit_imp_le_length)

text \<open>
  With \<open>j\<close> rounds left, \<open>r\<close> is the remainder of the top of the dividend and \<open>q\<close> holds its
  low \<open>j\<close> bits above the quotient, the last bit of which is still in \<open>carry\<close>.
\<close>

definition loop_inv :: "nat \<Rightarrow> nat \<Rightarrow> nat \<Rightarrow> nat \<Rightarrow> nat \<Rightarrow> nat \<Rightarrow> bool" where
  "loop_inv F A D j q c \<longleftrightarrow>
     c = A div 2 ^ j div D mod 2 \<and>
     q = 2 ^ (F - j) * (A mod 2 ^ j) + A div 2 ^ j div D div 2"

text \<open>Shifts of a double word by less than a word, by a word, and by more, on its halves.\<close>

locale halves =
  fixes full :: "'f::len itself" and half :: "'h::len itself"
  assumes f: "LENGTH('f) = 2 * LENGTH('h)" and h: "32 \<le> LENGTH('h)" "LENGTH('h) \<le> 64"
begin

lemmas halves_bits = bit_all [OF f] bit_low bit_high bit_simps f mult_2

lemma bit_bound: "bit (a :: 'f word) i \<Longrightarrow> i < LENGTH('h) + LENGTH('h)"
  by (drule bit_imp_le_length) (simp add: f mult_2)

lemma push_bit_short:
  "s \<le> LENGTH('h) \<Longrightarrow> n = (of_all (a :: 'f word) :: 'h word dwords) \<Longrightarrow>
     all \<lparr>low = 0, high = push_bit (LENGTH('h) - s) (low n)\<rparr> = push_bit (LENGTH('f) - s) a"
  by (rule bit_word_eqI) (auto simp: halves_bits)

lemma drop_bit_short:
  "s < LENGTH('h) \<Longrightarrow> n = (of_all (a :: 'f word) :: 'h word dwords) \<Longrightarrow>
     all \<lparr>low = push_bit (LENGTH('h) - s) (high n) OR drop_bit s (low n), high = drop_bit s (high n)\<rparr>
     = drop_bit s a"
  by (rule bit_word_eqI) (auto simp: halves_bits add.commute, frule bit_bound, linarith)

lemma drop_bit_word: "n = (of_all (a :: 'f word) :: 'h word dwords) \<Longrightarrow> all \<lparr>low = high n, high = 0\<rparr> = drop_bit LENGTH('h) a"
  by (rule bit_word_eqI) (auto simp: halves_bits dest: bit_imp_le_length)

lemma drop_bit_long:
  "LENGTH('h) \<le> s \<Longrightarrow> s < LENGTH('f) \<Longrightarrow> n = (of_all (a :: 'f word) :: 'h word dwords) \<Longrightarrow>
     all \<lparr>low = drop_bit (s - LENGTH('h)) (high n), high = 0\<rparr> = drop_bit s a"
  by (rule bit_word_eqI) (auto simp: halves_bits dest: bit_imp_le_length)

lemma push_bit_long:
  assumes "LENGTH('h) < s" "s < LENGTH('f)" and n: "n = (of_all (a :: 'f word) :: 'h word dwords)"
  shows "all \<lparr>low = push_bit (LENGTH('f) - s) (low n),
            high = push_bit (LENGTH('f) - s) (high n) OR drop_bit (s - LENGTH('h)) (low n)\<rparr>
     = push_bit (LENGTH('f) - s) a"
    (is "all ?x = _")
proof (rule bit_word_eqI)
  fix i assume i: "i < LENGTH('f)"
  obtain t where t: "s = LENGTH('h) + t" "0 < t" "t < LENGTH('h)"
    using assms(1,2) f by (metis add_diff_inverse_nat less_imp_not_less mult_2 nat_add_left_cancel_less
        zero_less_diff)
  have k: "LENGTH('f) - (LENGTH('h) + t) = LENGTH('h) - t" using t by (simp add: f mult_2)
  show "bit (all ?x :: 'f word) i = bit (push_bit (LENGTH('f) - s) a) i"
  proof (cases "i < LENGTH('h)")
    case True
    with i show ?thesis by (auto simp: bit_all [OF f] bit_low bit_simps n)
  next
    case False
    then obtain j where j: "i = LENGTH('h) + j" by (metis le_iff_add not_less)
    with i have "j < LENGTH('h)" by (simp add: f mult_2)
    consider "LENGTH('h) - t \<le> j" | "j < LENGTH('h) - t" by linarith
    then show ?thesis
    proof cases
      case 1
      then have "LENGTH('h) + (j - (LENGTH('h) - t)) = j + t" "j + t - LENGTH('h) < LENGTH('h)"
        using t \<open>j < LENGTH('h)\<close> by simp_all
      with 1 i j t(2,3) \<open>j < LENGTH('h)\<close> show ?thesis
        by (auto simp: bit_all [OF f] bit_low bit_high bit_simps n t(1) k add.commute [of t j])
    next
      case 2
      then have "LENGTH('h) + j - (LENGTH('h) - t) = j + t" "j + t < LENGTH('h)"
        "LENGTH('h) - t \<le> LENGTH('h) + j" using t by simp_all
      moreover have "bit a (t + j) = bit a (j + t)" by (simp add: add.commute)
      ultimately show ?thesis using 2 i j t(2,3) \<open>j < LENGTH('h)\<close>
        by (simp add: bit_all [OF f] bit_low bit_high bit_simps n t(1) k)
    qed
  qed
qed

section \<open>The case analysis\<close>

lemma unat_halves: "unat a = unat (high n) * 2 ^ LENGTH('h) + unat (low n)"
  if "n = (of_all (a :: 'f word) :: 'h word dwords)" for a :: "'f word"
  unfolding that by (simp only: unat_all [OF f, symmetric] all_of_all [OF f])

lemma all_halves: "all (of_all (a :: 'f word) :: 'h word dwords) = (a :: 'f word)"
  by (rule all_of_all [OF f])

lemma unat_f: "unat (ucast (x :: 'h word) :: 'f word) = unat x"
  using f by (simp add: unat_ucast_half)

lemma div_mod_unat:
  fixes a b :: "'f word"
  shows "unat q = unat a div unat b \<Longrightarrow> unat r = unat a mod unat b \<Longrightarrow> q = a div b \<and> r = a mod b"
  by (simp add: word_unat_eq_iff unat_div unat_mod)

lemma div_small_starts:
  fixes a b :: "'f word"
  assumes n: "n = (of_all (a :: 'f word) :: 'h word dwords)" and d: "d = (of_all b :: 'h word dwords)"
    and z: "high n = 0" "low d \<noteq> 0 \<or> high d \<noteq> 0"
  shows "starts a b (div_small n d)"
proof -
  note unat_n = unat_halves [OF n] and unat_d = unat_halves [OF d]
  have "unat (low n) < 2 ^ LENGTH('h)" by (rule unat_bound)
  also have "high d \<noteq> 0 \<Longrightarrow> 2 ^ LENGTH('h) \<le> unat b"
    using unat_d by (cases "unat (high d)") (simp_all add: unat_eq_0)
  finally have lt: "unat a < unat b" if "high d \<noteq> 0"
    using z that by (simp add: unat_n)
  show ?thesis
  proof (cases "high d = 0")
    case True
    with z unat_n unat_d show ?thesis
      by (auto simp: div_small_def unat_f unat_div unat_mod intro!: div_mod_unat)
  next
    case False
    have "unat a = unat (low n)" using unat_n z by simp
    with lt [OF False] have "0 = a div b \<and> ucast (low n) = a mod b"
      by (intro div_mod_unat) (simp_all add: unat_f)
    with False show ?thesis
      by (simp add: div_small_def)
  qed
qed

text \<open>Where the divisor has a high half, the difference of the leading zeros decides.\<close>

lemma clz_high:
  assumes "x \<noteq> (0 :: 'h word)"
  shows "2 ^ (LENGTH('f) - 1 - clz x) \<le> unat x * 2 ^ LENGTH('h) + l"
    and "l < 2 ^ LENGTH('h) \<Longrightarrow> unat x * 2 ^ LENGTH('h) + l < 2 ^ (LENGTH('f) - clz x)"
proof -
  note b = clz_bounds [OF assms]
  have "2 ^ (LENGTH('h) - 1 - clz x) * 2 ^ LENGTH('h) \<le> unat x * 2 ^ LENGTH('h)"
    using b(2) by (rule mult_right_mono) simp
  moreover have "LENGTH('f) - 1 - clz x = (LENGTH('h) - 1 - clz x) + LENGTH('h)"
    using b(1) f by simp
  ultimately show "2 ^ (LENGTH('f) - 1 - clz x) \<le> unat x * 2 ^ LENGTH('h) + l"
    by (metis power_add trans_le_add1)
  assume "l < 2 ^ LENGTH('h)"
  then have "unat x * 2 ^ LENGTH('h) + l < (unat x + 1) * 2 ^ LENGTH('h)" by simp
  also have "\<dots> \<le> 2 ^ (LENGTH('h) - clz x) * 2 ^ LENGTH('h)"
    using b(3) by (intro mult_right_mono) simp_all
  also have "\<dots> = 2 ^ (LENGTH('f) - clz x)"
    using b(1) f by (simp flip: power_add)
  finally show "unat x * 2 ^ LENGTH('h) + l < 2 ^ (LENGTH('f) - clz x)" .
qed

lemma less_by_clz:
  fixes a b :: "'f word"
  assumes "2 ^ (LENGTH('f) - 1 - cb) \<le> unat b" "unat a < 2 ^ (LENGTH('f) - ca)" "cb < LENGTH('f)"
    "s = cb + 1 - ca" "ca \<le> cb"
  shows "unat a div 2 ^ s < unat b"
proof -
  have "unat a < 2 ^ (LENGTH('f) - 1 - cb) * 2 ^ s"
    using assms by (simp flip: power_add)
  then have "unat a div 2 ^ s < 2 ^ (LENGTH('f) - 1 - cb)"
    by (rule less_mult_imp_div_less)
  also note assms(1)
  finally show ?thesis .
qed

lemma top_or_one:
  "unat (b :: 'f word) < 2 ^ (LENGTH('f) - cb) \<Longrightarrow> (cb = 0 \<Longrightarrow> P) \<Longrightarrow>
     P \<or> unat b \<le> 2 ^ (LENGTH('f) - 1)"
  using power_increasing [of "LENGTH('f) - cb" "LENGTH('f) - 1" "2 :: nat"]
  by (cases cb) (simp_all add: less_imp_le less_le_trans)

lemma less_by_clz_large:
  fixes a b :: "'f word"
  assumes "2 ^ (LENGTH('f) - 1 - cb) \<le> unat b" "unat a < 2 ^ (LENGTH('f) - ca)" "cb < ca"
  shows "unat a < unat b"
proof -
  have "unat a < 2 ^ (LENGTH('f) - ca)" by (rule assms)
  also have "\<dots> \<le> 2 ^ (LENGTH('f) - 1 - cb)" using assms by (intro power_increasing) simp_all
  also note assms(1)
  finally show ?thesis .
qed

lemma h_bounds: "LENGTH('h) < 2 ^ 31" "LENGTH('f) < 2 ^ 31"
  using h f by simp_all

lemma neg_mask_h:
  "p < 2 ^ 31 \<Longrightarrow> q < 2 ^ 31 \<Longrightarrow>
     (neg_mask (of_nat p - of_nat q) :: 'h word) = (if p < q then - 1 else 0)"
  by (rule neg_mask_diff [OF _ _ h(1)])

lemma neg_mask_minus_1 [simp]: "(neg_mask (- 1) :: 'h word) = - 1"
  using neg_mask_h [of 0 1] by simp

lemma neg_mask_0 [simp]: "(neg_mask 0 :: 'h word) = 0"
  using neg_mask_h [of 0 0] by simp

lemma div_two_words_starts:
  fixes a b :: "'f word"
  assumes n: "n = (of_all a :: 'h word dwords)" and d: "d = (of_all b :: 'h word dwords)"
    and z: "high n \<noteq> 0" "high d \<noteq> 0"
  shows "starts a b (div_two_words ub n d)"
proof -
  let ?cn = "clz (high n)" and ?cd = "clz (high d)" and ?H = "LENGTH('h)"
  have c: "?cn < ?H" "?cd < ?H" using clz_bounds(1) z by blast+
  have bd: "2 ^ (LENGTH('f) - 1 - ?cd) \<le> unat b" "unat a < 2 ^ (LENGTH('f) - ?cn)"
    unfolding unat_halves [OF n] unat_halves [OF d] using clz_high z unat_bound by blast+
  have b1: "(of_nat ?H :: u32) - 1 = of_nat (?H - 1)"
    using h by (simp add: of_nat_diff)
  show ?thesis
  proof (cases "?cd < ?cn")
    case True
    then have "unat a < unat b" using less_by_clz_large [OF bd] by simp
    then have "0 = a div b \<and> a = a mod b"
      by (intro div_mod_unat) simp_all
    moreover have "(of_nat ?H :: u32) - 1 < of_nat ?cd - of_nat ?cn"
      unfolding b1 using True c h by (subst less_diff_u32) simp_all
    ultimately show ?thesis
      by (simp add: div_two_words_def Let_def n all_halves)
  next
    case False
    define s where "s = ?cd + 1 - ?cn"
    have s: "1 \<le> s" "s \<le> ?H" "s < LENGTH('f)" using False c f h by (simp_all add: s_def)
    have "\<not> (of_nat ?H :: u32) - 1 < of_nat ?cd - of_nat ?cn"
      unfolding b1 using False c h by (subst less_diff_u32) simp_all
    moreover have sr: "(of_nat ?cd - of_nat ?cn :: u32) + 1 = of_nat s"
      using False by (simp add: s_def flip: of_nat_diff) (simp add: Suc_diff_le)
    ultimately have eq: "(div_two_words ub n d :: ('f word, 'h word) division) = Shift_subtract
        \<lparr>low = 0, high = shl ub (low n) (of_nat ?H - of_nat s)\<rparr>
        \<lparr>low = shl ub (high n) (of_nat ?H - of_nat s)
               OR (shr ub (low n) (of_nat s) AND neg_mask (of_nat s - of_nat ?H)),
         high = shr ub (high n) (of_nat s) AND neg_mask (of_nat s - of_nat ?H)\<rparr> (of_nat s)"
      by (simp add: div_two_words_def Let_def)
    have "unat a div 2 ^ s < unat b"
      using less_by_clz [OF bd _ s_def] c(2) False f by simp
    moreover have "unat b < 2 ^ (LENGTH('f) - ?cd)"
      unfolding unat_halves [OF d] using clz_high(2) z unat_bound by blast
    then have "s = 1 \<and> 2 ^ (LENGTH('f) - 1) \<le> unat a \<or> unat b \<le> 2 ^ (LENGTH('f) - 1)"
    proof (rule top_or_one)
      assume "?cd = 0"
      with False have "s = 1" "?cn = 0" by (simp_all add: s_def)
      with clz_high(1) [OF z(1), of "unat (low n)"] show "s = 1 \<and> 2 ^ (LENGTH('f) - 1) \<le> unat a"
        by (simp add: unat_halves [OF n])
    qed
    moreover have "shl ub (low n) (of_nat ?H - of_nat s) = push_bit (?H - s) (low n)"
      using s h by (intro shl_diff) simp_all
    moreover have "shl ub (high n) (of_nat ?H - of_nat s) = push_bit (?H - s) (high n)"
      using s h by (intro shl_diff) simp_all
    moreover note push_bit_short [OF s(2) n]
    moreover have "all \<lparr>low = push_bit (?H - s) (high n)
               OR (shr ub (low n) (of_nat s) AND neg_mask (of_nat s - of_nat ?H)),
         high = shr ub (high n) (of_nat s) AND neg_mask (of_nat s - of_nat ?H)\<rparr> = drop_bit s a"
    proof (cases "s = ?H")
      case True
      then show ?thesis using drop_bit_word [OF n] h by (simp add: neg_mask_h)
    next
      case False
      with s have "s < ?H" by simp
      with drop_bit_short [OF this n] h show ?thesis by (simp add: neg_mask_h shr_nat)
    qed
    ultimately show ?thesis
      using s h by (simp add: eq ready_def)
  qed
qed

lemma power_of_two_div:
  "x \<noteq> 0 \<Longrightarrow> x AND (x - 1) = (0 :: 'h word) \<Longrightarrow>
     unat (y AND (x - 1)) = unat y mod 2 ^ ctz x"
proof -
  assume x: "x \<noteq> 0" "x AND (x - 1) = 0"
  then have "unat (x - 1) = mask (ctz x)"
    by (simp add: unat_minus_one power_of_two mask_eq_exp_minus_1)
  then show ?thesis
    by (simp add: unsigned_and_eq take_bit_eq_mod flip: take_bit_eq_mask)
qed

lemma unat_all_f: "unat (all (x :: 'h word dwords) :: 'f word) =
    unat (high x) * 2 ^ LENGTH('h) + unat (low x)"
  by (rule unat_all [OF f])

lemma div_low_zero_starts:
  fixes a b :: "'f word"
  assumes n: "n = (of_all a :: 'h word dwords)" and d: "d = (of_all b :: 'h word dwords)"
    and z: "high n \<noteq> 0" "high d \<noteq> 0" "low d = 0"
  shows "starts a b (div_low_zero ub n d)"
proof -
  let ?H = "LENGTH('h)"
  note ub = unat_halves [OF n] unat_halves [OF d, unfolded z(3), simplified]
  have B: "unat (low n) < 2 ^ ?H" by (rule unat_bound)
  have q: "unat a div unat b = unat (high n) div unat (high d)"
    and r: "unat a mod unat b = unat (high n) mod unat (high d) * 2 ^ ?H + unat (low n)"
  proof -
    show "unat a div unat b = unat (high n) div unat (high d)"
      using B unfolding ub mult.commute [of "unat (high d)"] div_mult2_eq by simp
    have "unat a mod unat b = 2 ^ ?H * (unat a div 2 ^ ?H mod unat (high d)) + unat a mod 2 ^ ?H"
      unfolding ub(2) mult.commute [of "unat (high d)"] by (rule mod_mult2_eq)
    then show "unat a mod unat b = unat (high n) mod unat (high d) * 2 ^ ?H + unat (low n)"
      using B by (simp add: ub(1))
  qed
  consider "low n = 0" | "low n \<noteq> 0" "high d AND (high d - 1) = 0"
    | "low n \<noteq> 0" "high d AND (high d - 1) \<noteq> 0" by blast
  then show ?thesis
  proof cases
    case 1
    then have "ucast (high n div high d) = a div b \<and>
        all \<lparr>low = 0, high = high n mod high d\<rparr> = a mod b"
      by (intro div_mod_unat) (simp_all add: unat_f unat_all_f q r unat_div unat_mod)
    with 1 show ?thesis by (simp add: div_low_zero_def)
  next
    case 2
    have "ucast (drop_bit (ctz (high d)) (high n)) = a div b \<and>
        all \<lparr>low = low n, high = high n AND (high d - 1)\<rparr> = a mod b"
      by (intro div_mod_unat)
         (simp_all add: unat_f unat_all_f q r unat_drop_half power_of_two [OF z(2) 2(2)]
           power_of_two_div [OF z(2) 2(2)])
    with 2 show ?thesis by (simp add: div_low_zero_def)
  next
    case 3
    have "clz (high d) \<noteq> ?H - 1"
    proof
      assume "clz (high d) = ?H - 1"
      then have "unat (high d) = 1"
        using clz_bounds(2,3) [OF z(2)] h by (simp add: diff_diff_right)
      then have "high d = 1"
        by (metis unat_1 word_unat_eq_iff)
      with 3(2) show False by simp
    qed
    with clz_bounds(1) [OF z(2)] clz_bounds(1) [OF z(1)]
    have c: "clz (high d) < ?H - 1" "clz (high n) < ?H" by simp_all
    have b1: "(of_nat ?H :: u32) - 1 = of_nat (?H - 1)" "(of_nat ?H :: u32) - 2 = of_nat (?H - 2)"
      using h by (simp_all add: of_nat_diff)
    have "(div_low_zero ub n d :: ('f word, 'h word) division) = div_two_words ub n d"
    proof (cases "clz (high d) < clz (high n)")
      case True
      then have "(of_nat ?H :: u32) - 1 < of_nat (clz (high d)) - of_nat (clz (high n))"
        "(of_nat ?H :: u32) - 2 < of_nat (clz (high d)) - of_nat (clz (high n))"
        unfolding b1 using c h by (subst less_diff_u32; simp)+
      with 3 show ?thesis by (simp add: div_low_zero_def div_two_words_def Let_def)
    next
      case False
      define s where "s = clz (high d) + 1 - clz (high n)"
      have s: "s < ?H" using c(1) by (simp add: s_def)
      have "\<not> (of_nat ?H :: u32) - 1 < of_nat (clz (high d)) - of_nat (clz (high n))"
        "\<not> (of_nat ?H :: u32) - 2 < of_nat (clz (high d)) - of_nat (clz (high n))"
        unfolding b1 using c h False by (subst less_diff_u32; simp)+
      moreover have sr: "(of_nat (clz (high d)) - of_nat (clz (high n)) :: u32) + 1 = of_nat s"
        using False by (simp add: s_def flip: of_nat_diff) (simp add: Suc_diff_le)
      moreover have "(neg_mask (of_nat s - of_nat ?H) :: 'h word) = - 1"
        using s h by (simp add: neg_mask_h)
      ultimately show ?thesis
        using 3 by (simp add: div_low_zero_def div_two_words_def Let_def)
    qed
    then show ?thesis using div_two_words_starts [OF n d z(1,2)] by simp
  qed
qed

text \<open>The masked expressions pick the one of the three cases of the shift that applies.\<close>

lemma masked_registers:
  fixes a :: "'f word" and ub :: "'h word \<Rightarrow> nat \<Rightarrow> 'h word" and s :: nat
  assumes n: "n = (of_all a :: 'h word dwords)" and s: "1 \<le> s" "s < LENGTH('f)"
  defines "q \<equiv> one_word_q ub (of_nat LENGTH('h)) (of_nat LENGTH('f)) n (of_nat s)"
  defines "r \<equiv> one_word_r ub (of_nat LENGTH('h)) n (of_nat s)"
  shows "all q = push_bit (LENGTH('f) - s) a \<and> all r = drop_bit s a"
proof -
  let ?H = "LENGTH('h)" and ?F = "LENGTH('f)"
  have b: "s < 2 ^ 31" "?H < 2 ^ 31" "?F < 2 ^ 31" "Suc s < 2 ^ 31" "Suc ?H < 2 ^ 31"
    using s f h by simp_all
  have Suc: "(of_nat s - of_nat ?H - 1 :: u32) = of_nat s - of_nat (Suc ?H)"
    "(of_nat ?H - of_nat s - 1 :: u32) = of_nat ?H - of_nat (Suc s)"
    by simp_all
  have masks: "(neg_mask (of_nat ?H - of_nat s) :: 'h word) = (if ?H < s then - 1 else 0)"
    "(neg_mask (of_nat s - of_nat ?H) :: 'h word) = (if s < ?H then - 1 else 0)"
    "(neg_mask (of_nat ?H - of_nat s - 1) :: 'h word) = (if ?H \<le> s then - 1 else 0)"
    "(neg_mask (of_nat s - of_nat ?H - 1) :: 'h word) = (if s \<le> ?H then - 1 else 0)"
    unfolding Suc by (simp_all only: neg_mask_h [OF b(2,1)] neg_mask_h [OF b(1,2)]
        neg_mask_h [OF b(2,4)] neg_mask_h [OF b(1,5)] less_Suc_eq_le)
  note defs = q_def r_def one_word_q_def one_word_r_def masks
  consider "s < ?H" | "s = ?H" | "?H < s" by linarith
  then show ?thesis
  proof cases
    case 1
    then have "q = \<lparr>low = 0, high = push_bit (?H - s) (low n)\<rparr>"
      "r = \<lparr>low = push_bit (?H - s) (high n) OR drop_bit s (low n), high = drop_bit s (high n)\<rparr>"
      using s b by (simp_all add: defs shl_diff [OF b(2)] shr_nat)
    with push_bit_short [OF less_imp_le [OF 1] n] drop_bit_short [OF 1 n] show ?thesis
      by (simp only:)
  next
    case 2
    then have "q = \<lparr>low = 0, high = push_bit (?H - s) (low n)\<rparr>" "r = \<lparr>low = high n, high = 0\<rparr>"
      using s shr_diff [OF b(2), of ?H ub "high n"] shl_diff [OF b(2), of ?H ub "low n"]
      by (simp_all add: defs)
    with push_bit_short [OF eq_imp_le [OF 2] n] drop_bit_word [OF n] 2 show ?thesis
      by (simp only:)
  next
    case 3
    then have fs: "?F - s < ?H" "s - ?H < ?H" using s f by simp_all
    from 3 have "q = \<lparr>low = push_bit (?F - s) (low n),
        high = push_bit (?F - s) (high n) OR drop_bit (s - ?H) (low n)\<rparr>"
      "r = \<lparr>low = drop_bit (s - ?H) (high n), high = 0\<rparr>"
      using s fs by (simp_all add: defs shl_diff [OF b(3)] shr_diff [OF b(1)])
    with push_bit_long [OF 3 s(2) n] drop_bit_long [OF less_imp_le [OF 3] s(2) n] show ?thesis
      by (simp only:)
  qed
qed

lemma div_one_word_starts:
  fixes a b :: "'f word"
  assumes n: "n = (of_all a :: 'h word dwords)" and d: "d = (of_all b :: 'h word dwords)"
    and z: "high n \<noteq> 0" "high d = 0" "low d \<noteq> 0"
  shows "starts a b (div_one_word ub n d)"
proof -
  let ?H = "LENGTH('h)" and ?F = "LENGTH('f)" and ?cn = "clz (high n)" and ?cd = "clz (low d)"
  note un = unat_halves [OF n] and ub = unat_halves [OF d, unfolded z(2), simplified]
  show ?thesis
  proof (cases "low d AND (low d - 1) = 0")
    case pow: True
    let ?c = "ctz (low d)"
    have c: "?c < ?H" by (rule ctz_spec(1) [OF z(3)])
    have b: "unat b = 2 ^ ?c" using ub power_of_two [OF z(3) pow] by simp
    have "(2 :: nat) ^ ?H = 2 ^ ?c * 2 ^ (?H - ?c)" using c by (simp flip: power_add)
    then have "unat a mod 2 ^ ?c = unat (low n) mod 2 ^ ?c"
      by (simp add: un mult.assoc [symmetric] mult.commute [of "unat (high n)"])
         (simp add: mult.assoc)
    then have rem: "unat (ucast (low n AND (low d - 1)) :: 'f word) = unat a mod unat b"
      by (simp add: unat_f power_of_two_div [OF z(3) pow] b)
    show ?thesis
    proof (cases "low d = 1")
      case True
      then have "unat b = 1" using ub by simp
      with rem have "a = a div b \<and> ucast (low n AND (low d - 1)) = a mod b"
        by (intro div_mod_unat) simp_all
      with pow True show ?thesis by (simp add: div_one_word_def Let_def n all_halves)
    next
      case False
      have "?c \<noteq> 0"
      proof
        assume "?c = 0"
        then have "low d = 1" using ub b by (metis power_0 unat_1 word_unat_eq_iff)
        with False show False by simp
      qed
      then have "all \<lparr>low = shl ub' (high n) (of_nat ?H - of_nat ?c) OR shr ub' (low n) (of_nat ?c),
          high = shr ub' (high n) (of_nat ?c)\<rparr> = drop_bit ?c a" for ub'
        using drop_bit_short [OF c n] c h by (simp add: shl_diff shr_nat)
      moreover have "unat (drop_bit ?c a) = unat a div unat b"
        by (simp add: unat_drop_half b)
      then have "drop_bit ?c a = a div b \<and> ucast (low n AND (low d - 1)) = a mod b"
        using rem by (rule div_mod_unat)
      ultimately show ?thesis
        using pow False by (simp add: div_one_word_def Let_def)
    qed
  next
    case False
    have "?cd \<noteq> ?H - 1"
    proof
      assume "?cd = ?H - 1"
      then have "unat (low d) = 1"
        using clz_bounds(2,3) [OF z(3)] h by (simp add: diff_diff_right)
      then have "low d = 1" by (metis unat_1 word_unat_eq_iff)
      with False show False by simp
    qed
    with clz_bounds(1) [OF z(3)] clz_bounds(1) [OF z(1)] have c: "?cd < ?H - 1" "?cn < ?H"
      by simp_all
    define s where "s = 1 + ?H + ?cd - ?cn"
    have s: "1 \<le> s" "s < ?F" "s < 2 ^ 31" using c f h by (simp_all add: s_def)
    have sr: "1 + of_nat ?H + of_nat ?cd - of_nat ?cn = (of_nat s :: u32)"
      using c by (simp add: s_def flip: of_nat_diff) (simp add: of_nat_diff)
    have "unat a < 2 ^ (?F - ?cn)"
      unfolding un by (rule clz_high(2) [OF z(1) unat_bound])
    moreover have "2 ^ (?F - 1 - (?H + ?cd)) \<le> unat b"
      using clz_bounds(2) [OF z(3)] f by (simp add: ub mult_2)
    ultimately have "unat a div 2 ^ s < unat b"
      by (intro less_by_clz [where ca = ?cn and cb = "?H + ?cd"]) (use c f in \<open>simp_all add: s_def\<close>)
    moreover have "unat b \<le> 2 ^ (?F - 1)"
    proof -
      have "unat b < 2 ^ ?H" using ub by (simp add: unat_bound)
      also have "\<dots> \<le> 2 ^ (?F - 1)" using f h by (intro power_increasing) simp_all
      finally show ?thesis by simp
    qed
    moreover note masked_registers [OF n s(1,2), of ub]
    moreover have "(div_one_word ub n d :: ('f word, 'h word) division) = Shift_subtract
        (one_word_q ub (of_nat ?H) (of_nat ?F) n (of_nat s))
        (one_word_r ub (of_nat ?H) n (of_nat s)) (of_nat s)"
      using False unfolding div_one_word_def Let_def sr by (simp only: if_False)
    ultimately show ?thesis
      using s by (simp add: ready_def)
  qed
qed

section \<open>The loop\<close>

lemma bit_twice: "bit (x * 2) n \<longleftrightarrow> 0 < n \<and> n < LENGTH('a) \<and> bit x (n - 1)" for x :: "'a::len word"
  using bit_push_bit_iff [of 1 x n] by (simp add: Suc_le_eq)

lemma div_shift_all:
  assumes "div_shift q r carry = (q', r')"
  shows "all q' = push_bit 1 (all q) OR (ucast (carry :: 'h word) :: 'f word)"
    and "all r' = push_bit 1 (all r) OR (drop_bit (LENGTH('f) - 1) (all q) :: 'f word)"
proof -
  have q': "q' = \<lparr>low = push_bit 1 (low q) OR carry,
      high = push_bit 1 (high q) OR drop_bit (LENGTH('h) - 1) (low q)\<rparr>"
    and r': "r' = \<lparr>low = push_bit 1 (low r) OR drop_bit (LENGTH('h) - 1) (high q),
      high = push_bit 1 (high r) OR drop_bit (LENGTH('h) - 1) (low r)\<rparr>"
    using assms by (simp_all add: div_shift_def)
  show "all q' = push_bit 1 (all q) OR (ucast carry :: 'f word)"
    by (rule bit_word_eqI) (use h in \<open>auto simp: q' bit_all [OF f] bit_simps bit_twice f mult_2
        dest: bit_imp_le_length\<close>)
  show "all r' = push_bit 1 (all r) OR (drop_bit (LENGTH('f) - 1) (all q) :: 'f word)"
    by (rule bit_word_eqI) (use h in \<open>auto simp: r' bit_all [OF f] bit_simps bit_twice f mult_2
        dest: bit_imp_le_length\<close>)
qed

section \<open>The arithmetic of one round\<close>

lemma div_pow2_Suc: "A div 2 ^ j = 2 * (A div 2 ^ Suc j) + A div 2 ^ j mod 2" for A :: nat
  by (simp add: power_Suc2 div_mult2_eq del: power_Suc)

lemma mod_pow2_Suc: "A mod 2 ^ Suc j = 2 ^ j * (A div 2 ^ j mod 2) + A mod 2 ^ j" for A :: nat
  by (simp only: power_Suc2 mod_mult2_eq)

text \<open>A remainder and one more bit: the next quotient bit and remainder.\<close>

lemma divide_round:
  fixes A D j :: nat
  assumes "0 < D"
  defines "Q \<equiv> A div 2 ^ Suc j div D" and "x \<equiv> 2 * (A div 2 ^ Suc j mod D) + A div 2 ^ j mod 2"
  shows "A div 2 ^ j div D = 2 * Q + (if D \<le> x then 1 else 0)"
    and "A div 2 ^ j mod D = (if D \<le> x then x - D else x)"
proof -
  have eq: "A div 2 ^ j = 2 * Q * D + x"
  proof -
    have "A div 2 ^ j = 2 * (Q * D + A div 2 ^ Suc j mod D) + A div 2 ^ j mod 2"
      unfolding Q_def div_mult_mod_eq by (rule div_pow2_Suc)
    also have "\<dots> = 2 * Q * D + x"
      by (simp add: x_def add_mult_distrib2 mult.assoc)
    finally show ?thesis .
  qed
  have "A div 2 ^ Suc j mod D < D" by (rule mod_less_divisor) (rule assms)
  then have x: "x < 2 * D" unfolding x_def by linarith
  show "A div 2 ^ j div D = 2 * Q + (if D \<le> x then 1 else 0)"
    unfolding eq using assms(1) x by (simp add: le_div_geq)
  show "A div 2 ^ j mod D = (if D \<le> x then x - D else x)"
    unfolding eq using x by (simp add: le_mod_geq)
qed

lemma loop_inv_top:
  assumes "loop_inv F A D (Suc j) q c" "Suc j \<le> F" "A div 2 ^ Suc j div D < 2 ^ (F - j)"
  shows "q div 2 ^ (F - 1) = A div 2 ^ j mod 2"
proof -
  have "F - Suc j + j = F - Suc 0" using assms(2) by simp
  then have e: "(2 :: nat) ^ (F - Suc 0) = 2 ^ (F - Suc j) * 2 ^ j" by (simp flip: power_add)
  have "(2 :: nat) ^ (F - j) = 2 * 2 ^ (F - Suc j)"
    using assms(2) by (simp flip: power_Suc add: Suc_diff_le)
  then have "A div 2 ^ Suc j div D div 2 < 2 ^ (F - Suc j)" using assms(3) by simp
  moreover have "A mod 2 ^ Suc j div 2 ^ j = A div 2 ^ j mod 2"
    by (simp add: mod_pow2_Suc del: power_Suc)
  ultimately show ?thesis
    using assms(1) unfolding One_nat_def e by (simp add: loop_inv_def div_mult2_eq del: power_Suc)
qed

lemma loop_inv_shift:
  assumes "loop_inv F A D (Suc j) q c" "Suc j \<le> F" "A div 2 ^ Suc j div D < 2 ^ (F - j)"
  shows "(2 * q + c) mod 2 ^ F = 2 ^ (F - j) * (A mod 2 ^ j) + A div 2 ^ Suc j div D"
proof -
  let ?Q = "A div 2 ^ Suc j div D"
  have e: "(2 :: nat) ^ (F - j) = 2 * 2 ^ (F - Suc j)"
    using assms(2) by (simp flip: power_Suc add: Suc_diff_le)
  have F: "(2 :: nat) ^ F = 2 ^ (F - j) * 2 ^ j"
    using assms(2) by (simp flip: power_add)
  have "2 * q + c = 2 ^ (F - j) * (A mod 2 ^ Suc j) + ?Q"
    using assms(1) by (simp add: loop_inv_def e algebra_simps del: power_Suc)
  also have "\<dots> = 2 ^ F * (A div 2 ^ j mod 2) + (2 ^ (F - j) * (A mod 2 ^ j) + ?Q)"
    by (simp add: mod_pow2_Suc F algebra_simps del: power_Suc)
  finally have "(2 * q + c) mod 2 ^ F = (2 ^ (F - j) * (A mod 2 ^ j) + ?Q) mod 2 ^ F"
    by simp
  also have "2 ^ (F - j) * (A mod 2 ^ j) + ?Q < 2 ^ F"
  proof -
    have "2 ^ (F - j) * (A mod 2 ^ j) + ?Q < 2 ^ (F - j) * (A mod 2 ^ j + 1)" using assms(3) by simp
    also have "\<dots> \<le> 2 ^ F" unfolding F by (intro mult_left_mono) (simp_all add: Suc_leI)
    finally show ?thesis .
  qed
  then have "(2 ^ (F - j) * (A mod 2 ^ j) + ?Q) mod 2 ^ F = 2 ^ (F - j) * (A mod 2 ^ j) + ?Q"
    by (rule mod_less)
  finally show ?thesis .
qed

text \<open>The subtraction is decided by the sign of \<open>d - r - 1\<close>.\<close>

lemma subtract_mask:
  fixes b r :: "'f word"
  assumes "- (2 ^ (LENGTH('f) - 1)) \<le> int (unat b) - int (unat r) - 1"
    "int (unat b) - int (unat r) - 1 < 2 ^ (LENGTH('f) - 1)"
  shows "signed_drop_bit (LENGTH('f) - 1) (b - r - 1) = (if unat b \<le> unat r then - 1 else 0)"
proof -
  have "b - r - 1 = word_of_int (int (unat b) - int (unat r) - 1)" by simp
  also have "sint \<dots> = int (unat b) - int (unat r) - 1"
    by (rule sint_of_int) (use assms in \<open>simp add: fits_def int_max_def\<close>)
  finally show ?thesis
    using sign_mask_eq [of "b - r - 1"]
    by (auto simp: sign_mask_def word_le_def simp flip: word_le_nat_alt)
qed

lemma unat_twice_or:
  fixes x y :: "'f word"
  assumes "unat y \<le> 1"
  shows "unat (push_bit 1 x OR y) = (2 * unat x + unat y) mod 2 ^ LENGTH('f)"
proof -
  have "y = 0 \<or> y = 1"
    using assms by (metis le_Suc_eq le_zero_eq One_nat_def unat_eq_0 unat_1 word_unat_eq_iff)
  then have "push_bit 1 x OR y = push_bit 1 x + y"
    by (intro disjunctive_add_eq_or [symmetric]) (auto simp: bit_eq_iff bit_simps bit_twice)
  then show ?thesis
    by (simp add: unat_word_ariths mod_simps mult.commute)
qed

lemma round_bounds:
  fixes F A D R s j :: nat
  assumes "0 < F" "A < 2 ^ F" "D < 2 ^ F" "0 < D" "A div 2 ^ s < D" "Suc j \<le> s"
    and c: "s = 1 \<and> 2 ^ (F - 1) \<le> A \<or> D \<le> 2 ^ (F - 1)"
  defines "x \<equiv> 2 * (A div 2 ^ Suc j mod D) + A div 2 ^ j mod 2"
  shows "x < 2 ^ F" "- (2 ^ (F - 1)) \<le> int D - int x - 1" "int D - int x - 1 < 2 ^ (F - 1)"
proof -
  define P :: nat where "P = 2 ^ (F - 1)"
  have P2: "2 ^ F = 2 * P" using assms(1) by (cases F) (simp_all add: P_def)
  have P: "(2 :: int) ^ (F - 1) = int P" by (simp add: P_def)
  have "x < 2 * P \<and> - int P \<le> int D - int x - 1 \<and> int D - int x - 1 < int P"
  proof (cases "D \<le> P")
    case True
    have "A div 2 ^ Suc j mod D < D" by (rule mod_less_divisor) (rule assms)
    then have "x < 2 * D" unfolding x_def by linarith
    with True assms(4) show ?thesis by linarith
  next
    case False
    with c have s: "s = 1" "P \<le> A" by (auto simp: P_def)
    with assms(6) have j: "j = 0" by simp
    from assms(5) s have "A div 2 < D" by simp
    then have "x = A" by (simp add: x_def j)
    with s False assms(2,3) show ?thesis by (simp add: P2)
  qed
  then show "x < 2 ^ F" "- (2 ^ (F - 1)) \<le> int D - int x - 1" "int D - int x - 1 < 2 ^ (F - 1)"
    by (simp_all only: P P2)
qed

lemma div_loop_correct:
  fixes a b :: "'f word" and q r :: "'h word dwords" and carry :: "'h word"
  defines "A \<equiv> unat a" and "D \<equiv> unat b" and "F \<equiv> LENGTH('f)"
  assumes "0 < D" "A div 2 ^ s < D" "s < F"
    and c: "s = 1 \<and> 2 ^ (F - 1) \<le> A \<or> D \<le> 2 ^ (F - 1)"
  shows "div_loop b j q r carry = (q', r', c') \<Longrightarrow> j \<le> s \<Longrightarrow>
    loop_inv F A D j (unat (all q :: 'f word)) (unat carry) \<Longrightarrow>
    unat (all r :: 'f word) = A div 2 ^ j mod D \<Longrightarrow>
    unat (all r' :: 'f word) = A mod D \<and> loop_inv F A D 0 (unat (all q' :: 'f word)) (unat c')"
proof (induction j arbitrary: q r carry)
  case 0
  then show ?case by simp
next
  case (Suc j)
  obtain q1 r1 where sh: "div_shift q r carry = (q1, r1)" by (cases "div_shift q r carry")
  let ?x = "2 * (A div 2 ^ Suc j mod D) + A div 2 ^ j mod 2"
  have lt: "A < 2 ^ F" "D < 2 ^ F" "0 < F" by (simp_all add: A_def D_def F_def unat_bound)
  have jF: "Suc j \<le> F" using Suc.prems(2) assms(6) by simp
  have Q: "A div 2 ^ Suc j div D < 2 ^ (F - j)"
  proof -
    have "A div 2 ^ Suc j div D \<le> A div 2 ^ j"
      by (rule order_trans [OF div_le_dividend]) (simp add: div_le_mono2)
    also have "\<dots> < 2 ^ (F - j)" using lt(1) jF by (intro div_pow2_less) simp
    finally show ?thesis .
  qed
  note b = round_bounds [OF lt(3,1,2) assms(4,5) Suc.prems(2) c]
  have carry: "unat carry \<le> 1" using Suc.prems(3) by (simp add: loop_inv_def)
  have top: "unat (drop_bit (LENGTH('f) - 1) (all q :: 'f word)) = A div 2 ^ j mod 2"
    unfolding unat_drop_half using loop_inv_top [OF Suc.prems(3) jF Q] by (simp add: F_def)
  have q1: "unat (all q1 :: 'f word) = 2 ^ (F - j) * (A mod 2 ^ j) + A div 2 ^ Suc j div D"
    unfolding div_shift_all(1) [OF sh]
    using loop_inv_shift [OF Suc.prems(3) jF Q] carry by (subst unat_twice_or) (simp_all add: unat_f F_def)
  have r1: "unat (all r1 :: 'f word) = ?x"
    unfolding div_shift_all(2) [OF sh]
    using top b(1) Suc.prems(4) by (subst unat_twice_or) (simp_all add: F_def)
  let ?s = "signed_drop_bit (LENGTH('f) - 1) (b - all r1 - 1) :: 'f word"
  have mask: "?s = (if D \<le> ?x then - 1 else 0)"
    using b(2,3) by (subst subtract_mask) (simp_all add: r1 D_def F_def)
  let ?r2 = "of_all (all r1 - (b AND ?s)) :: 'h word dwords" and ?c2 = "ucast (?s AND 1) :: 'h word"
  note round = divide_round [OF assms(4), of A j]
  have "div_loop b j q1 ?r2 ?c2 = (q', r', c')"
    using Suc.prems(1) by (simp add: sh Let_def)
  moreover have "j \<le> s" using Suc.prems(2) by simp
  moreover have c2: "unat ?c2 = (if D \<le> ?x then 1 else 0)"
    unfolding mask by simp
  then have "loop_inv F A D j (unat (all q1 :: 'f word)) (unat ?c2)"
    by (simp add: loop_inv_def q1 round(1))
  moreover have "unat (all ?r2 :: 'f word) = A div 2 ^ j mod D"
    unfolding all_of_all [OF f] round(2) mask
    by (simp add: r1 unat_sub word_le_nat_alt flip: D_def)
  ultimately show ?case by (rule Suc.IH)
qed

lemma ready_loop:
  fixes a b :: "'f word" and q r :: "'h word dwords"
  assumes ready: "ready a b q r s" and "b \<noteq> 0" and loop: "div_loop b s q r 0 = (q', r', c')"
  shows "push_bit 1 (all q') OR ucast (c' :: 'h word) = a div b \<and> all r' = a mod b"
proof (rule div_mod_unat)
  let ?A = "unat a" and ?D = "unat b" and ?F = "LENGTH('f)"
  have r: "s < ?F" "all q = push_bit (?F - s) a" "all r = drop_bit s a" "?A div 2 ^ s < ?D"
    and c: "s = 1 \<and> 2 ^ (?F - 1) \<le> ?A \<or> ?D \<le> 2 ^ (?F - 1)"
    using ready by (simp_all add: ready_def)
  have D: "0 < ?D" using assms(2) by (simp add: unat_gt_0)
  have "(2 :: nat) ^ ?F = 2 ^ (?F - s) * 2 ^ s" using r(1) by (simp flip: power_add)
  then have q: "unat (all q :: 'f word) = 2 ^ (?F - s) * (?A mod 2 ^ s)"
    unfolding r(2) by (simp add: unsigned_push_bit_eq take_bit_eq_mod push_bit_eq_mult [where 'a = nat]
        mult.commute [of ?A])
  have "loop_inv ?F ?A ?D s (unat (all q :: 'f word)) (unat (0 :: 'h word))"
    using r(4) by (simp add: loop_inv_def q)
  moreover have "unat (all r :: 'f word) = ?A div 2 ^ s mod ?D"
    using r(4) by (simp add: r(3) unat_drop_half)
  ultimately have "unat (all r' :: 'f word) = ?A mod ?D \<and>
      loop_inv ?F ?A ?D 0 (unat (all q' :: 'f word)) (unat c')"
    using div_loop_correct [OF D r(4,1) c loop order_refl] by blast
  then have res: "unat (all r' :: 'f word) = ?A mod ?D"
    "unat (all q' :: 'f word) = ?A div ?D div 2" "unat c' = ?A div ?D mod 2"
    by (simp_all add: loop_inv_def)
  show "unat (all r' :: 'f word) = ?A mod ?D" by (rule res)
  have "?A div ?D < 2 ^ ?F" by (rule le_less_trans [OF div_le_dividend unat_bound])
  then show "unat (push_bit 1 (all q') OR ucast c' :: 'f word) = ?A div ?D"
    by (subst unat_twice_or) (simp_all add: unat_f res)
qed

theorem udivmod_correct:
  fixes a b :: "'f word" and ub :: "'h word \<Rightarrow> nat \<Rightarrow> 'h word"
  shows "udivmod ub a b = (if b = 0 then None else Some (a div b, a mod b))"
proof -
  define n d where "n = (of_all a :: 'h word dwords)" and "d = (of_all b :: 'h word dwords)"
  have zero: "low d = 0 \<and> high d = 0 \<longleftrightarrow> b = 0"
    using unat_halves [OF d_def] by (auto simp: d_def of_all_def simp flip: unat_eq_0)
  show ?thesis
  proof (cases "b = 0")
    case True
    with zero show ?thesis
      unfolding udivmod_def Let_def n_def [symmetric] d_def [symmetric] by (simp only: if_True simp_thms)
  next
    case False
    define start :: "('f word, 'h word) division" where
      "start = (if high n = 0 then div_small n d else if low d = 0 then div_low_zero ub n d
        else if high d = 0 then div_one_word ub n d else div_two_words ub n d)"
    have st: "starts a b start"
      using zero False div_small_starts [OF n_def d_def] div_low_zero_starts [OF n_def d_def, of ub]
        div_one_word_starts [OF n_def d_def, of ub] div_two_words_starts [OF n_def d_def, of ub]
      by (simp add: start_def)
    have un: "udivmod ub a b = (case start of Quotient q r \<Rightarrow> Some (q, r)
        | Shift_subtract q r sr \<Rightarrow>
            (let (q, r, carry) = div_loop b (unat sr) q r 0 in
             Some (push_bit 1 (all q) OR ucast carry, all r)))"
      using zero False
      unfolding udivmod_def Let_def start_def n_def [symmetric] d_def [symmetric]
      by (simp only: if_False)
    show ?thesis
    proof (cases start)
      case (Shift_subtract q r sr)
      obtain q' r' c' where loop: "div_loop b (unat sr) q r 0 = (q', r', c')"
        by (cases "div_loop b (unat sr) q r 0")
      have "push_bit 1 (all q') OR ucast c' = a div b \<and> all r' = a mod b"
        using st False loop unfolding Shift_subtract starts.simps by (intro ready_loop)
      with un loop show ?thesis using False by (simp add: Shift_subtract)
    qed (use un st False in simp)
  qed
qed

end

interpretation di: halves "TYPE(64)" "TYPE(32)"
  by unfold_locales simp_all

interpretation ti: halves "TYPE(128)" "TYPE(64)"
  by unfold_locales simp_all

section \<open>The division routines\<close>

definition udivmoddi4 :: "(u32 \<Rightarrow> nat \<Rightarrow> u32) \<Rightarrow> u64 \<Rightarrow> u64 \<Rightarrow> (u64 \<times> u64) option" where
  "udivmoddi4 ub a b = udivmod ub a b"

definition udivmodti4 :: "(u64 \<Rightarrow> nat \<Rightarrow> u64) \<Rightarrow> 128 word \<Rightarrow> 128 word \<Rightarrow>
    (128 word \<times> 128 word) option" where
  "udivmodti4 ub a b = udivmod ub a b"

definition udivdi3 :: "(u32 \<Rightarrow> nat \<Rightarrow> u32) \<Rightarrow> u64 \<Rightarrow> u64 \<Rightarrow> u64 option" where
  "udivdi3 ub a b = map_option fst (udivmoddi4 ub a b)"

definition umoddi3 :: "(u32 \<Rightarrow> nat \<Rightarrow> u32) \<Rightarrow> u64 \<Rightarrow> u64 \<Rightarrow> u64 option" where
  "umoddi3 ub a b = map_option snd (udivmoddi4 ub a b)"

definition udivti3 :: "(u64 \<Rightarrow> nat \<Rightarrow> u64) \<Rightarrow> 128 word \<Rightarrow> 128 word \<Rightarrow> 128 word option" where
  "udivti3 ub a b = map_option fst (udivmodti4 ub a b)"

definition umodti3 :: "(u64 \<Rightarrow> nat \<Rightarrow> u64) \<Rightarrow> 128 word \<Rightarrow> 128 word \<Rightarrow> 128 word option" where
  "umodti3 ub a b = map_option snd (udivmodti4 ub a b)"

text \<open>
  The signed routines divide the magnitudes and negate the result by the sign masks. The
  unsigned routine they call is an argument, so that the two widths share the text.
\<close>

definition sdiv_by :: "('f::len word \<Rightarrow> 'f word \<Rightarrow> ('f word \<times> 'f word) option) \<Rightarrow>
    'f word \<Rightarrow> 'f word \<Rightarrow> 'f word option" where
  "sdiv_by udm a b =
     (let s_a = sign_mask a; s_b = sign_mask b;
          a = negate_if s_a a; b = negate_if s_b b;
          s_a = s_a XOR s_b in
      map_option (\<lambda>(q, _). negate_if s_a q) (udm a b))"

definition smod_by :: "('f::len word \<Rightarrow> 'f word \<Rightarrow> ('f word \<times> 'f word) option) \<Rightarrow>
    'f word \<Rightarrow> 'f word \<Rightarrow> 'f word option" where
  "smod_by udm a b =
     (let s = sign_mask b; b = negate_if s b;
          s = sign_mask a; a = negate_if s a in
      map_option (\<lambda>(_, r). negate_if s r) (udm a b))"

definition divdi3 :: "(u32 \<Rightarrow> nat \<Rightarrow> u32) \<Rightarrow> u64 \<Rightarrow> u64 \<Rightarrow> u64 option" where
  "divdi3 ub a b = sdiv_by (udivmoddi4 ub) a b"

definition divti3 :: "(u64 \<Rightarrow> nat \<Rightarrow> u64) \<Rightarrow> 128 word \<Rightarrow> 128 word \<Rightarrow> 128 word option" where
  "divti3 ub a b = sdiv_by (udivmodti4 ub) a b"

definition moddi3 :: "(u32 \<Rightarrow> nat \<Rightarrow> u32) \<Rightarrow> u64 \<Rightarrow> u64 \<Rightarrow> u64 option" where
  "moddi3 ub a b = smod_by (udivmoddi4 ub) a b"

definition modti3 :: "(u64 \<Rightarrow> nat \<Rightarrow> u64) \<Rightarrow> 128 word \<Rightarrow> 128 word \<Rightarrow> 128 word option" where
  "modti3 ub a b = smod_by (udivmodti4 ub) a b"

text \<open>\<open>__divmoddi4\<close>: the quotient, and the remainder by a multiplication.\<close>

definition divmoddi4 :: "(u32 \<Rightarrow> nat \<Rightarrow> u32) \<Rightarrow> u64 \<Rightarrow> u64 \<Rightarrow> (u64 \<times> u64) option" where
  "divmoddi4 ub a b = map_option (\<lambda>d. (d, a - d * b)) (divdi3 ub a b)"

lemma udivmod_widths:
  "udivmoddi4 ub a b = (if b = 0 then None else Some (a div b, a mod b))"
  "udivmodti4 ub' c d = (if d = 0 then None else Some (c div d, c mod d))"
  unfolding udivmoddi4_def udivmodti4_def by (rule di.udivmod_correct, rule ti.udivmod_correct)

section \<open>Signed division\<close>

lemma uint_magnitude: "uint (negate_if (sign_mask a) a) = \<bar>sint a\<bar>" for a :: "'a::len word"
proof (cases "sint a < 0")
  case True
  have "- a = word_of_int (- sint a)" by simp
  moreover have "0 \<le> - sint a" "- sint a < 2 ^ LENGTH('a)"
    using True sint_bounds [of a] int_max_pos [of "TYPE('a)"] by (simp_all add: two_int_max)
  ultimately have "uint (- a) = - sint a"
    by (metis uint_word_of_int_eq take_bit_int_eq_self)
  with True show ?thesis by (simp add: sign_mask_eq)
next
  case False
  have "0 \<le> sint a" "sint a < 2 ^ LENGTH('a)"
    using False sint_bounds [of a] int_max_pos [of "TYPE('a)"] by (simp_all add: two_int_max)
  then have "uint (word_of_int (sint a) :: 'a word) = sint a"
    by (simp add: uint_word_of_int_eq take_bit_int_eq_self del: of_int_sint)
  with False show ?thesis by (simp add: sign_mask_eq)
qed

lemma negate_if_int:
  "negate_if (if P then - 1 else 0) (w :: 'a::len word) = word_of_int (if P then - uint w else uint w)"
  by simp

lemma negate_by_sign:
  "negate_if (sign_mask a) w = word_of_int (if sint a < 0 then - uint w else uint w)"
  for a w :: "'a::len word"
  unfolding sign_mask_eq by (rule negate_if_int)

lemma magnitude_div_mod:
  fixes a b :: "'a::len word"
  defines "x \<equiv> negate_if (sign_mask a) a" and "y \<equiv> negate_if (sign_mask b) b"
  shows "uint (x div y) = \<bar>sint a\<bar> div \<bar>sint b\<bar>" "uint (x mod y) = \<bar>sint a\<bar> mod \<bar>sint b\<bar>"
    "y = 0 \<longleftrightarrow> b = 0"
proof -
  have xy: "uint x = \<bar>sint a\<bar>" "uint y = \<bar>sint b\<bar>"
    by (simp_all add: x_def y_def uint_magnitude)
  show "uint (x div y) = \<bar>sint a\<bar> div \<bar>sint b\<bar>" "uint (x mod y) = \<bar>sint a\<bar> mod \<bar>sint b\<bar>"
    by (simp_all add: uint_div uint_mod xy)
  have "y = 0 \<longleftrightarrow> uint y = 0" by (simp add: unsigned_eq_0_iff)
  also have "\<dots> \<longleftrightarrow> b = 0" by (simp add: xy signed_eq_0_iff)
  finally show "y = 0 \<longleftrightarrow> b = 0" .
qed

lemma sdiv_by_correct:
  fixes a b :: "'f::len word"
  assumes "\<And>x y. udm x y = (if y = 0 then None else Some (x div y, x mod y))"
  shows "sdiv_by udm a b = (if b = 0 then None else Some (word_of_int (sint a sdiv sint b)))"
    and "smod_by udm a b = (if b = 0 then None else Some (word_of_int (sint a smod sint b)))"
proof -
  have x: "sign_mask a XOR sign_mask b = (if (sint a < 0) \<noteq> (sint b < 0) then - 1 else 0)"
    by (simp add: sign_mask_eq)
  have "sint a sdiv sint b = (if (sint a < 0) \<noteq> (sint b < 0)
      then - (\<bar>sint a\<bar> div \<bar>sint b\<bar>) else \<bar>sint a\<bar> div \<bar>sint b\<bar>)"
    by (auto simp: signed_divide_int_def sgn_if)
  then show "sdiv_by udm a b = (if b = 0 then None else Some (word_of_int (sint a sdiv sint b)))"
    unfolding sdiv_by_def Let_def x assms
    by (simp add: magnitude_div_mod negate_if_int)
  have m: "sint a smod sint b = (if sint a < 0 then - (\<bar>sint a\<bar> mod \<bar>sint b\<bar>)
      else \<bar>sint a\<bar> mod \<bar>sint b\<bar>)"
    by (auto simp: signed_modulo_int_def sgn_if)
  show "smod_by udm a b = (if b = 0 then None else Some (word_of_int (sint a smod sint b)))"
    unfolding smod_by_def Let_def assms m
    by (simp add: magnitude_div_mod negate_by_sign [of a "_ mod _"])
qed

section \<open>Properties\<close>

text \<open>
  C18: the unsigned 64-bit and 128-bit division routines return the quotient and the remainder
  of their operands for every pair with a nonzero divisor, whatever the machine yields for
  the shifts by the word width and more that the masked code computes and discards; each
  path of the case analysis and every one of the up to 127 rounds of the loop is covered.
\<close>

theorem unsigned_division:
  "udivmoddi4 ub a b = (if b = 0 then None else Some (a div b, a mod b)) \<and>
   udivdi3 ub a b = (if b = 0 then None else Some (a div b)) \<and>
   umoddi3 ub a b = (if b = 0 then None else Some (a mod b)) \<and>
   udivmodti4 ub' c d = (if d = 0 then None else Some (c div d, c mod d)) \<and>
   udivti3 ub' c d = (if d = 0 then None else Some (c div d)) \<and>
   umodti3 ub' c d = (if d = 0 then None else Some (c mod d))"
  by (simp add: udivdi3_def umoddi3_def udivti3_def umodti3_def udivmod_widths)

text \<open>
  C19: the signed division routines truncate towards zero and give the remainder the sign of
  the dividend, as C requires; the one quotient that does not fit, the least number by -1,
  wraps around. \<open>__divmoddi4\<close>, which recomputes the remainder by a multiplication, returns
  both.
\<close>

theorem signed_division:
  "divdi3 ub a b = (if b = 0 then None else Some (word_of_int (sint a sdiv sint b))) \<and>
   moddi3 ub a b = (if b = 0 then None else Some (word_of_int (sint a smod sint b))) \<and>
   divmoddi4 ub a b = (if b = 0 then None
     else Some (word_of_int (sint a sdiv sint b), word_of_int (sint a smod sint b))) \<and>
   divti3 ub' c d = (if d = 0 then None else Some (word_of_int (sint c sdiv sint d))) \<and>
   modti3 ub' c d = (if d = 0 then None else Some (word_of_int (sint c smod sint d)))"
proof -
  have "a - word_of_int (sint a sdiv sint b) * b
      = word_of_int (sint a - sint a sdiv sint b * sint b)" by simp
  also have "sint a - sint a sdiv sint b * sint b = sint a smod sint b"
    by (rule minus_sdiv_mult_eq_smod)
  finally have "a - word_of_int (sint a sdiv sint b) * b = word_of_int (sint a smod sint b)" .
  then show ?thesis
    by (simp add: divdi3_def moddi3_def divmoddi4_def divti3_def modti3_def sdiv_by_correct
        udivmod_widths)
qed

end
