(* ===== verification/CrtBits.thy ===== *)
theory CrtBits
  imports CrtWide
begin

text \<open>
  The bit counts of the compiler runtime (src/core/CompilerRT): the parities, which fold the
  word onto its low nibble and look the answer up in the constant 0x6996, and the population
  counts, which add neighbouring fields of 1, 2, 4 and more bits in parallel.
\<close>

section \<open>Parity\<close>

text \<open>\<open>__paritysi2\<close>, \<open>__paritydi2\<close> and \<open>__parityti2\<close>.\<close>

definition paritysi2 :: "u32 \<Rightarrow> u32" where
  "paritysi2 a =
     (let x = a XOR drop_bit 16 a;
          x = x XOR drop_bit 8 x;
          x = x XOR drop_bit 4 x
      in drop_bit (unat (x AND 0xF)) 0x6996 AND 1)"

definition paritydi2 :: "u64 \<Rightarrow> u32" where
  "paritydi2 a = (let x = of_all a :: u32 dwords in paritysi2 (high x XOR low x))"

definition parityti2 :: "128 word \<Rightarrow> u32" where
  "parityti2 a = (let x = of_all a :: u64 dwords in paritydi2 (high x XOR low x))"

text \<open>The number of one bits among the lowest \<open>n\<close>, and in the whole word.\<close>

definition ones :: "nat \<Rightarrow> 'a::len word \<Rightarrow> nat" where
  "ones n x = (\<Sum>i<n. of_bool (bit x i))"

definition bit_count :: "'a::len word \<Rightarrow> nat" where
  "bit_count x = ones LENGTH('a) x"

lemma ones_split: "ones (m + n) x = ones m x + ones n (drop_bit m x)"
  by (induction n) (simp_all add: ones_def bit_simps add.assoc)

lemma odd_ones_xor: "odd (ones n (x XOR y)) \<longleftrightarrow> odd (ones n x + ones n y)"
  by (induction n) (auto simp: ones_def bit_simps)

lemma odd_ones_fold: "odd (ones (2 * n) x) \<longleftrightarrow> odd (ones n (x XOR drop_bit n x))"
  by (simp add: mult_2 ones_split odd_ones_xor)

lemma paritysi2_odd: "paritysi2 a = of_bool (odd (bit_count a))"
proof -
  define x where "x = a XOR drop_bit 16 a"
  define y where "y = x XOR drop_bit 8 x"
  define z where "z = y XOR drop_bit 4 y"
  have "odd (bit_count a) \<longleftrightarrow> odd (ones 16 x)"
    using odd_ones_fold [of 16 a] by (simp add: bit_count_def x_def)
  also have "\<dots> \<longleftrightarrow> odd (ones 8 y)" using odd_ones_fold [of 8 x] by (simp add: y_def)
  also have "\<dots> \<longleftrightarrow> odd (ones 4 z)" using odd_ones_fold [of 4 y] by (simp add: z_def)
  finally have o: "odd (bit_count a) \<longleftrightarrow> odd (ones 4 z)" .
  have ones4: "ones 4 z = of_bool (bit z 0) + of_bool (bit z 1) + of_bool (bit z 2) + of_bool (bit z 3)"
    by (simp add: ones_def eval_nat_numeral)
  have n: "unat (z AND 0xF) = of_bool (bit z 0) + 2 * of_bool (bit z 1) + 4 * of_bool (bit z 2)
      + 8 * of_bool (bit z 3)"
  proof -
    have "z AND 0xF = take_bit 4 z" by (simp add: take_bit_eq_mask mask_eq_exp_minus_1)
    also have "\<dots> = horner_sum of_bool 2 (map (bit z) [0..<4])"
      by (rule horner_sum_bit_eq_take_bit [symmetric])
    also have "[0..<4] = [0, 1, 2, 3]" by (simp add: upt_rec)
    finally have "z AND 0xF = of_bool (bit z 0) + 2 * of_bool (bit z 1) + 4 * of_bool (bit z 2)
        + 8 * of_bool (bit z 3)" by simp
    then show ?thesis
      by (cases "bit z 0"; cases "bit z 1"; cases "bit z 2"; cases "bit z 3") simp_all
  qed
  have "paritysi2 a = drop_bit (unat (z AND 0xF)) 0x6996 AND 1"
    by (simp add: paritysi2_def Let_def x_def y_def z_def)
  then show ?thesis
    unfolding n o ones4 by (cases "bit z 0"; cases "bit z 1"; cases "bit z 2"; cases "bit z 3") simp_all
qed

lemma ones_cong: "(\<And>i. i < n \<Longrightarrow> bit x i = bit y i) \<Longrightarrow> ones n x = ones n y"
  by (simp add: ones_def)

lemma ones_halves:
  assumes "LENGTH('f) = 2 * LENGTH('h)"
  shows "bit_count (x :: 'f::len word) =
    bit_count (low (of_all x :: 'h::len word dwords)) + bit_count (high (of_all x :: 'h word dwords))"
proof -
  let ?n = "LENGTH('h)"
  have "bit_count x = ones ?n x + ones ?n (drop_bit ?n x)"
    by (simp add: bit_count_def assms mult_2 ones_split)
  also have "ones ?n x = bit_count (low (of_all x :: 'h word dwords))"
    by (simp add: bit_count_def ones_def bit_simps of_all_def)
  also have "ones ?n (drop_bit ?n x) = bit_count (high (of_all x :: 'h word dwords))"
    by (simp add: bit_count_def ones_def bit_simps of_all_def)
  finally show ?thesis .
qed

lemma odd_bit_count_halves:
  assumes "LENGTH('f) = 2 * LENGTH('h)"
  shows "odd (bit_count (high (of_all x :: 'h word dwords) XOR low (of_all x :: 'h::len word dwords)))
    \<longleftrightarrow> odd (bit_count (x :: 'f::len word))"
  unfolding ones_halves [OF assms] by (simp add: bit_count_def odd_ones_xor add.commute)

section \<open>Population counts\<close>

text \<open>\<open>__popcountsi2\<close>, \<open>__popcountdi2\<close> and \<open>__popcountti2\<close>.\<close>

definition popcountsi2 :: "u32 \<Rightarrow> u32" where
  "popcountsi2 a =
     (let x = a - (drop_bit 1 a AND 0x55555555);
          x = (drop_bit 2 x AND 0x33333333) + (x AND 0x33333333);
          x = (x + drop_bit 4 x) AND 0x0F0F0F0F;
          x = x + drop_bit 16 x
      in (x + drop_bit 8 x) AND 0x3F)"

definition popcountdi2 :: "u64 \<Rightarrow> u32" where
  "popcountdi2 a =
     (let x2 = a - (drop_bit 1 a AND 0x5555555555555555);
          x2 = (drop_bit 2 x2 AND 0x3333333333333333) + (x2 AND 0x3333333333333333);
          x2 = (x2 + drop_bit 4 x2) AND 0x0F0F0F0F0F0F0F0F;
          x = ucast (x2 + drop_bit 32 x2) :: u32;
          x = x + drop_bit 16 x
      in (x + drop_bit 8 x) AND 0x7F)"

definition popcountti2 :: "128 word \<Rightarrow> u32" where
  "popcountti2 a =
     (let x3 = a - (drop_bit 1 a AND (push_bit 64 0x5555555555555555 OR 0x5555555555555555));
          x3 = (drop_bit 2 x3 AND (push_bit 64 0x3333333333333333 OR 0x3333333333333333))
               + (x3 AND (push_bit 64 0x3333333333333333 OR 0x3333333333333333));
          x3 = (x3 + drop_bit 4 x3)
               AND (push_bit 64 0x0F0F0F0F0F0F0F0F OR 0x0F0F0F0F0F0F0F0F);
          x2 = ucast (x3 + drop_bit 64 x3) :: u64;
          x = ucast (x2 + drop_bit 32 x2) :: u32;
          x = x + drop_bit 16 x
      in (x + drop_bit 8 x) AND 0xFF)"

section \<open>Fields\<close>

text \<open>The number a list of digits to the base \<open>B\<close> stands for, the least digit first.\<close>

fun val :: "nat \<Rightarrow> nat list \<Rightarrow> nat" where
  "val B [] = 0"
| "val B (d # ds) = d + B * val B ds"

fun pairs :: "nat list \<Rightarrow> nat list" where
  "pairs (a # b # ds) = (a + b) # pairs ds"
| "pairs ds = ds"

fun evens :: "nat list \<Rightarrow> nat list" where
  "evens (a # b # ds) = a # evens ds"
| "evens ds = ds"

fun odds :: "nat list \<Rightarrow> nat list" where
  "odds (a # b # ds) = b # odds ds"
| "odds ds = []"

fun mask_even :: "nat \<Rightarrow> nat list \<Rightarrow> nat" where
  "mask_even B (a # b # ds) = (B - 1) + B * B * mask_even B ds"
| "mask_even B ds = 0"

lemma sum_pairs [simp]: "sum_list (pairs ds) = sum_list ds"
  by (induction ds rule: pairs.induct) simp_all

lemma length_pairs [simp]: "length (pairs ds) = (length ds + 1) div 2"
  by (induction ds rule: pairs.induct) simp_all

lemma pairs_bound: "\<forall>d\<in>set ds. d \<le> m \<Longrightarrow> \<forall>d\<in>set (pairs ds). d \<le> 2 * m"
  by (induction ds rule: pairs.induct) auto

lemma val_pairs: "val B (pairs ds) = val B (evens ds) + val B (odds ds)"
  by (induction ds rule: pairs.induct) (simp_all add: algebra_simps)

lemma val_split: "val B ds = val (B * B) (evens ds) + B * val (B * B) (odds ds)"
  by (induction ds rule: evens.induct) (simp_all add: algebra_simps)

lemma and_split:
  fixes p q P Q :: nat
  assumes "p < 2 ^ m" "q < 2 ^ m"
  shows "(p + 2 ^ m * P) AND (q + 2 ^ m * Q) = (p AND q) + 2 ^ m * (P AND Q)"
proof -
  let ?N = "(p + 2 ^ m * P) AND (q + 2 ^ m * Q)"
  have "take_bit m ?N = p AND q" "drop_bit m ?N = P AND Q"
    using assms by (simp_all only: take_bit_and drop_bit_and)
      (simp_all add: take_bit_eq_mod drop_bit_eq_div)
  then show ?thesis
    using bits_ident [of m ?N] by (simp add: push_bit_eq_mult mult.commute)
qed

lemma and_fields:
  "even (length ds) \<Longrightarrow> \<forall>d\<in>set ds. d < 2 ^ k \<Longrightarrow>
     val (2 ^ k) ds AND mask_even (2 ^ k) ds = val (2 ^ k * 2 ^ k) (evens ds)"
proof (induction ds rule: evens.induct)
  case (1 a b ds)
  have a: "a < 2 ^ k" and b: "b < 2 ^ k" using "1.prems" by simp_all
  have "a + 2 ^ k * b < 2 ^ k * (b + 1)" using a by simp
  also have "\<dots> \<le> 2 ^ k * 2 ^ k" using b by (intro mult_left_mono) simp_all
  finally have p: "a + 2 ^ k * b < 2 ^ (k + k)" by (simp add: power_add)
  have q: "(2 :: nat) ^ k - 1 < 2 ^ (k + k)"
    by (rule less_le_trans [of _ "2 ^ k"]) simp_all
  have "(a + 2 ^ k * b) AND (2 ^ k - 1) = take_bit k (a + 2 ^ k * b)"
    by (simp only: take_bit_eq_mask mask_eq_exp_minus_1)
  then have "(a + 2 ^ k * b) AND (2 ^ k - 1) = a"
    using a by (simp add: take_bit_eq_mod)
  with and_split [OF p q, of "val (2 ^ k) ds" "mask_even (2 ^ k) ds"] 1
  show ?case
    by (simp add: power_add algebra_simps)
qed simp_all

text \<open>A shift by one field.\<close>

lemma mask_even_length: "length xs = length ys \<Longrightarrow> mask_even B xs = mask_even B ys"
proof (induction xs arbitrary: ys rule: evens.induct)
  case (1 a b ds)
  then obtain c d ds' where "ys = c # d # ds'" by (cases ys; cases "tl ys") auto
  with 1 show ?case by simp
next
qed (metis Suc_length_conv length_0_conv list.distinct(1) mask_even.simps(2,3) list.exhaust)+

lemma shifted:
  assumes "even (length ds)" "\<forall>d\<in>set ds. d < B"
  shows "val B (tl ds @ [0]) = val B ds div B \<and> mask_even B (tl ds @ [0]) = mask_even B ds \<and>
    val C (evens (tl ds @ [0])) = val C (odds ds) \<and> even (length (tl ds @ [0])) = (ds \<noteq> [])"
proof (intro conjI)
  have snoc: "val B (xs @ [0]) = val B xs" for xs by (induction xs) simp_all
  show "val B (tl ds @ [0]) = val B ds div B"
    using assms(2) by (cases ds) (simp_all add: snoc)
  show "mask_even B (tl ds @ [0]) = mask_even B ds"
    by (cases ds) (simp_all add: mask_even_length)
  show "val C (evens (tl ds @ [0])) = val C (odds ds)"
    using assms(1)
  proof (induction ds rule: evens.induct)
    case (1 a b ds)
    then show ?case by (cases ds) auto
  qed simp_all
  show "even (length (tl ds @ [0])) = (ds \<noteq> [])"
    using assms(1) by (cases ds) simp_all
qed

text \<open>One parallel addition: neighbouring fields are added into fields of twice the width.\<close>

lemma add_fields:
  assumes "even (length ds)" "\<forall>d\<in>set ds. d < 2 ^ k" "ds \<noteq> []"
  shows "(val (2 ^ k) ds div 2 ^ k AND mask_even (2 ^ k) ds) + (val (2 ^ k) ds AND mask_even (2 ^ k) ds)
    = val (2 ^ k * 2 ^ k) (pairs ds)"
    and "val (2 ^ k) ds div 2 ^ k AND mask_even (2 ^ k) ds = val (2 ^ k * 2 ^ k) (odds ds)"
proof -
  note sh = shifted [OF assms(1,2)]
  have "\<forall>d\<in>set (tl ds @ [0]). d < 2 ^ k" using assms(2) by (cases ds) simp_all
  with and_fields [of "tl ds @ [0]" k] sh assms(3)
  show o: "val (2 ^ k) ds div 2 ^ k AND mask_even (2 ^ k) ds = val (2 ^ k * 2 ^ k) (odds ds)"
    by simp
  show "(val (2 ^ k) ds div 2 ^ k AND mask_even (2 ^ k) ds) + (val (2 ^ k) ds AND mask_even (2 ^ k) ds)
    = val (2 ^ k * 2 ^ k) (pairs ds)"
    unfolding o and_fields [OF assms(1,2)] val_pairs by simp
qed

text \<open>The addition before the mask, where the fields have room for their sum.\<close>

lemma val_add: "length xs = length ys \<Longrightarrow> val B (map2 (+) xs ys) = val B xs + val B ys"
  by (induction xs ys rule: list_induct2) (simp_all add: algebra_simps)

lemma val_bound: "\<forall>d\<in>set ds. d < B \<Longrightarrow> val B ds < B ^ length ds"
proof (induction ds)
  case (Cons d ds)
  then have "d + B * val B ds < B * (val B ds + 1)" by simp
  also have "\<dots> \<le> B * B ^ length ds" using Cons by (intro mult_left_mono) simp_all
  finally show ?case by simp
qed simp

lemma evens_neighbours:
  "even (length ds) \<Longrightarrow> evens (map2 (+) ds (tl ds @ [0])) = pairs ds"
proof (induction ds rule: pairs.induct)
  case (1 a b ds)
  then show ?case by (cases ds) auto
qed simp_all

lemma neighbours_bound:
  "\<forall>d\<in>set ds. 2 * d < m \<Longrightarrow> 0 < m \<Longrightarrow> \<forall>d\<in>set (map2 (+) ds (tl ds @ [0])). d < (m :: nat)"
proof
  fix d assume a: "\<forall>d\<in>set ds. 2 * d < m" "0 < m" and "d \<in> set (map2 (+) ds (tl ds @ [0]))"
  then obtain x y where "d = x + y" and z: "(x, y) \<in> set (zip ds (tl ds @ [0]))"
    by auto
  moreover have "x \<in> set ds" "y \<in> set (tl ds @ [0])"
    using z by (rule set_zip_leftD, rule set_zip_rightD)
  moreover from this have "2 * y < m"
    using a by (cases ds) auto
  ultimately show "d < m" using a(1) by fastforce
qed

lemma add_then_mask:
  assumes "even (length ds)" "\<forall>d\<in>set ds. 2 * d < 2 ^ k" "ds \<noteq> []"
  shows "(val (2 ^ k) ds + val (2 ^ k) ds div 2 ^ k) AND mask_even (2 ^ k) ds
    = val (2 ^ k * 2 ^ k) (pairs ds)"
    and "val (2 ^ k) ds + val (2 ^ k) ds div 2 ^ k < (2 ^ k) ^ length ds"
proof -
  let ?ns = "map2 (+) ds (tl ds @ [0])"
  have "\<forall>d\<in>set ds. d < 2 ^ k" using assms(2) by auto
  note sh = shifted [OF assms(1) this]
  have l: "length ?ns = length ds" using assms(3) by (cases ds) simp_all
  then have eq: "val (2 ^ k) ds + val (2 ^ k) ds div 2 ^ k = val (2 ^ k) ?ns"
    using sh assms(3) by (subst val_add) (cases ds, simp_all)
  have b: "\<forall>d\<in>set ?ns. d < 2 ^ k" using assms(2) by (rule neighbours_bound) simp
  show "(val (2 ^ k) ds + val (2 ^ k) ds div 2 ^ k) AND mask_even (2 ^ k) ds
    = val (2 ^ k * 2 ^ k) (pairs ds)"
    using and_fields [of ?ns k] b l assms(1)
    unfolding eq evens_neighbours [OF assms(1), symmetric]
    by (simp add: mask_even_length [OF l])
  show "val (2 ^ k) ds + val (2 ^ k) ds div 2 ^ k < (2 ^ k) ^ length ds"
    unfolding eq using val_bound [OF b] l by simp
qed

text \<open>The three additions that leave a count in every byte.\<close>

lemma byte_counts:
  assumes len: "length bs = 8 * n" "0 < n" and bits: "\<forall>b\<in>set bs. b \<le> 1"
  defines "V1 \<equiv> val 2 bs - (val 2 bs div 2 AND mask_even 2 bs)"
  defines "V2 \<equiv> (V1 div 4 AND mask_even 4 (pairs bs)) + (V1 AND mask_even 4 (pairs bs))"
  shows "val 2 bs div 2 AND mask_even 2 bs \<le> val 2 bs"
    "V2 < 2 ^ (8 * n)" "V2 + V2 div 16 < 2 ^ (8 * n)"
    "(V2 + V2 div 16) AND mask_even 16 (pairs (pairs bs)) = val 256 (pairs (pairs (pairs bs)))"
    "length (pairs (pairs (pairs bs))) = n" "\<forall>b\<in>set (pairs (pairs (pairs bs))). b \<le> 8"
    "sum_list (pairs (pairs (pairs bs))) = sum_list bs"
proof -
  have l: "length (pairs bs) = 4 * n" "length (pairs (pairs bs)) = 2 * n"
    by (simp_all add: len)
  show "length (pairs (pairs (pairs bs))) = n" by (simp add: len)
  have ne: "bs \<noteq> []" "pairs bs \<noteq> []" "pairs (pairs bs) \<noteq> []"
    using len l by (auto simp flip: length_0_conv)
  have b2: "\<forall>b\<in>set (pairs bs). b \<le> 2" using pairs_bound [OF bits] by simp
  have b4: "\<forall>b\<in>set (pairs (pairs bs)). b \<le> 4" using pairs_bound [OF b2] by simp
  show "\<forall>b\<in>set (pairs (pairs (pairs bs))). b \<le> 8" using pairs_bound [OF b4] by simp
  show "sum_list (pairs (pairs (pairs bs))) = sum_list bs" by simp
  have "\<forall>b\<in>set bs. b < 2 ^ 1" using bits by auto
  from add_fields(2) [OF _ this ne(1)] len
  have o: "val 2 bs div 2 AND mask_even 2 bs = val 4 (odds bs)" by simp
  show "val 2 bs div 2 AND mask_even 2 bs \<le> val 2 bs"
    using val_split [of 2 bs] unfolding o by simp
  have V1: "V1 = val 4 (pairs bs)"
    using val_split [of 2 bs] unfolding V1_def o val_pairs by simp
  have "\<forall>b\<in>set (pairs bs). b < 2 ^ 2" using b2 by auto
  from add_fields(1) [OF _ this ne(2)] l
  have V2: "V2 = val 16 (pairs (pairs bs))" by (simp add: V2_def V1)
  have "\<forall>b\<in>set (pairs (pairs bs)). 2 * b < 2 ^ 4" using b4 by auto
  note m = add_then_mask [OF _ this ne(3)]
  show "(V2 + V2 div 16) AND mask_even 16 (pairs (pairs bs)) = val 256 (pairs (pairs (pairs bs)))"
    using m(1) l by (simp add: V2)
  have "(16 :: nat) ^ (2 * n) = 2 ^ (8 * n)" by (simp add: power_mult)
  then show "V2 + V2 div 16 < 2 ^ (8 * n)" using m(2) l by (simp add: V2)
  then show "V2 < 2 ^ (8 * n)" by simp
qed

section \<open>The counts\<close>

definition bits :: "'a::len word \<Rightarrow> nat list" where
  "bits x = map (\<lambda>i. of_bool (bit x i)) [0..<LENGTH('a)]"

lemma length_bits [simp]: "length (bits (x :: 'a::len word)) = LENGTH('a)"
  by (simp add: bits_def)

lemma bits_le_1: "\<forall>b\<in>set (bits x). b \<le> 1"
  by (simp add: bits_def)

lemma sum_bits: "sum_list (bits x) = bit_count x"
  by (simp add: bits_def bit_count_def ones_def interv_sum_list_conv_sum_set_nat atLeast0LessThan)

lemma val_bits: "val 2 (bits x) = unat x"
proof -
  have h: "val 2 (map of_bool bs) = horner_sum of_bool 2 bs" for bs
    by (induction bs) simp_all
  have "val 2 (bits x) = horner_sum of_bool 2 (map (bit (unat x)) [0..<LENGTH('a)])" for x :: "'a word"
    unfolding h [symmetric] bits_def by (rule arg_cong [where f = "val 2"]) (simp add: bit_simps)
  then have "val 2 (bits x) = take_bit LENGTH('a) (unat x)" for x :: "'a word"
    unfolding horner_sum_bit_eq_take_bit .
  then show ?thesis by (simp add: take_bit_nat_eq_self unat_bound)
qed

text \<open>The first three steps as the source writes them, on a word of \<open>n\<close> bytes.\<close>

definition swar :: "'a::len word \<Rightarrow> 'a word \<Rightarrow> 'a word \<Rightarrow> 'a word \<Rightarrow> 'a word" where
  "swar m1 m2 m4 a =
     (let x = a - (drop_bit 1 a AND m1);
          x = (drop_bit 2 x AND m2) + (x AND m2)
      in (x + drop_bit 4 x) AND m4)"

lemma swar_bytes:
  fixes a :: "'a::len word"
  assumes n: "LENGTH('a) = 8 * n" "0 < n"
    and m: "unat m1 = mask_even 2 (replicate (8 * n) 0)" "unat m2 = mask_even 4 (replicate (4 * n) 0)"
      "unat m4 = mask_even 16 (replicate (2 * n) 0)"
  shows "\<exists>fs. unat (swar m1 m2 m4 a) = val 256 fs \<and> length fs = n \<and> (\<forall>b\<in>set fs. b \<le> 8)
    \<and> sum_list fs = bit_count a"
proof -
  let ?bs = "bits a"
  note c = byte_counts [of ?bs n, OF _ n(2) bits_le_1, unfolded length_bits, OF n(1)]
  have m1: "unat m1 = mask_even 2 ?bs" unfolding m by (rule mask_even_length) (simp add: n)
  have m2: "unat m2 = mask_even 4 (pairs ?bs)" unfolding m by (rule mask_even_length) (simp add: n)
  have m4: "unat m4 = mask_even 16 (pairs (pairs ?bs))"
    unfolding m by (rule mask_even_length) (simp add: n)
  define x1 where "x1 = a - (drop_bit 1 a AND m1)"
  define x2 where "x2 = (drop_bit 2 x1 AND m2) + (x1 AND m2)"
  have "unat (drop_bit 1 a AND m1) = val 2 ?bs div 2 AND mask_even 2 ?bs"
    by (simp add: unsigned_and_eq unat_drop_half m1 val_bits)
  with c(1) have u1: "unat x1 = val 2 ?bs - (val 2 ?bs div 2 AND mask_even 2 ?bs)"
    unfolding x1_def by (subst unat_sub) (simp_all add: word_le_nat_alt val_bits)
  have d2: "unat (drop_bit 2 x1) = unat x1 div 4"
    by (simp add: unat_drop_half)
  have u2: "unat x2 = (unat x1 div 4 AND mask_even 4 (pairs ?bs)) + (unat x1 AND mask_even 4 (pairs ?bs))"
    using c(2) unfolding x2_def
    by (subst unat_add_no_wrap) (simp_all add: unsigned_and_eq d2 m2 u1 n)
  have d4: "unat (drop_bit 4 x2) = unat x2 div 16"
    by (simp add: unat_drop_half)
  have "unat (x2 + drop_bit 4 x2) = unat x2 + unat x2 div 16"
    using c(3) by (subst unat_add_no_wrap) (simp_all add: d4 u2 u1 n)
  then have "unat (swar m1 m2 m4 a) = (unat x2 + unat x2 div 16) AND mask_even 16 (pairs (pairs ?bs))"
    unfolding swar_def Let_def x1_def [symmetric] x2_def [symmetric] by (simp add: unsigned_and_eq m4)
  also have "\<dots> = val 256 (pairs (pairs (pairs ?bs)))"
    using c(4) by (simp add: u1 u2)
  finally show ?thesis
    using c(5,6,7) sum_bits [of a] by metis
qed

lemma popcount_swar:
  "popcountsi2 a = (let x = swar 0x55555555 0x33333333 0x0F0F0F0F a; x = x + drop_bit 16 x
     in (x + drop_bit 8 x) AND 0x3F)"
  "popcountdi2 b = (let x2 = swar 0x5555555555555555 0x3333333333333333 0x0F0F0F0F0F0F0F0F b;
       x = ucast (x2 + drop_bit 32 x2); x = x + drop_bit 16 x
     in (x + drop_bit 8 x) AND 0x7F)"
  "popcountti2 c = (let x3 = swar (push_bit 64 0x5555555555555555 OR 0x5555555555555555)
         (push_bit 64 0x3333333333333333 OR 0x3333333333333333)
         (push_bit 64 0x0F0F0F0F0F0F0F0F OR 0x0F0F0F0F0F0F0F0F) c;
       x2 = ucast (x3 + drop_bit 64 x3) :: u64; x = ucast (x2 + drop_bit 32 x2); x = x + drop_bit 16 x
     in (x + drop_bit 8 x) AND 0xFF)"
  by (simp_all only: popcountsi2_def popcountdi2_def popcountti2_def swar_def Let_def)

lemma mask_even_closed: "0 < B \<Longrightarrow> mask_even B (replicate (2 * n) 0) * (B + 1) + 1 = B ^ (2 * n)"
proof (induction n)
  case (Suc n)
  then have "B * B * (mask_even B (replicate (2 * n) 0) * (B + 1) + 1) = B * B * B ^ (2 * n)" by simp
  then show ?case using Suc.prems by (cases B) (simp_all add: algebra_simps)
qed simp

lemma mask_even_value: "0 < B \<Longrightarrow> mask_even B (replicate (2 * n) 0) = (B ^ (2 * n) - 1) div (B + 1)"
  using mask_even_closed [of B n] by (metis add_diff_cancel_right' nonzero_mult_div_cancel_right
      add_is_0 one_neq_zero)

lemma mask_values:
  "mask_even 2 (replicate 32 0) = 0x55555555" "mask_even 4 (replicate 16 0) = 0x33333333"
  "mask_even 16 (replicate 8 0) = 0x0F0F0F0F"
  "mask_even 2 (replicate 64 0) = 0x5555555555555555"
  "mask_even 4 (replicate 32 0) = 0x3333333333333333"
  "mask_even 16 (replicate 16 0) = 0x0F0F0F0F0F0F0F0F"
  "mask_even 2 (replicate 128 0) = 0x55555555555555555555555555555555"
  "mask_even 4 (replicate 64 0) = 0x33333333333333333333333333333333"
  "mask_even 16 (replicate 32 0) = 0x0F0F0F0F0F0F0F0F0F0F0F0F0F0F0F0F"
  using mask_even_value [of 2 16] mask_even_value [of 4 8] mask_even_value [of 16 4]
    mask_even_value [of 2 32] mask_even_value [of 4 16] mask_even_value [of 16 8]
    mask_even_value [of 2 64] mask_even_value [of 4 32] mask_even_value [of 16 16]
  by simp_all

text \<open>The last additions: a word of four bytes whose sum fits in one.\<close>

lemma div_low: "p < m \<Longrightarrow> (p + m * q) div m = q" for p m q :: nat
  by simp

lemma fold_bytes:
  fixes x :: u32
  assumes x: "unat x = val 256 [a, b, c, d]" and k: "a + b + c + d < 2 ^ k" "k \<le> 8"
    and s: "a < 64" "b < 64" "c < 64" "d < 64"
  shows "unat (let y = x + drop_bit 16 x in (y + drop_bit 8 y) AND mask k) = a + b + c + d"
proof -
  define w where "w = (b + d) + 256 * (c + 256 * d)"
  have d16: "unat (drop_bit 16 x) = c + 256 * d"
    using s x div_low [of "a + 256 * b" 65536 "c + 256 * d"] by (simp add: unat_drop_half)
  define y where "y = x + drop_bit 16 x"
  have y: "unat y = (a + c) + 256 * w"
    unfolding y_def w_def using s x d16 by (subst unat_add_no_wrap) simp_all
  then have y8: "unat (drop_bit 8 y) = w"
    using s div_low [of "a + c" 256 w] by (simp add: unat_drop_half)
  have "unat (y + drop_bit 8 y) = (a + b + c + d) + 256 * (w + (c + 256 * d))"
    using s by (subst unat_add_no_wrap) (simp_all add: y y8 w_def)
  also have "\<dots> = (a + b + c + d) + 2 ^ k * (2 ^ (8 - k) * (w + (c + 256 * d)))"
    using k(2) by (simp add: mult.assoc [symmetric] flip: power_add)
  finally have "unat (y + drop_bit 8 y) mod 2 ^ k = a + b + c + d"
    using k(1) by simp
  then show ?thesis
    by (simp add: y_def Let_def unat_take_half flip: take_bit_eq_mask)
qed

lemma length_four: "length fs = 4 \<Longrightarrow> \<exists>a b c d. fs = [a, b, c, d]"
  by (auto simp: length_Suc_conv eval_nat_numeral)

lemma popcountsi2_count: "popcountsi2 a = of_nat (bit_count a)"
proof -
  let ?x = "swar 0x55555555 0x33333333 0x0F0F0F0F a"
  obtain fs where fs: "unat ?x = val 256 fs" "length fs = 4" "\<forall>b\<in>set fs. b \<le> 8"
    "sum_list fs = bit_count a"
    using swar_bytes [of 4 "0x55555555 :: u32" "0x33333333" "0x0F0F0F0F" a] by (auto simp: mask_values)
  from length_four [OF fs(2)] obtain p q r s where l: "fs = [p, q, r, s]" by blast
  have "unat (let y = ?x + drop_bit 16 ?x in (y + drop_bit 8 y) AND mask 6) = p + q + r + s"
    by (rule fold_bytes) (use fs in \<open>simp_all add: l\<close>)
  then have "unat (popcountsi2 a) = bit_count a"
    using fs(4) by (simp add: popcount_swar Let_def l mask_eq_exp_minus_1)
  then show ?thesis by (metis of_nat_unat ucast_id)
qed

text \<open>A double word folded onto its low half: the bytes are added in pairs.\<close>

lemma val_append: "val B (xs @ ys) = val B xs + B ^ length xs * val B ys"
  by (induction xs) (simp_all add: algebra_simps)

lemma fold_halves:
  fixes x :: "'f::len word"
  assumes f: "LENGTH('f) = 2 * LENGTH('h::len)" and h: "LENGTH('h) = 8 * n"
    and x: "unat x = val 256 (xs @ ys)" and l: "length xs = n" "length ys = n"
    and b: "\<forall>d\<in>set (map2 (+) xs ys). d < 256"
  shows "unat (ucast (x + drop_bit LENGTH('h) x) :: 'h word) = val 256 (map2 (+) xs ys)"
proof -
  have p: "(256 :: nat) ^ n = 2 ^ LENGTH('h)" by (simp add: h power_mult)
  have x: "unat x = val 256 xs + 2 ^ LENGTH('h) * val 256 ys"
    unfolding x val_append l p ..
  have "\<forall>d\<in>set xs. d < 256"
  proof
    fix d assume "d \<in> set xs"
    then obtain i where "i < length xs" "d = xs ! i" by (auto simp: in_set_conv_nth)
    with l b have "xs ! i + ys ! i < 256" by (auto simp: set_zip)
    with \<open>d = xs ! i\<close> show "d < 256" by simp
  qed
  from val_bound [OF this] have lo: "val 256 xs < 2 ^ LENGTH('h)" by (simp add: l p)
  have "unat (drop_bit LENGTH('h) x) = val 256 ys"
    using div_low [OF lo] by (simp add: unat_drop_half x)
  then have "unat (ucast (x + drop_bit LENGTH('h) x) :: 'h word)
      = (val 256 xs + 2 ^ LENGTH('h) * val 256 ys + val 256 ys) mod 2 ^ LENGTH('f) mod 2 ^ LENGTH('h)"
    by (simp add: unsigned_ucast_eq take_bit_eq_mod [where 'a = nat] unat_word_ariths x)
  also have "\<dots> = (val 256 xs + val 256 ys + 2 ^ LENGTH('h) * val 256 ys) mod 2 ^ LENGTH('h)"
    using f by (simp add: mod_mod_cancel le_imp_power_dvd ac_simps)
  also have "\<dots> = val 256 (map2 (+) xs ys) mod 2 ^ LENGTH('h)"
    by (simp add: val_add l)
  also have "\<dots> = val 256 (map2 (+) xs ys)"
    using val_bound [OF b] by (simp add: l p)
  finally show ?thesis .
qed

lemma length_eight:
  "length fs = 8 \<Longrightarrow> \<exists>a b c d a' b' c' d'. fs = [a, b, c, d] @ [a', b', c', d']"
proof -
  assume l: "length fs = 8"
  then have "length (take 4 fs) = 4" "length (drop 4 fs) = 4" by simp_all
  then show ?thesis using length_four by (metis append_take_drop_id)
qed

lemma popcountdi2_count: "popcountdi2 a = of_nat (bit_count a)"
proof -
  let ?m1 = "0x5555555555555555 :: u64" and ?m2 = "0x3333333333333333 :: u64"
    and ?m4 = "0x0F0F0F0F0F0F0F0F :: u64"
  define x where "x = swar ?m1 ?m2 ?m4 a"
  obtain fs where fs: "unat x = val 256 fs" "length fs = 8" "\<forall>b\<in>set fs. b \<le> 8"
    "sum_list fs = bit_count a"
    using swar_bytes [of 8 ?m1 ?m2 ?m4 a] by (auto simp: mask_values x_def)
  from length_eight [OF fs(2)] obtain p q r s p' q' r' s' where
    l: "fs = [p, q, r, s] @ [p', q', r', s']" by blast
  define y where "y = (ucast (x + drop_bit 32 x) :: u32)"
  have y: "unat y = val 256 [p + p', q + q', r + r', s + s']"
    using fold_halves [where 'h = 32 and n = 4, OF _ _ fs(1) [unfolded l]] fs(3)
    by (simp add: y_def l)
  have "unat (let z = y + drop_bit 16 y in (z + drop_bit 8 z) AND mask 7)
      = p + p' + (q + q') + (r + r') + (s + s')"
    by (rule fold_bytes [OF y]) (use fs(3) in \<open>simp_all add: l\<close>)
  then have "unat (popcountdi2 a) = bit_count a"
    using fs(4)
    unfolding popcount_swar Let_def x_def [symmetric] y_def [symmetric]
    by (simp add: l mask_eq_exp_minus_1)
  then show ?thesis by (metis of_nat_unat ucast_id)
qed

lemma popcountti2_count: "popcountti2 a = of_nat (bit_count a)"
proof -
  let ?m1 = "push_bit 64 0x5555555555555555 OR 0x5555555555555555 :: 128 word"
    and ?m2 = "push_bit 64 0x3333333333333333 OR 0x3333333333333333 :: 128 word"
    and ?m4 = "push_bit 64 0x0F0F0F0F0F0F0F0F OR 0x0F0F0F0F0F0F0F0F :: 128 word"
  define x where "x = swar ?m1 ?m2 ?m4 a"
  have "?m1 = 0x55555555555555555555555555555555" "?m2 = 0x33333333333333333333333333333333"
    "?m4 = 0x0F0F0F0F0F0F0F0F0F0F0F0F0F0F0F0F"
    by simp_all
  then obtain fs where fs: "unat x = val 256 fs" "length fs = 16" "\<forall>b\<in>set fs. b \<le> 8"
    "sum_list fs = bit_count a"
    using swar_bytes [of 16 ?m1 ?m2 ?m4 a] by (auto simp: mask_values x_def)
  have "length (take 8 fs) = 8" "length (drop 8 fs) = 8" using fs(2) by simp_all
  then obtain p q r s p' q' r' s' t u v w t' u' v' w' where
    l: "fs = [p, q, r, s, p', q', r', s'] @ [t, u, v, w, t', u', v', w']"
    using length_eight [of "take 8 fs"] length_eight [of "drop 8 fs"] append_take_drop_id [of 8 fs]
    by (metis append_Cons append_Nil)
  define y where "y = (ucast (x + drop_bit 64 x) :: u64)"
  have y: "unat y = val 256 ([p + t, q + u, r + v, s + w] @ [p' + t', q' + u', r' + v', s' + w'])"
    using fold_halves [where 'h = 64 and n = 8, OF _ _ fs(1) [unfolded l]] fs(3)
    by (simp add: y_def l)
  define z where "z = (ucast (y + drop_bit 32 y) :: u32)"
  have z: "unat z = val 256 [p + t + (p' + t'), q + u + (q' + u'), r + v + (r' + v'), s + w + (s' + w')]"
    using fold_halves [where 'h = 32 and n = 4, OF _ _ y] fs(3)
    by (simp add: z_def l)
  have "unat (let z' = z + drop_bit 16 z in (z' + drop_bit 8 z') AND mask 8)
      = p + t + (p' + t') + (q + u + (q' + u')) + (r + v + (r' + v')) + (s + w + (s' + w'))"
    by (rule fold_bytes [OF z]) (use fs(3) in \<open>simp_all add: l\<close>)
  then have "unat (popcountti2 a) = bit_count a"
    using fs(4)
    unfolding popcount_swar Let_def x_def [symmetric] y_def [symmetric] z_def [symmetric]
    by (simp add: l mask_eq_exp_minus_1)
  then show ?thesis by (metis of_nat_unat ucast_id)
qed

section \<open>Properties\<close>

text \<open>
  C22: the parity routines return the parity of the number of one bits and the population
  counts return that number, at 32, 64 and 128 bits: the folding exclusive ors lose no
  parity, and no field of the parallel additions overflows into its neighbour, up to the last
  mask that discards what the earlier steps left above the sum.
\<close>

theorem bit_counts:
  "paritysi2 a = of_bool (odd (bit_count a)) \<and> paritydi2 b = of_bool (odd (bit_count b)) \<and>
   parityti2 c = of_bool (odd (bit_count c)) \<and>
   popcountsi2 a = of_nat (bit_count a) \<and> popcountdi2 b = of_nat (bit_count b) \<and>
   popcountti2 c = of_nat (bit_count c)"
proof -
  have d: "paritydi2 b = of_bool (odd (bit_count b))" for b
    by (simp add: paritydi2_def Let_def paritysi2_odd odd_bit_count_halves [where 'h = 32])
  have "parityti2 c = of_bool (odd (bit_count c))"
    by (simp add: parityti2_def Let_def d odd_bit_count_halves [where 'h = 64])
  with d show ?thesis
    by (simp add: paritysi2_odd popcountsi2_count popcountdi2_count popcountti2_count)
qed

end
