(* ===== verification/Rand48.thy ===== *)
theory Rand48
  imports CPrelude
begin

text \<open>
  The 48-bit generators (src/core/_rand48.c and the files of its functions): a linear
  congruential generator whose state and multiplier are kept in three unsigned short integers.
\<close>

section \<open>The generator\<close>

text \<open>An \<open>unsigned short[3]\<close>, the low part first.\<close>

type_synonym short3 = "u16 \<times> u16 \<times> u16"

record rand48 =
  rand48_seed :: short3
  rand48_mult :: short3
  rand48_add :: u16

definition RAND48_SEED :: short3 where "RAND48_SEED = (0x330E, 0xABCD, 0x1234)"
definition RAND48_MULT :: short3 where "RAND48_MULT = (0xE66D, 0xDEEC, 0x0005)"
definition RAND48_ADD :: u16 where "RAND48_ADD = 0x000B"

definition rand48_start :: rand48 where
  "rand48_start = \<lparr>rand48_seed = RAND48_SEED, rand48_mult = RAND48_MULT, rand48_add = RAND48_ADD\<rparr>"

text \<open>
  The low and middle sums are of \<open>unsigned long\<close>. The last one is of products of \<open>int\<close>, which can
  exceed its range: the model wraps around, as the code relies on.
\<close>

definition dorand48 :: "rand48 \<Rightarrow> short3 \<Rightarrow> short3" where
  "dorand48 g xseed = (case rand48_mult g of (m0, m1, m2) \<Rightarrow> (case xseed of (x0, x1, x2) \<Rightarrow>
     let accu = (ucast m0 * ucast x0 + ucast (rand48_add g) :: u32);
         temp0 = ucast accu :: u16;
         accu = drop_bit 16 accu + (ucast m0 * ucast x1 + ucast m1 * ucast x0);
         temp1 = ucast accu :: u16;
         accu = drop_bit 16 accu + (ucast m0 * ucast x2 + ucast m1 * ucast x1 + ucast m2 * ucast x0)
     in (temp0, temp1, ucast accu)))"

text \<open>The result of \<open>long\<close> is 32 bits wide: the sums wrap.\<close>

definition jrand48 :: "rand48 \<Rightarrow> short3 \<Rightarrow> u32 \<times> short3" where
  "jrand48 g xseed = (case dorand48 g xseed of (x0, x1, x2) \<Rightarrow>
     (push_bit 16 (ucast x2) + ucast x1, (x0, x1, x2)))"

definition nrand48 :: "rand48 \<Rightarrow> short3 \<Rightarrow> u32 \<times> short3" where
  "nrand48 g xseed = (case dorand48 g xseed of (x0, x1, x2) \<Rightarrow>
     (push_bit 15 (ucast x2) + drop_bit 1 (ucast x1), (x0, x1, x2)))"

definition mrand48 :: "rand48 \<Rightarrow> u32 \<times> rand48" where
  "mrand48 g = (case dorand48 g (rand48_seed g) of (x0, x1, x2) \<Rightarrow>
     (push_bit 16 (ucast x2) + ucast x1, g\<lparr>rand48_seed := (x0, x1, x2)\<rparr>))"

definition lrand48 :: "rand48 \<Rightarrow> u32 \<times> rand48" where
  "lrand48 g = (case dorand48 g (rand48_seed g) of (x0, x1, x2) \<Rightarrow>
     (push_bit 15 (ucast x2) + drop_bit 1 (ucast x1), g\<lparr>rand48_seed := (x0, x1, x2)\<rparr>))"

definition srand48 :: "u32 \<Rightarrow> rand48 \<Rightarrow> rand48" where
  "srand48 seed g = \<lparr>rand48_seed = (fst RAND48_SEED, ucast seed, ucast (signed_drop_bit 16 seed)),
     rand48_mult = RAND48_MULT, rand48_add = RAND48_ADD\<rparr>"

text \<open>\<open>seed48\<close> returns the seed there was; \<open>xseed\<close> is an array of the caller.\<close>

definition seed48 :: "short3 \<Rightarrow> rand48 \<Rightarrow> short3 \<times> rand48" where
  "seed48 xseed g = (rand48_seed g,
     \<lparr>rand48_seed = xseed, rand48_mult = RAND48_MULT, rand48_add = RAND48_ADD\<rparr>)"

text \<open>
  The array returned is a static one, so a call with the array an earlier call returned stores the
  seed there is into it before it reads it: the seed stays as it is.
\<close>

definition seed48_returned :: "rand48 \<Rightarrow> short3 \<times> rand48" where
  "seed48_returned g = (let sseed = rand48_seed g; xseed = sseed in
     (sseed, \<lparr>rand48_seed = xseed, rand48_mult = RAND48_MULT, rand48_add = RAND48_ADD\<rparr>))"

section \<open>The congruence\<close>

fun value48 :: "short3 \<Rightarrow> nat" where
  "value48 (x0, x1, x2) = unat x0 + 2 ^ 16 * unat x1 + 2 ^ 32 * unat x2"

lemma short_less: "unat (a :: u16) < 2 ^ 16"
  using unsigned_less [of a] by simp

lemma short_product: "unat (a :: u16) * unat (b :: u16) \<le> 65535 * 65535"
  using short_less [of a] short_less [of b] by (intro mult_mono) simp_all

lemma value48_digits:
  fixes x :: nat
  shows "x mod 2 ^ 16 + 2 ^ 16 * ((x div 2 ^ 16) mod 2 ^ 16) + 2 ^ 32 * ((x div 2 ^ 32) mod 2 ^ 16) = x mod 2 ^ 48"
proof -
  have "x mod 2 ^ 48 = x mod (2 ^ 16 * (2 ^ 16 * 2 ^ 16))" by simp
  also have "\<dots> = x mod 2 ^ 16 + 2 ^ 16 * ((x div 2 ^ 16) mod (2 ^ 16 * 2 ^ 16))"
    by (simp only: mod_mult2_eq add.commute)
  also have "(x div 2 ^ 16) mod (2 ^ 16 * 2 ^ 16) =
      (x div 2 ^ 16) mod 2 ^ 16 + 2 ^ 16 * ((x div 2 ^ 32) mod 2 ^ 16)"
    by (subst mod_mult2_eq) (simp add: div_mult2_eq [symmetric])
  finally show ?thesis by simp
qed

lemma congruence_digits:
  fixes m0 m1 m2 x0 x1 x2 c :: nat
  defines "T \<equiv> (m0 + 2 ^ 16 * m1 + 2 ^ 32 * m2) * (x0 + 2 ^ 16 * x1 + 2 ^ 32 * x2) + c"
    and "B \<equiv> (m0 * x0 + c) div 2 ^ 16 + (m0 * x1 + m1 * x0)"
  shows "T mod 2 ^ 16 = (m0 * x0 + c) mod 2 ^ 16" "(T div 2 ^ 16) mod 2 ^ 16 = B mod 2 ^ 16"
    "(T div 2 ^ 32) mod 2 ^ 16 = (B div 2 ^ 16 + (m0 * x2 + m1 * x1 + m2 * x0)) mod 2 ^ 16"
proof -
  let ?S = "m0 * x2 + m1 * x1 + m2 * x0" and ?R = "m1 * x2 + m2 * x1 + 2 ^ 16 * (m2 * x2)"
  have T: "T = (m0 * x0 + c) + 2 ^ 16 * ((m0 * x1 + m1 * x0) + 2 ^ 16 * (?S + 2 ^ 16 * ?R))"
    unfolding T_def by (simp add: algebra_simps)
  then show "T mod 2 ^ 16 = (m0 * x0 + c) mod 2 ^ 16" by (simp only: mod_mult_self2)
  have step: "(a + 2 ^ 16 * b) div 2 ^ 16 = a div 2 ^ 16 + b" for a b :: nat by simp
  have T1: "T div 2 ^ 16 = B + 2 ^ 16 * (?S + 2 ^ 16 * ?R)"
    unfolding T B_def step by (simp only: add.assoc)
  then show "(T div 2 ^ 16) mod 2 ^ 16 = B mod 2 ^ 16" by (simp only: mod_mult_self2)
  have "T div 2 ^ 32 = T div 2 ^ 16 div 2 ^ 16" by (simp add: div_mult2_eq [symmetric])
  also have "\<dots> = B div 2 ^ 16 + ?S + 2 ^ 16 * ?R" unfolding T1 step by (simp only: add.assoc)
  finally show "(T div 2 ^ 32) mod 2 ^ 16 = (B div 2 ^ 16 + ?S) mod 2 ^ 16" by (simp only: mod_mult_self2)
qed

lemma unat_low_short: "unat (ucast (w :: u32) :: u16) = unat w mod 2 ^ 16"
  by (simp add: unsigned_ucast_eq take_bit_eq_mod)

lemma unat_high_short: "unat (drop_bit 16 (w :: u32)) = unat w div 2 ^ 16"
  by (simp add: unat_drop_bit_eq drop_bit_eq_div [where 'a = nat])

lemma unat_of_short: "unat (ucast (x :: u16) :: u32) = unat x"
  using short_less [of x] by (simp add: unsigned_ucast_eq take_bit_eq_mod)

lemma dorand48_correct:
  "value48 (dorand48 g x) =
    (value48 (rand48_mult g) * value48 x + unat (rand48_add g)) mod 2 ^ 48"
proof -
  obtain m0 m1 m2 where m: "rand48_mult g = (m0, m1, m2)" by (cases "rand48_mult g")
  obtain x0 x1 x2 where x: "x = (x0, x1, x2)" by (cases x)
  let ?c = "rand48_add g"
  define a0 :: u32 where "a0 = ucast m0 * ucast x0 + ucast ?c"
  define a1 :: u32 where "a1 = drop_bit 16 a0 + (ucast m0 * ucast x1 + ucast m1 * ucast x0)"
  define a2 :: u32 where "a2 = drop_bit 16 a1 + (ucast m0 * ucast x2 + ucast m1 * ucast x1 + ucast m2 * ucast x0)"
  have "unat m0 * unat x0 + unat ?c < 2 ^ 32"
    using short_product [of m0 x0] short_less [of ?c] by simp
  then have a0: "unat a0 = unat m0 * unat x0 + unat ?c"
    by (simp add: a0_def unat_word_ariths unat_of_short)
  let ?B = "(unat m0 * unat x0 + unat ?c) div 2 ^ 16 + (unat m0 * unat x1 + unat m1 * unat x0)"
  have a1: "unat a1 = ?B mod 2 ^ 32"
    by (simp add: a1_def unat_word_ariths unat_of_short unat_high_short a0 mod_simps)
  have a2: "unat a2 = (unat a1 div 2 ^ 16 +
      (unat m0 * unat x2 + unat m1 * unat x1 + unat m2 * unat x0)) mod 2 ^ 32"
    by (simp add: a2_def unat_word_ariths unat_of_short unat_high_short mod_simps)
  let ?T = "value48 (rand48_mult g) * value48 x + unat ?c"
  have T: "?T = (unat m0 + 2 ^ 16 * unat m1 + 2 ^ 32 * unat m2) *
      (unat x0 + 2 ^ 16 * unat x1 + 2 ^ 32 * unat x2) + unat ?c" by (simp add: m x)
  note digits = congruence_digits [where ?m0.0 = "unat m0" and ?m1.0 = "unat m1" and ?m2.0 = "unat m2"
      and ?x0.0 = "unat x0" and ?x1.0 = "unat x1" and ?x2.0 = "unat x2" and c = "unat ?c"]
  have d0: "unat a0 mod 2 ^ 16 = ?T mod 2 ^ 16" unfolding T a0 by (rule digits(1) [symmetric])
  have cancel: "n mod 2 ^ 32 mod 2 ^ 16 = n mod 2 ^ 16" for n :: nat by (rule mod_mod_cancel) simp
  have d1: "unat a1 mod 2 ^ 16 = (?T div 2 ^ 16) mod 2 ^ 16" unfolding a1 T digits(2) cancel ..
  have "n mod (2 ^ 16 * 2 ^ 16) div 2 ^ 16 mod 2 ^ 16 = n div 2 ^ 16 mod 2 ^ 16" for n :: nat
    by (simp only: mod_mult2_eq) simp
  then have high: "n mod 2 ^ 32 div 2 ^ 16 mod 2 ^ 16 = n div 2 ^ 16 mod 2 ^ 16" for n :: nat by simp
  have "unat a2 mod 2 ^ 16 = (unat a1 div 2 ^ 16 mod 2 ^ 16 +
      (unat m0 * unat x2 + unat m1 * unat x1 + unat m2 * unat x0)) mod 2 ^ 16"
    unfolding a2 cancel by (rule mod_add_left_eq [symmetric])
  also have "\<dots> = (?B div 2 ^ 16 + (unat m0 * unat x2 + unat m1 * unat x1 + unat m2 * unat x0)) mod 2 ^ 16"
    unfolding a1 high by (rule mod_add_left_eq)
  finally have "unat a2 mod 2 ^ 16 = (?B div 2 ^ 16 +
      (unat m0 * unat x2 + unat m1 * unat x1 + unat m2 * unat x0)) mod 2 ^ 16" .
  then have d2: "unat a2 mod 2 ^ 16 = (?T div 2 ^ 32) mod 2 ^ 16" unfolding T digits(3) .
  have "dorand48 g x = (ucast a0, ucast a1, ucast a2)"
    by (simp add: dorand48_def m x a0_def a1_def a2_def Let_def)
  then have "value48 (dorand48 g x) =
      unat a0 mod 2 ^ 16 + 2 ^ 16 * (unat a1 mod 2 ^ 16) + 2 ^ 32 * (unat a2 mod 2 ^ 16)"
    by (simp add: unat_low_short)
  then show ?thesis unfolding d0 d1 d2 value48_digits .
qed

lemma join_shorts:
  "unat (push_bit 16 (ucast (x2 :: u16)) + ucast (x1 :: u16) :: u32) = 2 ^ 16 * unat x2 + unat x1"
  "unat (push_bit 15 (ucast x2) + drop_bit 1 (ucast x1) :: u32) = 2 ^ 15 * unat x2 + unat x1 div 2"
proof -
  have x2: "2 ^ 16 * unat x2 \<le> 2 ^ 16 * 65535" using short_less [of x2] by simp
  have "unat (push_bit 16 (ucast x2) :: u32) = 2 ^ 16 * unat x2"
    using x2 by (simp add: unsigned_push_bit_eq push_bit_eq_mult [where 'a = nat] unat_of_short take_bit_eq_mod)
  then show "unat (push_bit 16 (ucast x2) + ucast x1 :: u32) = 2 ^ 16 * unat x2 + unat x1"
    using short_less [of x1] x2 by (simp add: unat_word_ariths unat_of_short)
  have "unat (push_bit 15 (ucast x2) :: u32) = 2 ^ 15 * unat x2"
    using x2 by (simp add: unsigned_push_bit_eq push_bit_eq_mult [where 'a = nat] unat_of_short take_bit_eq_mod)
  then show "unat (push_bit 15 (ucast x2) + drop_bit 1 (ucast x1) :: u32) = 2 ^ 15 * unat x2 + unat x1 div 2"
    using short_less [of x1] x2
    by (simp add: unat_word_ariths unat_of_short unat_drop_bit_eq drop_bit_eq_div [where 'a = nat])
qed

lemma value48_high:
  "value48 (x0, x1, x2) div 2 ^ 16 = 2 ^ 16 * unat x2 + unat x1"
  "value48 (x0, x1, x2) div 2 ^ 17 = 2 ^ 15 * unat x2 + unat x1 div 2"
proof -
  show h: "value48 (x0, x1, x2) div 2 ^ 16 = 2 ^ 16 * unat x2 + unat x1"
    using short_less [of x0] by simp
  have "value48 (x0, x1, x2) div 2 ^ 17 = value48 (x0, x1, x2) div 2 ^ 16 div 2"
    by (simp only: div_mult2_eq [symmetric]) simp
  also have "\<dots> = (unat x1 + 2 * (2 ^ 15 * unat x2)) div 2" by (simp only: h) simp
  also have "\<dots> = 2 ^ 15 * unat x2 + unat x1 div 2" by simp
  finally show "value48 (x0, x1, x2) div 2 ^ 17 = 2 ^ 15 * unat x2 + unat x1 div 2" .
qed

section \<open>Properties\<close>

text \<open>
  C34: One step of the generator, computed in three 16-bit pieces with 32-bit sums whose carries
  beyond 32 bits are dropped, is the linear congruence modulo \<open>2^48\<close> that the multiplier and the
  addend stand for; after \<open>srand48\<close> or \<open>seed48\<close> these are 0x5DEECE66D and 11, and the four routines
  return the upper 32 or 31 bits of the new state.
\<close>

theorem rand48_is_linear_congruence:
  "value48 (dorand48 g x) =
     (value48 (rand48_mult g) * value48 x + unat (rand48_add g)) mod 2 ^ 48 \<and>
   value48 (rand48_mult (srand48 s g)) = 0x5DEECE66D \<and> rand48_add (srand48 s g) = 11 \<and>
   value48 (rand48_mult (snd (seed48 x g))) = 0x5DEECE66D \<and> rand48_seed (snd (seed48 x g)) = x \<and>
   unat (fst (jrand48 g x)) = value48 (dorand48 g x) div 2 ^ 16 \<and> snd (jrand48 g x) = dorand48 g x \<and>
   unat (fst (nrand48 g x)) = value48 (dorand48 g x) div 2 ^ 17 \<and> snd (nrand48 g x) = dorand48 g x \<and>
   mrand48 g = (fst (jrand48 g (rand48_seed g)), g\<lparr>rand48_seed := dorand48 g (rand48_seed g)\<rparr>) \<and>
   lrand48 g = (fst (nrand48 g (rand48_seed g)), g\<lparr>rand48_seed := dorand48 g (rand48_seed g)\<rparr>)"
proof -
  obtain a b c where d: "dorand48 g x = (a, b, c)" by (cases "dorand48 g x")
  have "unat (fst (jrand48 g x)) = value48 (dorand48 g x) div 2 ^ 16"
    unfolding jrand48_def d prod.case fst_conv join_shorts(1) value48_high(1) ..
  moreover have "unat (fst (nrand48 g x)) = value48 (dorand48 g x) div 2 ^ 17"
    unfolding nrand48_def d prod.case fst_conv join_shorts(2) value48_high(2) ..
  moreover have "value48 RAND48_MULT = 0x5DEECE66D" by (simp add: RAND48_MULT_def)
  moreover have "snd (jrand48 g x) = dorand48 g x" "snd (nrand48 g x) = dorand48 g x"
    by (simp_all add: jrand48_def nrand48_def d)
  moreover have "mrand48 g = (fst (jrand48 g (rand48_seed g)), g\<lparr>rand48_seed := dorand48 g (rand48_seed g)\<rparr>)"
    "lrand48 g = (fst (nrand48 g (rand48_seed g)), g\<lparr>rand48_seed := dorand48 g (rand48_seed g)\<rparr>)"
    by (simp_all add: mrand48_def lrand48_def jrand48_def nrand48_def split: prod.split)
  ultimately show ?thesis
    using dorand48_correct [of g x] by (simp add: srand48_def seed48_def RAND48_ADD_def)
qed

end
