(* ===== verification/CType.thy ===== *)
theory CType
  imports CPrelude
begin

text \<open>
  Character classes and case (src/core/ctypes_non_inline.c, table.c, toupper.c, tolower_.c): the
  tables of the one locale there is and the functions that look characters up in them.
\<close>

section \<open>The tables\<close>

definition CT_A :: u32 where "CT_A = 0x00000100"
definition CT_C :: u32 where "CT_C = 0x00000200"
definition CT_D :: u32 where "CT_D = 0x00000400"
definition CT_G :: u32 where "CT_G = 0x00000800"
definition CT_L :: u32 where "CT_L = 0x00001000"
definition CT_P :: u32 where "CT_P = 0x00002000"
definition CT_S :: u32 where "CT_S = 0x00004000"
definition CT_U :: u32 where "CT_U = 0x00008000"
definition CT_X :: u32 where "CT_X = 0x00010000"
definition CT_B :: u32 where "CT_B = 0x00020000"
definition CT_R :: u32 where "CT_R = 0x00040000"

lemmas CT_defs = CT_A_def CT_C_def CT_D_def CT_G_def CT_L_def CT_P_def CT_S_def CT_U_def CT_X_def
  CT_B_def CT_R_def

text \<open>The initializer of \<open>__runetype\<close>; the elements after it are zero.\<close>

definition runetypes :: "u32 list" where
  "runetypes =
    [CT_C, CT_C, CT_C, CT_C,
     CT_C, CT_C, CT_C, CT_C,
     CT_C, CT_C OR CT_S OR CT_B, CT_C OR CT_S, CT_C OR CT_S,
     CT_C OR CT_S, CT_C OR CT_S, CT_C, CT_C,
     CT_C, CT_C, CT_C, CT_C,
     CT_C, CT_C, CT_C, CT_C,
     CT_C, CT_C, CT_C, CT_C,
     CT_C, CT_C, CT_C, CT_C,
     CT_S OR CT_B OR CT_R, CT_P OR CT_R OR CT_G, CT_P OR CT_R OR CT_G, CT_P OR CT_R OR CT_G,
     CT_P OR CT_R OR CT_G, CT_P OR CT_R OR CT_G, CT_P OR CT_R OR CT_G, CT_P OR CT_R OR CT_G,
     CT_P OR CT_R OR CT_G, CT_P OR CT_R OR CT_G, CT_P OR CT_R OR CT_G, CT_P OR CT_R OR CT_G,
     CT_P OR CT_R OR CT_G, CT_P OR CT_R OR CT_G, CT_P OR CT_R OR CT_G, CT_P OR CT_R OR CT_G,
     CT_D OR CT_R OR CT_G OR CT_X OR 0, CT_D OR CT_R OR CT_G OR CT_X OR 1, CT_D OR CT_R OR CT_G OR CT_X OR 2, CT_D OR CT_R OR CT_G OR CT_X OR 3,
     CT_D OR CT_R OR CT_G OR CT_X OR 4, CT_D OR CT_R OR CT_G OR CT_X OR 5, CT_D OR CT_R OR CT_G OR CT_X OR 6, CT_D OR CT_R OR CT_G OR CT_X OR 7,
     CT_D OR CT_R OR CT_G OR CT_X OR 8, CT_D OR CT_R OR CT_G OR CT_X OR 9, CT_P OR CT_R OR CT_G, CT_P OR CT_R OR CT_G,
     CT_P OR CT_R OR CT_G, CT_P OR CT_R OR CT_G, CT_P OR CT_R OR CT_G, CT_P OR CT_R OR CT_G,
     CT_P OR CT_R OR CT_G, CT_U OR CT_X OR CT_R OR CT_G OR CT_A OR 10, CT_U OR CT_X OR CT_R OR CT_G OR CT_A OR 11, CT_U OR CT_X OR CT_R OR CT_G OR CT_A OR 12,
     CT_U OR CT_X OR CT_R OR CT_G OR CT_A OR 13, CT_U OR CT_X OR CT_R OR CT_G OR CT_A OR 14, CT_U OR CT_X OR CT_R OR CT_G OR CT_A OR 15, CT_U OR CT_R OR CT_G OR CT_A,
     CT_U OR CT_R OR CT_G OR CT_A, CT_U OR CT_R OR CT_G OR CT_A, CT_U OR CT_R OR CT_G OR CT_A, CT_U OR CT_R OR CT_G OR CT_A,
     CT_U OR CT_R OR CT_G OR CT_A, CT_U OR CT_R OR CT_G OR CT_A, CT_U OR CT_R OR CT_G OR CT_A, CT_U OR CT_R OR CT_G OR CT_A,
     CT_U OR CT_R OR CT_G OR CT_A, CT_U OR CT_R OR CT_G OR CT_A, CT_U OR CT_R OR CT_G OR CT_A, CT_U OR CT_R OR CT_G OR CT_A,
     CT_U OR CT_R OR CT_G OR CT_A, CT_U OR CT_R OR CT_G OR CT_A, CT_U OR CT_R OR CT_G OR CT_A, CT_U OR CT_R OR CT_G OR CT_A,
     CT_U OR CT_R OR CT_G OR CT_A, CT_U OR CT_R OR CT_G OR CT_A, CT_U OR CT_R OR CT_G OR CT_A, CT_P OR CT_R OR CT_G,
     CT_P OR CT_R OR CT_G, CT_P OR CT_R OR CT_G, CT_P OR CT_R OR CT_G, CT_P OR CT_R OR CT_G,
     CT_P OR CT_R OR CT_G, CT_L OR CT_X OR CT_R OR CT_G OR CT_A OR 10, CT_L OR CT_X OR CT_R OR CT_G OR CT_A OR 11, CT_L OR CT_X OR CT_R OR CT_G OR CT_A OR 12,
     CT_L OR CT_X OR CT_R OR CT_G OR CT_A OR 13, CT_L OR CT_X OR CT_R OR CT_G OR CT_A OR 14, CT_L OR CT_X OR CT_R OR CT_G OR CT_A OR 15, CT_L OR CT_R OR CT_G OR CT_A,
     CT_L OR CT_R OR CT_G OR CT_A, CT_L OR CT_R OR CT_G OR CT_A, CT_L OR CT_R OR CT_G OR CT_A, CT_L OR CT_R OR CT_G OR CT_A,
     CT_L OR CT_R OR CT_G OR CT_A, CT_L OR CT_R OR CT_G OR CT_A, CT_L OR CT_R OR CT_G OR CT_A, CT_L OR CT_R OR CT_G OR CT_A,
     CT_L OR CT_R OR CT_G OR CT_A, CT_L OR CT_R OR CT_G OR CT_A, CT_L OR CT_R OR CT_G OR CT_A, CT_L OR CT_R OR CT_G OR CT_A,
     CT_L OR CT_R OR CT_G OR CT_A, CT_L OR CT_R OR CT_G OR CT_A, CT_L OR CT_R OR CT_G OR CT_A, CT_L OR CT_R OR CT_G OR CT_A,
     CT_L OR CT_R OR CT_G OR CT_A, CT_L OR CT_R OR CT_G OR CT_A, CT_L OR CT_R OR CT_G OR CT_A, CT_P OR CT_R OR CT_G,
     CT_P OR CT_R OR CT_G, CT_P OR CT_R OR CT_G, CT_P OR CT_R OR CT_G, CT_C]"

text \<open>\<open>_CACHED_RUNES\<close> of the system header runetype.h.\<close>

definition CACHED_RUNES :: int where "CACHED_RUNES = 256"

definition runetype_at :: "int \<Rightarrow> u32" where
  "runetype_at c = (if nat c < length runetypes then runetypes ! nat c else 0)"

text \<open>The elements 1 to 256 of the tables of the other case; the first is that of \<open>EOF\<close>.\<close>

definition toupper_tab :: "int list" where
  "toupper_tab =
    [0, 1, 2, 3, 4, 5, 6, 7, 8, 9, 10, 11, 12, 13, 14, 15,
     16, 17, 18, 19, 20, 21, 22, 23, 24, 25, 26, 27, 28, 29, 30, 31,
     32, 33, 34, 35, 36, 37, 38, 39, 40, 41, 42, 43, 44, 45, 46, 47,
     48, 49, 50, 51, 52, 53, 54, 55, 56, 57, 58, 59, 60, 61, 62, 63,
     64, 65, 66, 67, 68, 69, 70, 71, 72, 73, 74, 75, 76, 77, 78, 79,
     80, 81, 82, 83, 84, 85, 86, 87, 88, 89, 90, 91, 92, 93, 94, 95,
     96, 65, 66, 67, 68, 69, 70, 71, 72, 73, 74, 75, 76, 77, 78, 79,
     80, 81, 82, 83, 84, 85, 86, 87, 88, 89, 90, 123, 124, 125, 126, 127,
     128, 129, 130, 131, 132, 133, 134, 135, 136, 137, 138, 139, 140, 141, 142, 143,
     144, 145, 146, 147, 148, 149, 150, 151, 152, 153, 154, 155, 156, 157, 158, 159,
     160, 161, 162, 163, 164, 165, 166, 167, 168, 169, 170, 171, 172, 173, 174, 175,
     176, 177, 178, 179, 180, 181, 182, 183, 184, 185, 186, 187, 188, 189, 190, 191,
     192, 193, 194, 195, 196, 197, 198, 199, 200, 201, 202, 203, 204, 205, 206, 207,
     208, 209, 210, 211, 212, 213, 214, 215, 216, 217, 218, 219, 220, 221, 222, 223,
     224, 225, 226, 227, 228, 229, 230, 231, 232, 233, 234, 235, 236, 237, 238, 239,
     240, 241, 242, 243, 244, 245, 246, 247, 248, 249, 250, 251, 252, 253, 254, 255]"

definition tolower_tab :: "int list" where
  "tolower_tab =
    [0, 1, 2, 3, 4, 5, 6, 7, 8, 9, 10, 11, 12, 13, 14, 15,
     16, 17, 18, 19, 20, 21, 22, 23, 24, 25, 26, 27, 28, 29, 30, 31,
     32, 33, 34, 35, 36, 37, 38, 39, 40, 41, 42, 43, 44, 45, 46, 47,
     48, 49, 50, 51, 52, 53, 54, 55, 56, 57, 58, 59, 60, 61, 62, 63,
     64, 97, 98, 99, 100, 101, 102, 103, 104, 105, 106, 107, 108, 109, 110, 111,
     112, 113, 114, 115, 116, 117, 118, 119, 120, 121, 122, 91, 92, 93, 94, 95,
     96, 97, 98, 99, 100, 101, 102, 103, 104, 105, 106, 107, 108, 109, 110, 111,
     112, 113, 114, 115, 116, 117, 118, 119, 120, 121, 122, 123, 124, 125, 126, 127,
     128, 129, 130, 131, 132, 133, 134, 135, 136, 137, 138, 139, 140, 141, 142, 143,
     144, 145, 146, 147, 148, 149, 150, 151, 152, 153, 154, 155, 156, 157, 158, 159,
     160, 161, 162, 163, 164, 165, 166, 167, 168, 169, 170, 171, 172, 173, 174, 175,
     176, 177, 178, 179, 180, 181, 182, 183, 184, 185, 186, 187, 188, 189, 190, 191,
     192, 193, 194, 195, 196, 197, 198, 199, 200, 201, 202, 203, 204, 205, 206, 207,
     208, 209, 210, 211, 212, 213, 214, 215, 216, 217, 218, 219, 220, 221, 222, 223,
     224, 225, 226, 227, 228, 229, 230, 231, 232, 233, 234, 235, 236, 237, 238, 239,
     240, 241, 242, 243, 244, 245, 246, 247, 248, 249, 250, 251, 252, 253, 254, 255]"

section \<open>Looking up\<close>

text \<open>
  Runes outside the table are looked up in ranges by binary search. A range has a first and a
  last rune, one type for all of them and, if any, a list of their own types. The locale has no
  ranges.
\<close>

record rune_entry =
  re_min :: int
  re_max :: int
  re_map :: u32
  re_types :: "u32 list option"

definition runetype_ext :: "rune_entry list" where "runetype_ext = []"

fun rune_search :: "rune_entry list \<Rightarrow> int \<Rightarrow> nat \<Rightarrow> nat \<Rightarrow> u32" where
  "rune_search ranges c base lim =
     (if lim = 0 then 0
      else let re = ranges ! (base + lim div 2) in
       if re_min re \<le> c \<and> c \<le> re_max re then
         (case re_types re of Some types \<Rightarrow> types ! nat (c - re_min re) | None \<Rightarrow> re_map re)
       else if c > re_max re then rune_search ranges c (base + lim div 2 + 1) ((lim - 1) div 2)
       else rune_search ranges c base (lim div 2))"

definition runetype_l :: "int \<Rightarrow> u32" where
  "runetype_l c = (if c < 0 \<or> c = -1 then 0 else rune_search runetype_ext c 0 (length runetype_ext))"

definition runetype :: "int \<Rightarrow> u32" where "runetype c = runetype_l c"

definition maskrune :: "int \<Rightarrow> u32 \<Rightarrow> u32" where
  "maskrune c f = (if c < 0 \<or> c \<ge> CACHED_RUNES then runetype c else runetype_at c) AND f"

definition isascii :: "int \<Rightarrow> bool" where "isascii c \<longleftrightarrow> c AND NOT 0x7F = 0"

definition istype :: "int \<Rightarrow> u32 \<Rightarrow> bool" where
  "istype c f = (if isascii c then runetype_at c AND f \<noteq> 0 else maskrune c f \<noteq> 0)"

definition isctype :: "int \<Rightarrow> u32 \<Rightarrow> bool" where
  "isctype c f = (if c < 0 \<or> c \<ge> CACHED_RUNES then False else runetype_at c AND f \<noteq> 0)"

definition isalnum :: "int \<Rightarrow> bool" where "isalnum c = istype c (CT_A OR CT_D)"
definition isalpha :: "int \<Rightarrow> bool" where "isalpha c = istype c CT_A"
definition isblank :: "int \<Rightarrow> bool" where "isblank c = istype c CT_B"
definition iscntrl :: "int \<Rightarrow> bool" where "iscntrl c = istype c CT_C"
definition isdigit :: "int \<Rightarrow> bool" where "isdigit c = isctype c CT_D"
definition isgraph :: "int \<Rightarrow> bool" where "isgraph c = istype c CT_G"
definition islower :: "int \<Rightarrow> bool" where "islower c = istype c CT_L"
definition isprint :: "int \<Rightarrow> bool" where "isprint c = istype c CT_R"
definition ispunct :: "int \<Rightarrow> bool" where "ispunct c = istype c CT_P"
definition isspace :: "int \<Rightarrow> bool" where "isspace c = istype c CT_S"
definition isupper :: "int \<Rightarrow> bool" where "isupper c = istype c CT_U"
definition isxdigit :: "int \<Rightarrow> bool" where "isxdigit c = isctype c CT_X"
definition toascii :: "int \<Rightarrow> int" where "toascii c = c AND 0x7F"

definition tolower_c :: "int \<Rightarrow> int" where
  "tolower_c c = (if (word_of_int c :: u32) > 255 then c else tolower_tab ! nat c)"

definition toupper_c :: "int \<Rightarrow> int" where
  "toupper_c c = (if (word_of_int c :: u32) > 255 then c else toupper_tab ! nat c)"

definition tolower :: "int \<Rightarrow> int" where "tolower c = tolower_c c"
definition toupper :: "int \<Rightarrow> int" where "toupper c = toupper_c c"

section \<open>The classes as ranges\<close>

definition rune_class :: "nat \<Rightarrow> u32" where
  "rune_class c =
     (if c = 9 then CT_C OR CT_S OR CT_B
      else if 10 \<le> c \<and> c \<le> 13 then CT_C OR CT_S
      else if c < 32 \<or> c = 127 then CT_C
      else if c = 32 then CT_S OR CT_B OR CT_R
      else if 48 \<le> c \<and> c \<le> 57 then CT_D OR CT_R OR CT_G OR CT_X OR of_nat (c - 48)
      else if 65 \<le> c \<and> c \<le> 70 then CT_U OR CT_X OR CT_R OR CT_G OR CT_A OR of_nat (c - 55)
      else if 71 \<le> c \<and> c \<le> 90 then CT_U OR CT_R OR CT_G OR CT_A
      else if 97 \<le> c \<and> c \<le> 102 then CT_L OR CT_X OR CT_R OR CT_G OR CT_A OR of_nat (c - 87)
      else if 103 \<le> c \<and> c \<le> 122 then CT_L OR CT_R OR CT_G OR CT_A
      else CT_P OR CT_R OR CT_G)"

lemma runetypes_eq: "runetypes = map rune_class [0..<128]"
  by code_simp

lemma toupper_tab_eq: "toupper_tab = map (\<lambda>c. if 97 \<le> c \<and> c \<le> 122 then int c - 32 else int c) [0..<256]"
  by code_simp

lemma tolower_tab_eq: "tolower_tab = map (\<lambda>c. if 65 \<le> c \<and> c \<le> 90 then int c + 32 else int c) [0..<256]"
  by code_simp

lemma isascii_iff: "isascii c \<longleftrightarrow> 0 \<le> c \<and> c < 128"
proof -
  have m: "(0x7F :: int) = mask 7" by (simp add: mask_eq_exp_minus_1)
  have "c AND NOT 0x7F = 0 \<longleftrightarrow> take_bit 7 c = c"
    unfolding m by (auto simp: bit_eq_iff bit_simps)
  then show ?thesis by (simp add: isascii_def take_bit_int_eq_self_iff)
qed

text \<open>Every function looks up a class that is empty outside of ASCII.\<close>

definition in_class :: "int \<Rightarrow> u32 \<Rightarrow> bool" where
  "in_class c f \<longleftrightarrow> 0 \<le> c \<and> c < 128 \<and> rune_class (nat c) AND f \<noteq> 0"

lemma runetype_at_eq: "0 \<le> c \<Longrightarrow> runetype_at c = (if c < 128 then rune_class (nat c) else 0)"
  by (simp add: runetype_at_def runetypes_eq nat_less_iff)

lemma runetype_eq: "runetype c = 0"
  by (simp add: runetype_def runetype_l_def runetype_ext_def)

lemma istype_eq: "istype c f = in_class c f"
  by (auto simp: istype_def isascii_iff maskrune_def runetype_eq runetype_at_eq in_class_def CACHED_RUNES_def)

lemma isctype_eq: "isctype c f = in_class c f"
  proof (cases "0 \<le> c \<and> c < 256")
  case True
  then show ?thesis by (simp add: isctype_def CACHED_RUNES_def runetype_at_eq in_class_def)
qed (auto simp: isctype_def CACHED_RUNES_def in_class_def)

definition digit_range :: "int \<Rightarrow> bool" where "digit_range c \<longleftrightarrow> 48 \<le> c \<and> c \<le> 57"
definition upper_range :: "int \<Rightarrow> bool" where "upper_range c \<longleftrightarrow> 65 \<le> c \<and> c \<le> 90"
definition lower_range :: "int \<Rightarrow> bool" where "lower_range c \<longleftrightarrow> 97 \<le> c \<and> c \<le> 122"

text \<open>The ranges of the classes.\<close>

lemma rune_class_values:
  "map rune_class [0..<128] =
    [512, 512, 512, 512, 512, 512, 512, 512,
     512, 147968, 16896, 16896, 16896, 16896, 512, 512,
     512, 512, 512, 512, 512, 512, 512, 512,
     512, 512, 512, 512, 512, 512, 512, 512,
     409600, 272384, 272384, 272384, 272384, 272384, 272384, 272384,
     272384, 272384, 272384, 272384, 272384, 272384, 272384, 272384,
     330752, 330753, 330754, 330755, 330756, 330757, 330758, 330759,
     330760, 330761, 272384, 272384, 272384, 272384, 272384, 272384,
     272384, 362762, 362763, 362764, 362765, 362766, 362767, 297216,
     297216, 297216, 297216, 297216, 297216, 297216, 297216, 297216,
     297216, 297216, 297216, 297216, 297216, 297216, 297216, 297216,
     297216, 297216, 297216, 272384, 272384, 272384, 272384, 272384,
     272384, 334090, 334091, 334092, 334093, 334094, 334095, 268544,
     268544, 268544, 268544, 268544, 268544, 268544, 268544, 268544,
     268544, 268544, 268544, 268544, 268544, 268544, 268544, 268544,
     268544, 268544, 268544, 272384, 272384, 272384, 272384, 512]"
  by code_simp

lemma class_table:
  assumes "n < 128"
  shows "(rune_class n AND CT_S \<noteq> 0 \<longleftrightarrow> (int n = 32 \<or> (9 \<le> (int n) \<and> (int n) \<le> 13))) \<and>
    (rune_class n AND CT_B \<noteq> 0 \<longleftrightarrow> (int n = 32 \<or> (int n) = 9)) \<and>
    (rune_class n AND CT_C \<noteq> 0 \<longleftrightarrow> ((0 \<le> (int n) \<and> (int n) < 32) \<or> (int n) = 127)) \<and>
    (rune_class n AND CT_D \<noteq> 0 \<longleftrightarrow> (digit_range (int n))) \<and>
    (rune_class n AND CT_U \<noteq> 0 \<longleftrightarrow> (upper_range (int n))) \<and>
    (rune_class n AND CT_L \<noteq> 0 \<longleftrightarrow> (lower_range (int n))) \<and>
    (rune_class n AND CT_A \<noteq> 0 \<longleftrightarrow> (upper_range (int n) \<or> lower_range (int n))) \<and>
    (rune_class n AND (CT_A OR CT_D) \<noteq> 0 \<longleftrightarrow> (upper_range (int n) \<or> lower_range (int n) \<or> digit_range (int n))) \<and>
    (rune_class n AND CT_X \<noteq> 0 \<longleftrightarrow> (digit_range (int n) \<or> (65 \<le> (int n) \<and> (int n) \<le> 70) \<or> (97 \<le> (int n) \<and> (int n) \<le> 102))) \<and>
    (rune_class n AND CT_R \<noteq> 0 \<longleftrightarrow> (32 \<le> (int n) \<and> (int n) < 127)) \<and>
    (rune_class n AND CT_G \<noteq> 0 \<longleftrightarrow> (32 < (int n) \<and> (int n) < 127)) \<and>
    (rune_class n AND CT_P \<noteq> 0 \<longleftrightarrow> (32 < (int n) \<and> (int n) < 127 \<and> \<not> upper_range (int n) \<and> \<not> lower_range (int n) \<and> \<not> digit_range (int n)))"
proof -
  have "list_all (\<lambda>(r, c).
      (r AND CT_S \<noteq> 0 \<longleftrightarrow> (c = 32 \<or> (9 \<le> c \<and> c \<le> 13))) \<and>
      (r AND CT_B \<noteq> 0 \<longleftrightarrow> (c = 32 \<or> c = 9)) \<and>
      (r AND CT_C \<noteq> 0 \<longleftrightarrow> ((0 \<le> c \<and> c < 32) \<or> c = 127)) \<and>
      (r AND CT_D \<noteq> 0 \<longleftrightarrow> (digit_range c)) \<and>
      (r AND CT_U \<noteq> 0 \<longleftrightarrow> (upper_range c)) \<and>
      (r AND CT_L \<noteq> 0 \<longleftrightarrow> (lower_range c)) \<and>
      (r AND CT_A \<noteq> 0 \<longleftrightarrow> (upper_range c \<or> lower_range c)) \<and>
      (r AND (CT_A OR CT_D) \<noteq> 0 \<longleftrightarrow> (upper_range c \<or> lower_range c \<or> digit_range c)) \<and>
      (r AND CT_X \<noteq> 0 \<longleftrightarrow> (digit_range c \<or> (65 \<le> c \<and> c \<le> 70) \<or> (97 \<le> c \<and> c \<le> 102))) \<and>
      (r AND CT_R \<noteq> 0 \<longleftrightarrow> (32 \<le> c \<and> c < 127)) \<and>
      (r AND CT_G \<noteq> 0 \<longleftrightarrow> (32 < c \<and> c < 127)) \<and>
      (r AND CT_P \<noteq> 0 \<longleftrightarrow> (32 < c \<and> c < 127 \<and> \<not> upper_range c \<and> \<not> lower_range c \<and> \<not> digit_range c)))
      (zip (map rune_class [0..<128]) (map int [0..<128]))"
    unfolding rune_class_values by (simp add: CT_defs digit_range_def upper_range_def lower_range_def upt_rec)
  from this [unfolded list_all_length, rule_format, of n] assms show ?thesis by simp
qed

lemma classes:
  "in_class c CT_S \<longleftrightarrow> c = 32 \<or> (9 \<le> c \<and> c \<le> 13)"
  "in_class c CT_B \<longleftrightarrow> c = 32 \<or> c = 9"
  "in_class c CT_C \<longleftrightarrow> (0 \<le> c \<and> c < 32) \<or> c = 127"
  "in_class c CT_D \<longleftrightarrow> digit_range c"
  "in_class c CT_U \<longleftrightarrow> upper_range c"
  "in_class c CT_L \<longleftrightarrow> lower_range c"
  "in_class c CT_A \<longleftrightarrow> upper_range c \<or> lower_range c"
  "in_class c (CT_A OR CT_D) \<longleftrightarrow> upper_range c \<or> lower_range c \<or> digit_range c"
  "in_class c CT_X \<longleftrightarrow> digit_range c \<or> (65 \<le> c \<and> c \<le> 70) \<or> (97 \<le> c \<and> c \<le> 102)"
  "in_class c CT_R \<longleftrightarrow> 32 \<le> c \<and> c < 127"
  "in_class c CT_G \<longleftrightarrow> 32 < c \<and> c < 127"
  "in_class c CT_P \<longleftrightarrow> 32 < c \<and> c < 127 \<and> \<not> upper_range c \<and> \<not> lower_range c \<and> \<not> digit_range c"
  by (cases "0 \<le> c \<and> c < 128"; simp add: in_class_def class_table nat_less_iff digit_range_def
      upper_range_def lower_range_def; linarith)+

lemmas is_class = isalnum_def isalpha_def isblank_def iscntrl_def isdigit_def isgraph_def islower_def
  isprint_def ispunct_def isspace_def isupper_def isxdigit_def istype_eq isctype_eq classes

lemma char_ranges:
  "isspace c \<longleftrightarrow> c = 32 \<or> (9 \<le> c \<and> c \<le> 13)"
  "isdigit c \<longleftrightarrow> 48 \<le> c \<and> c \<le> 57"
  "isupper c \<longleftrightarrow> 65 \<le> c \<and> c \<le> 90"
  "islower c \<longleftrightarrow> 97 \<le> c \<and> c \<le> 122"
  "isalpha c \<longleftrightarrow> (65 \<le> c \<and> c \<le> 90) \<or> (97 \<le> c \<and> c \<le> 122)"
  "isxdigit c \<longleftrightarrow> (48 \<le> c \<and> c \<le> 57) \<or> (65 \<le> c \<and> c \<le> 70) \<or> (97 \<le> c \<and> c \<le> 102)"
  by (simp_all add: is_class digit_range_def upper_range_def lower_range_def)

lemma case_in_table:
  fixes w :: u32
  shows "(word_of_int (sint w) :: u32) > 255 \<longleftrightarrow> \<not> (0 \<le> sint w \<and> sint w < 256)"
proof -
  have w: "w > 255 \<longleftrightarrow> 255 < uint w" by (simp add: word_less_def)
  have u: "0 \<le> uint w" "uint w < 2 ^ 32"
    using unsigned_greater_eq [of w] unsigned_less [of w] by simp_all
  have shift: "sint w = (uint w + 2 ^ 31) mod 2 ^ 32 - 2 ^ 31"
    by (simp add: sint_uint signed_take_bit_eq_take_bit_shift take_bit_eq_mod)
  show ?thesis
  proof (cases "uint w < 2 ^ 31")
    case True
    with u shift have "sint w = uint w" by simp
    with u w show ?thesis by auto
  next
    case False
    have "(uint w + 2 ^ 31) mod 2 ^ 32 = ((uint w - 2 ^ 31) + 2 ^ 32) mod (2 ^ 32)"
      by (simp add: add.commute)
    also have "\<dots> = (uint w - 2 ^ 31) mod 2 ^ 32" by (rule mod_add_self2)
    also have "\<dots> = uint w - 2 ^ 31" using False u by (intro mod_pos_pos_trivial) simp_all
    finally have "sint w < 0" using shift u by simp
    moreover have "w > 255" unfolding w using False by simp
    ultimately show ?thesis by simp
  qed
qed

text \<open>
  C35: The character functions, for every \<open>int\<close>, a negative or a large one too: each class is the
  range of ASCII characters its name says, and the case functions move the letters of the other
  case by 32 and keep every other number.
\<close>

theorem character_classes:
  fixes w :: u32
  defines "c \<equiv> sint w"
  shows "(isspace c \<longleftrightarrow> c = 32 \<or> (9 \<le> c \<and> c \<le> 13)) \<and> (isblank c \<longleftrightarrow> c = 32 \<or> c = 9) \<and>
    (iscntrl c \<longleftrightarrow> (0 \<le> c \<and> c < 32) \<or> c = 127) \<and> (isprint c \<longleftrightarrow> 32 \<le> c \<and> c < 127) \<and>
    (isgraph c \<longleftrightarrow> 32 < c \<and> c < 127) \<and> (isdigit c \<longleftrightarrow> 48 \<le> c \<and> c \<le> 57) \<and>
    (isupper c \<longleftrightarrow> 65 \<le> c \<and> c \<le> 90) \<and> (islower c \<longleftrightarrow> 97 \<le> c \<and> c \<le> 122) \<and>
    isalpha c = (isupper c \<or> islower c) \<and> isalnum c = (isalpha c \<or> isdigit c) \<and>
    (isxdigit c \<longleftrightarrow> isdigit c \<or> (65 \<le> c \<and> c \<le> 70) \<or> (97 \<le> c \<and> c \<le> 102)) \<and>
    ispunct c = (isgraph c \<and> \<not> isalnum c) \<and>
    toupper c = (if islower c then c - 32 else c) \<and> tolower c = (if isupper c then c + 32 else c)"
proof -
  have case_at: "tab ! nat c = f (nat c)" if "tab = map f [0..<256]" "0 \<le> c" "c < 256"
    for tab :: "int list" and f
    using that by (simp add: nat_less_iff)
  have "toupper c = (if islower c then c - 32 else c)" "tolower c = (if isupper c then c + 32 else c)"
    unfolding toupper_def toupper_c_def tolower_def tolower_c_def case_in_table [of w, folded c_def]
    using case_at [OF toupper_tab_eq] case_at [OF tolower_tab_eq]
    by (auto simp: is_class upper_range_def lower_range_def)
  then show ?thesis
    by (auto simp: is_class digit_range_def upper_range_def lower_range_def)
qed

end
