(* ===== verification/Strtol.thy ===== *)
theory Strtol
  imports CType "HOL-Library.Signed_Division"
begin

text \<open>
  Reading numbers from strings (src/core/strtol.c, strtoul.c, strtoimax.c, strtoumax.c and the
  routines that call them). A string is the list of its bytes up to its NUL; a pointer into it
  is an offset. \<open>long\<close> has 32 bits, \<open>long long\<close> and \<open>intmax_t\<close> have 64.
\<close>

section \<open>Characters\<close>

text \<open>
  The reads that are not cast to \<open>unsigned char\<close> sign-extend, as \<open>char\<close> is signed on the target.
\<close>

definition char_at :: "u8 list \<Rightarrow> nat \<Rightarrow> u8" where
  "char_at cs s = (if s < length cs then cs ! s else 0)"

text \<open>The value of a digit in a base, \<open>None\<close> where the loop over the digits is left.\<close>

definition digit :: "int \<Rightarrow> int \<Rightarrow> int option" where
  "digit base c =
     (let d = (if isdigit c then Some (c - 48)
               else if isalpha c then Some (c - (if isupper c then 65 - 10 else 97 - 10))
               else None) in
      case d of None \<Rightarrow> None | Some c \<Rightarrow> if c \<ge> base then None else Some c)"

section \<open>White space, sign and prefix\<close>

function skip_space :: "u8 list \<Rightarrow> nat \<Rightarrow> int \<times> nat" where
  "skip_space cs s =
     (let c = uint (char_at cs s) in if isspace c then skip_space cs (Suc s) else (c, Suc s))"
  by auto
termination
  by (relation "measure (\<lambda>(cs, s). length cs - s)") (auto simp: char_at_def char_ranges split: if_splits)

declare skip_space.simps [simp del]

text \<open>
  The character after the white space, the sign and the prefix, the offset behind it, whether
  there was a minus sign, and the base.
\<close>

definition read_sign :: "u8 list \<Rightarrow> int \<times> nat \<Rightarrow> bool \<times> int \<times> nat" where
  "read_sign cs = (\<lambda>(c, s).
     if c = 45 then (True, sint (char_at cs s), Suc s)
     else if c = 43 then (False, sint (char_at cs s), Suc s)
     else (False, c, s))"

definition read_prefix :: "u8 list \<Rightarrow> int \<Rightarrow> int \<times> nat \<Rightarrow> int \<times> int \<times> nat" where
  "read_prefix cs base = (\<lambda>(c, s).
     let (base, c, s) =
       (if (base = 0 \<or> base = 16) \<and> c = 48 \<and> (char_at cs s = 120 \<or> char_at cs s = 88)
        then (16, sint (char_at cs (s + 1)), s + 2) else (base, c, s)) in
     (if base = 0 then (if c = 48 then 8 else 10) else base, c, s))"

section \<open>Signed numbers\<close>

text \<open>
  What has been accumulated: the number, \<open>any\<close>, and whether \<open>errno\<close> was set to \<open>ERANGE\<close>. A signed
  result outside the type is undefined.
\<close>

record accu =
  acc :: int
  anyd :: int
  erange :: bool

definition signed_range :: "nat \<Rightarrow> int \<Rightarrow> int res" where
  "signed_range w x = (if - (2 ^ (w - 1)) \<le> x \<and> x < 2 ^ (w - 1) then Inr x else Inl Undefined)"

abbreviation MIN_of :: "nat \<Rightarrow> int" where "MIN_of w \<equiv> - (2 ^ (w - 1))"
abbreviation MAX_of :: "nat \<Rightarrow> int" where "MAX_of w \<equiv> 2 ^ (w - 1) - 1"

definition signed_limits :: "nat \<Rightarrow> bool \<Rightarrow> int \<Rightarrow> int \<times> int" where
  "signed_limits w neg base =
     (let cutoff = (if neg then MIN_of w else MAX_of w);
          cutlim = cutoff smod base;
          cutoff = cutoff sdiv base in
      if neg then
        (let (cutlim, cutoff) = (if cutlim > 0 then (cutlim - base, cutoff + 1) else (cutlim, cutoff)) in
         (cutoff, - cutlim))
      else (cutoff, cutlim))"

definition signed_digit :: "nat \<Rightarrow> bool \<Rightarrow> int \<Rightarrow> int \<times> int \<Rightarrow> int \<Rightarrow> accu \<Rightarrow> accu res" where
  "signed_digit w neg base = (\<lambda>(cutoff, cutlim) c a.
     if anyd a < 0 then Inr a
     else if neg then
       (if acc a < cutoff \<or> (acc a = cutoff \<and> c > cutlim)
        then Inr (a\<lparr>anyd := -1, acc := MIN_of w, erange := True\<rparr>)
        else bindR (signed_range w (acc a * base)) (\<lambda>x. bindR (signed_range w (x - c)) (\<lambda>x.
          Inr (a\<lparr>anyd := 1, acc := x\<rparr>))))
     else
       (if acc a > cutoff \<or> (acc a = cutoff \<and> c > cutlim)
        then Inr (a\<lparr>anyd := -1, acc := MAX_of w, erange := True\<rparr>)
        else bindR (signed_range w (acc a * base)) (\<lambda>x. bindR (signed_range w (x + c)) (\<lambda>x.
          Inr (a\<lparr>anyd := 1, acc := x\<rparr>)))))"

section \<open>Unsigned numbers\<close>

definition unsigned_limits :: "nat \<Rightarrow> int \<Rightarrow> int \<times> int" where
  "unsigned_limits w base =
     (let b = base mod 2 ^ w in ((2 ^ w - 1) div b, (2 ^ w - 1) mod b))"

definition unsigned_digit :: "nat \<Rightarrow> int \<Rightarrow> int \<times> int \<Rightarrow> int \<Rightarrow> accu \<Rightarrow> accu res" where
  "unsigned_digit w base = (\<lambda>(cutoff, cutlim) c a.
     if anyd a < 0 then Inr a
     else if acc a > cutoff \<or> (acc a = cutoff \<and> c > cutlim)
     then Inr (a\<lparr>anyd := -1, acc := 2 ^ w - 1, erange := True\<rparr>)
     else Inr (a\<lparr>anyd := 1, acc := (acc a * (base mod 2 ^ w) mod 2 ^ w + c) mod 2 ^ w\<rparr>))"

section \<open>The loop over the digits\<close>

text \<open>\<open>c\<close> is the current character and \<open>s\<close> the offset behind it; the result is the offset at the end.\<close>

function digits_loop ::
    "(int \<Rightarrow> accu \<Rightarrow> accu res) \<Rightarrow> int \<Rightarrow> u8 list \<Rightarrow> int \<Rightarrow> nat \<Rightarrow> accu \<Rightarrow> (accu \<times> nat) res" where
  "digits_loop step base cs c s a =
     (case digit base c of
        None \<Rightarrow> Inr (a, s)
      | Some d \<Rightarrow> bindR (step d a) (\<lambda>a.
          if s < length cs then digits_loop step base cs (uint (char_at cs s)) (Suc s) a
          else Inr (a, Suc s)))"
  by auto
termination
  by (relation "measure (\<lambda>(step, base, cs, c, s, a). length cs - s)") auto

declare digits_loop.simps [simp del]

text \<open>The result: the number, the offset stored through \<open>endptr\<close>, and whether \<open>errno\<close> was set.\<close>

type_synonym number = "int \<times> nat \<times> bool"

definition finish_number :: "accu \<times> nat \<Rightarrow> number" where
  "finish_number = (\<lambda>(a, s). (acc a, if anyd a \<noteq> 0 then s - 1 else 0, erange a))"

definition no_digits :: accu where
  "no_digits = \<lparr>acc = 0, anyd = 0, erange = False\<rparr>"

definition signed_number :: "nat \<Rightarrow> u8 list \<Rightarrow> int \<Rightarrow> number res" where
  "signed_number w cs base0 =
     (case read_sign cs (skip_space cs 0) of (neg, c, s) \<Rightarrow>
      (case read_prefix cs base0 (c, s) of (base, c, s) \<Rightarrow>
        mapR finish_number
          (digits_loop (signed_digit w neg base (signed_limits w neg base)) base cs c s no_digits)))"

definition unsigned_number :: "nat \<Rightarrow> u8 list \<Rightarrow> int \<Rightarrow> number res" where
  "unsigned_number w cs base0 =
     (case read_sign cs (skip_space cs 0) of (neg, c, s) \<Rightarrow>
      (case read_prefix cs base0 (c, s) of (base, c, s) \<Rightarrow>
        mapR (\<lambda>(a, s). finish_number (if neg \<and> anyd a > 0 then a\<lparr>acc := (- acc a) mod 2 ^ w\<rparr> else a, s))
          (digits_loop (unsigned_digit w base (unsigned_limits w base)) base cs c s no_digits)))"

definition strtol :: "u8 list \<Rightarrow> int \<Rightarrow> number res" where "strtol = signed_number 32"
definition strtoimax :: "u8 list \<Rightarrow> int \<Rightarrow> number res" where "strtoimax = signed_number 64"
definition strtoll :: "u8 list \<Rightarrow> int \<Rightarrow> number res" where "strtoll = strtoimax"
definition strtoul :: "u8 list \<Rightarrow> int \<Rightarrow> number res" where "strtoul = unsigned_number 32"
definition strtoumax :: "u8 list \<Rightarrow> int \<Rightarrow> number res" where "strtoumax = unsigned_number 64"
definition strtoull :: "u8 list \<Rightarrow> int \<Rightarrow> number res" where "strtoull = strtoumax"

text \<open>The conversions to \<open>int\<close> and \<open>long\<close> keep the low 32 bits.\<close>

definition to_int32 :: "int \<Rightarrow> int" where "to_int32 x = (x + 2 ^ 31) mod 2 ^ 32 - 2 ^ 31"

definition atoi :: "u8 list \<Rightarrow> int res" where
  "atoi s = mapR (\<lambda>(v, _). to_int32 v) (strtoimax s 10)"

definition atol :: "u8 list \<Rightarrow> int res" where
  "atol s = mapR (\<lambda>(v, _). to_int32 v) (strtoimax s 10)"

section \<open>The digits of a number\<close>

fun run_steps :: "(int \<Rightarrow> accu \<Rightarrow> accu res) \<Rightarrow> int list \<Rightarrow> accu \<Rightarrow> accu res" where
  "run_steps step [] a = Inr a"
| "run_steps step (d # ds) a = bindR (step d a) (run_steps step ds)"

lemma run_steps_Nil [simp]: "run_steps step [] = Inr"
  by (rule ext) simp

definition ends_digits :: "int \<Rightarrow> u8 list \<Rightarrow> bool" where
  "ends_digits base rest \<longleftrightarrow> (case rest of [] \<Rightarrow> True | c # _ \<Rightarrow> digit base (uint c) = None)"

definition all_digits :: "int \<Rightarrow> u8 list \<Rightarrow> bool" where
  "all_digits base ds \<longleftrightarrow> (\<forall>d\<in>set ds. digit base (uint d) \<noteq> None)"

definition digit_values :: "int \<Rightarrow> u8 list \<Rightarrow> int list" where
  "digit_values base ds = map (\<lambda>d. the (digit base (uint d))) ds"

definition number_value :: "int \<Rightarrow> u8 list \<Rightarrow> int" where
  "number_value base ds = foldl (\<lambda>v d. v * base + d) 0 (digit_values base ds)"

lemma char_at_append: "char_at (xs @ ys) (length xs + n) = char_at ys n"
  by (simp add: char_at_def nth_append)

lemma char_at_Cons [simp]: "char_at (c # cs) 0 = c" "char_at (c # cs) (Suc n) = char_at cs n"
  by (simp_all add: char_at_def)

lemma digit_0 [simp]: "digit base 0 = None"
  by (simp add: digit_def char_ranges)

lemma digits_loop_run:
  assumes "all_digits base (d # ds)" "ends_digits base rest" "cs = pre @ d # ds @ rest"
  shows "digits_loop step base cs (uint d) (Suc (length pre)) a =
    mapR (\<lambda>a. (a, length pre + length (d # ds) + 1)) (run_steps step (digit_values base (d # ds)) a)"
  using assms
proof (induction ds arbitrary: d pre a)
  case Nil
  from Nil.prems(1) obtain v where v: "digit base (uint d) = Some v" by (auto simp: all_digits_def)
  show ?case
  proof (cases rest)
    case Nil
    with Nil.prems(3) v show ?thesis
      by (subst digits_loop.simps) (simp add: digit_values_def mapR_def)
  next
    case (Cons c rest')
    with Nil.prems(2) have "digit base (uint c) = None" by (simp add: ends_digits_def)
    moreover have "char_at cs (Suc (length pre)) = c"
      using char_at_append [of pre "d # rest" 1] Nil.prems(3) Cons by simp
    ultimately show ?thesis using v Nil.prems(3) Cons
      by (subst digits_loop.simps) (simp add: digit_values_def mapR_def digits_loop.simps [of _ _ _ "uint c"])
  qed
next
  case (Cons e ds)
  from Cons.prems(1) obtain v where v: "digit base (uint d) = Some v" by (auto simp: all_digits_def)
  have "char_at cs (Suc (length pre)) = e"
    using char_at_append [of pre "d # e # ds @ rest" 1] Cons.prems(3) by simp
  moreover have "digits_loop step base cs (uint e) (Suc (Suc (length pre))) a' =
      mapR (\<lambda>a. (a, length (pre @ [d]) + length (e # ds) + 1)) (run_steps step (digit_values base (e # ds)) a')" for a'
    using Cons.IH [of e "pre @ [d]" a'] Cons.prems by (simp add: all_digits_def)
  ultimately show ?case using v Cons.prems(3)
    by (subst digits_loop.simps) (simp add: digit_values_def mapR_def res_simps)
qed

lemma digit_bounds: "digit base c = Some v \<Longrightarrow> 0 \<le> v \<and> v < base \<and> 0 \<le> c \<and> c < 128"
  by (auto simp: digit_def char_ranges Let_def split: if_splits)

lemma digit_values_bounds: "all_digits base ds \<Longrightarrow> v \<in> set (digit_values base ds) \<Longrightarrow> 0 \<le> v \<and> v < base"
  by (fastforce simp: digit_values_def all_digits_def dest: digit_bounds)

section \<open>Accumulating\<close>

text \<open>What has been accumulated when the digits read so far have the value \<open>v\<close>.\<close>

definition signed_accu :: "nat \<Rightarrow> bool \<Rightarrow> int \<Rightarrow> int \<Rightarrow> accu" where
  "signed_accu w neg n v =
     (if v \<le> (if neg then 2 ^ (w - 1) else MAX_of w)
      then \<lparr>acc = (if neg then - v else v), anyd = n, erange = False\<rparr>
      else \<lparr>acc = (if neg then MIN_of w else MAX_of w), anyd = -1, erange = True\<rparr>)"

text \<open>The limit is cut into the largest prefix and the largest last digit.\<close>

lemma over_limit:
  fixes v base d q r :: int
  assumes "0 \<le> r" "r < base" "0 \<le> d" "d < base"
  shows "v > q \<or> (v = q \<and> d > r) \<longleftrightarrow> v * base + d > q * base + r"
proof -
  consider "v < q" | "v = q" | "v > q" by linarith
  then show ?thesis
  proof cases
    case 1
    then have "(v + 1) * base \<le> q * base" using assms by (intro mult_right_mono) auto
    with 1 assms show ?thesis by (simp add: algebra_simps)
  next
    case 3
    then have "(q + 1) * base \<le> v * base" using assms by (intro mult_right_mono) auto
    with 3 assms show ?thesis by (simp add: algebra_simps)
  qed simp
qed

lemma truncating_division:
  fixes x b :: int
  assumes "0 \<le> x" "0 < b"
  shows "x sdiv b = x div b" "x smod b = x mod b" "(- x) sdiv b = - (x div b)" "(- x) smod b = - (x mod b)"
proof -
  have b: "sgn b = 1" "\<bar>b\<bar> = b" and x: "\<bar>x\<bar> = x" "\<bar>- x\<bar> = x" using assms by simp_all
  have sgn: "sgn x * y = y \<and> sgn (- x) * y = - y" if "x = 0 \<Longrightarrow> y = 0" for y
    using that assms(1) by (cases "x = 0") (simp_all add: sgn_if)
  have "sgn x * (x div b) = x div b \<and> sgn (- x) * (x div b) = - (x div b)"
    "sgn x * (x mod b) = x mod b \<and> sgn (- x) * (x mod b) = - (x mod b)"
    by (rule sgn, simp)+
  then show "x sdiv b = x div b" "x smod b = x mod b" "(- x) sdiv b = - (x div b)" "(- x) smod b = - (x mod b)"
    unfolding signed_divide_int_def signed_modulo_int_def b x by simp_all
qed

lemma signed_limits_eq:
  assumes "2 \<le> base"
  obtains q r where "signed_limits w neg base = ((if neg then - q else q), r)" "0 \<le> r" "r < base"
    "q * base + r = (if neg then 2 ^ (w - 1) else MAX_of w)" "0 \<le> q"
proof -
  let ?M = "if neg then 2 ^ (w - 1) else MAX_of w"
  have M: "0 \<le> ?M" by simp
  have eq: "signed_limits w neg base = ((if neg then - (?M div base) else ?M div base), ?M mod base)"
  proof (cases neg)
    case True
    have "0 \<le> 2 ^ (w - 1) mod base" using assms by (intro pos_mod_sign) simp
    then have "\<not> 0 < - (2 ^ (w - 1) mod base)" by linarith
    with True show ?thesis
      using assms by (simp only: signed_limits_def Let_def if_True truncating_division(3,4) prod.case if_False
          minus_minus zero_le_power)
  next
    case False
    then show ?thesis
      using assms M by (simp only: signed_limits_def Let_def if_False) (simp add: truncating_division(1,2))
  qed
  have r: "0 \<le> ?M mod base" "?M mod base < base" and q: "0 \<le> ?M div base"
    using assms M by (simp_all add: pos_imp_zdiv_nonneg_iff)
  show thesis by (rule that [OF eq r div_mult_mod_eq q])
qed

lemma signed_digit_step:
  assumes "2 \<le> base" "0 \<le> d" "d < base" "0 \<le> v" "n = 0 \<or> n = 1"
  shows "signed_digit w neg base (signed_limits w neg base) d (signed_accu w neg n v) =
    Inr (signed_accu w neg 1 (v * base + d))"
proof -
  let ?M = "if neg then 2 ^ (w - 1) else MAX_of w"
  obtain q r where lim: "signed_limits w neg base = ((if neg then - q else q), r)" and r: "0 \<le> r" "r < base"
    and M: "q * base + r = ?M" by (rule signed_limits_eq [OF assms(1)])
  have grows: "v \<le> v * base + d" "0 \<le> v * base"
    using assms mult_left_mono [of 1 base v] by auto
  show ?thesis
  proof (cases "v \<le> ?M")
    case False
    with grows(1) show ?thesis unfolding lim by (simp add: signed_digit_def signed_accu_def)
  next
    case True
    have over: "v > q \<or> (v = q \<and> d > r) \<longleftrightarrow> v * base + d > ?M"
      using over_limit [OF r assms(2,3), of q v] by (simp only: M)
    have st: "signed_accu w neg n v = \<lparr>acc = (if neg then - v else v), anyd = n, erange = False\<rparr>"
      using True by (simp add: signed_accu_def)
    have n: "\<not> n < 0" using assms(5) by auto
    show ?thesis
    proof (cases "v * base + d \<le> ?M")
      case False
      with over have "v > q \<or> (v = q \<and> d > r)" by simp
      then show ?thesis unfolding st lim using False n
        by (auto simp: signed_digit_def signed_accu_def split: if_splits)
    next
      case fits: True
      with over have less: "\<not> (v > q \<or> (v = q \<and> d > r))" by simp
      show ?thesis
      proof (cases neg)
        case True
        have "signed_range w (- v * base) = Inr (- v * base)"
          "signed_range w (- v * base - d) = Inr (- v * base - d)"
          using fits True grows assms(2) by (auto simp: signed_range_def intro: order_le_less_trans [of _ 0])
        with True fits n less show ?thesis unfolding st lim
          by (auto simp: signed_digit_def signed_accu_def)
      next
        case False
        have "signed_range w (v * base) = Inr (v * base)" "signed_range w (v * base + d) = Inr (v * base + d)"
          using fits False grows assms(2)
          by (auto simp: signed_range_def intro: order_trans [of _ 0])
        with False fits n less show ?thesis unfolding st lim
          by (auto simp: signed_digit_def signed_accu_def)
      qed
    qed
  qed
qed


lemma run_signed:
  assumes "2 \<le> base" "\<forall>d\<in>set ds. 0 \<le> d \<and> d < base" "0 \<le> v" "n = 0 \<or> n = 1" "ds \<noteq> [] \<or> n = 1"
  shows "run_steps (signed_digit w neg base (signed_limits w neg base)) ds (signed_accu w neg n v) =
    Inr (signed_accu w neg 1 (foldl (\<lambda>v d. v * base + d) v ds))"
  using assms(2-)
proof (induction ds arbitrary: v n)
  case (Cons d ds)
  then have "signed_digit w neg base (signed_limits w neg base) d (signed_accu w neg n v) =
      Inr (signed_accu w neg 1 (v * base + d))"
    by (intro signed_digit_step [OF assms(1)]) auto
  moreover have "0 \<le> v * base + d" using Cons.prems(1,2) assms(1) by simp
  ultimately show ?case using Cons.IH [of "v * base + d" 1] Cons.prems(1) by simp
qed simp

text \<open>Unsigned numbers: the sign is applied at the end.\<close>

definition unsigned_accu :: "nat \<Rightarrow> int \<Rightarrow> int \<Rightarrow> accu" where
  "unsigned_accu w n v = (if v < 2 ^ w then \<lparr>acc = v, anyd = n, erange = False\<rparr>
     else \<lparr>acc = 2 ^ w - 1, anyd = -1, erange = True\<rparr>)"

lemma unsigned_digit_step:
  assumes "2 \<le> base" "base < 2 ^ w" "0 \<le> d" "d < base" "0 \<le> v" "n = 0 \<or> n = 1"
  shows "unsigned_digit w base (unsigned_limits w base) d (unsigned_accu w n v) =
    Inr (unsigned_accu w 1 (v * base + d))"
proof -
  let ?M = "2 ^ w - 1 :: int"
  have b: "base mod 2 ^ w = base" using assms(1,2) by simp
  have lim: "unsigned_limits w base = (?M div base, ?M mod base)" by (simp add: unsigned_limits_def b)
  have r: "0 \<le> ?M mod base" "?M mod base < base" using assms(1) by simp_all
  have over: "v > ?M div base \<or> (v = ?M div base \<and> d > ?M mod base) \<longleftrightarrow> v * base + d > ?M"
    using over_limit [OF r assms(3,4), of "?M div base" v] by (simp only: div_mult_mod_eq)
  have grows: "v \<le> v * base + d" "0 \<le> v * base" "v * base \<le> v * base + d"
    using assms mult_left_mono [of 1 base v] by auto
  have n: "\<not> n < 0" using assms(6) by auto
  show ?thesis
  proof (cases "v < 2 ^ w")
    case False
    with grows(1) show ?thesis by (simp add: unsigned_digit_def unsigned_accu_def lim)
  next
    case True
    show ?thesis
    proof (cases "v * base + d < 2 ^ w")
      case fits: True
      then have "\<not> (v > ?M div base \<or> (v = ?M div base \<and> d > ?M mod base))" unfolding over by simp
      moreover have "v * base mod 2 ^ w = v * base" "(v * base + d) mod 2 ^ w = v * base + d"
        using fits grows assms(3) by (auto intro!: mod_pos_pos_trivial)
      ultimately show ?thesis using True fits n
        unfolding unsigned_digit_def unsigned_accu_def lim by (simp add: b)
    next
      case False
      then have "v > ?M div base \<or> (v = ?M div base \<and> d > ?M mod base)" unfolding over by simp
      with False True n show ?thesis
        unfolding unsigned_digit_def unsigned_accu_def lim by auto
    qed
  qed
qed

lemma run_unsigned:
  assumes "2 \<le> base" "base < 2 ^ w" "\<forall>d\<in>set ds. 0 \<le> d \<and> d < base" "0 \<le> v" "n = 0 \<or> n = 1"
    "ds \<noteq> [] \<or> n = 1"
  shows "run_steps (unsigned_digit w base (unsigned_limits w base)) ds (unsigned_accu w n v) =
    Inr (unsigned_accu w 1 (foldl (\<lambda>v d. v * base + d) v ds))"
  using assms(3-)
proof (induction ds arbitrary: v n)
  case (Cons d ds)
  then have "unsigned_digit w base (unsigned_limits w base) d (unsigned_accu w n v) =
      Inr (unsigned_accu w 1 (v * base + d))"
    by (intro unsigned_digit_step [OF assms(1,2)]) auto
  moreover have "0 \<le> v * base + d" using Cons.prems(1,2) assms(1) by simp
  ultimately show ?case using Cons.IH [of "v * base + d" 1] Cons.prems(1) by simp
qed simp

section \<open>White space and sign\<close>

lemma skip_space_run:
  assumes "\<forall>c\<in>set sp. isspace (uint c)" "\<not> isspace (uint c)"
  shows "skip_space (pre @ sp @ c # t) (length pre) = (uint c, length pre + length sp + 1)"
  using assms(1)
proof (induction sp arbitrary: pre)
  case Nil
  have "char_at (pre @ c # t) (length pre) = c" using char_at_append [of pre "c # t" 0] by simp
  with assms(2) show ?case by (subst skip_space.simps) (simp add: Let_def)
next
  case (Cons b sp)
  have "char_at (pre @ b # sp @ c # t) (length pre) = b" using char_at_append [of pre "b # sp @ c # t" 0] by simp
  with Cons.prems Cons.IH [of "pre @ [b]"] show ?case by (subst skip_space.simps) (simp add: Let_def)
qed

lemma digit_char:
  assumes "digit base (uint (c :: u8)) = Some v"
  shows "\<not> isspace (uint c)" "uint c \<noteq> 45" "uint c \<noteq> 43" "sint c = uint c"
proof -
  show "\<not> isspace (uint c)" "uint c \<noteq> 45" "uint c \<noteq> 43"
    using assms by (auto simp: digit_def char_ranges Let_def split: if_splits)
  have "uint c < 128" using digit_bounds [OF assms] by simp
  moreover have "- (2 ^ 7) \<le> uint c" by (rule order_trans [OF _ unsigned_greater_eq]) simp
  ultimately have "signed_take_bit 7 (uint c) = uint c" by (intro signed_take_bit_int_eq_self) simp_all
  then show "sint c = uint c" by (simp add: sint_uint)
qed

lemma read_sign_run:
  assumes "\<forall>c\<in>set sp. isspace (uint c)" "sg \<in> {[], [43], [45]}" "digit base (uint d) = Some v"
  shows "read_sign (sp @ sg @ d # t) (skip_space (sp @ sg @ d # t) 0) =
    (sg = [45], uint d, length (sp @ sg) + 1)"
proof -
  note d = digit_char [OF assms(3)]
  consider "sg = []" | s where "sg = [s]" "s = 43 \<or> s = 45" using assms(2) by auto
  then show ?thesis
  proof cases
    case 1
    with skip_space_run [OF assms(1) d(1), of "[]" t] d show ?thesis by (simp add: read_sign_def)
  next
    case 2
    then have "\<not> isspace (uint s)" by (auto simp: char_ranges)
    from skip_space_run [OF assms(1) this, of "[]" "d # t"] 2(1)
    have "skip_space (sp @ sg @ d # t) 0 = (uint s, Suc (length sp))" by simp
    moreover have "char_at (sp @ sg @ d # t) (Suc (length sp)) = d"
      using char_at_append [of sp "s # d # t" 1] 2(1) by simp
    ultimately show ?thesis using 2 d(4) by (auto simp: read_sign_def)
  qed
qed

text \<open>The two characters of a hexadecimal prefix would be skipped.\<close>

definition no_prefix :: "int \<Rightarrow> u8 list \<Rightarrow> bool" where
  "no_prefix base cs \<longleftrightarrow> \<not> (base = 16 \<and> char_at cs 0 = 48 \<and> char_at cs 1 \<in> {88, 120})"

lemma read_prefix_run:
  assumes "2 \<le> base" "no_prefix base (d # t)"
  shows "read_prefix (pre @ d # t) base (uint d, length pre + 1) = (base, uint d, length pre + 1)"
proof -
  have "char_at (pre @ d # t) (length pre + 1) = char_at (d # t) 1" by (rule char_at_append)
  moreover have "uint d = 48 \<longleftrightarrow> d = 48" by (simp add: word_uint_eq_iff)
  ultimately show ?thesis using assms by (auto simp: read_prefix_def no_prefix_def Let_def)
qed

text \<open>Up to the digits, the signed and the unsigned routines run alike.\<close>

definition number_string :: "int \<Rightarrow> u8 list \<Rightarrow> u8 list \<Rightarrow> u8 list \<Rightarrow> u8 list \<Rightarrow> bool" where
  "number_string base sp sg ds rest \<longleftrightarrow> 2 \<le> base \<and> base \<le> 36 \<and> (\<forall>c\<in>set sp. isspace (uint c)) \<and>
     sg \<in> {[], [43], [45]} \<and> ds \<noteq> [] \<and> all_digits base ds \<and> ends_digits base rest \<and>
     no_prefix base (ds @ rest)"

lemma number_start:
  assumes "number_string base sp sg ds rest"
  obtains d :: u8 where "read_sign (sp @ sg @ ds @ rest) (skip_space (sp @ sg @ ds @ rest) 0) =
      (sg = [45], uint d, length (sp @ sg) + 1)"
    "read_prefix (sp @ sg @ ds @ rest) base (uint d, length (sp @ sg) + 1) =
      (base, uint d, length (sp @ sg) + 1)"
    "\<forall>step a. digits_loop step base (sp @ sg @ ds @ rest) (uint d) (length (sp @ sg) + 1) a =
      mapR (\<lambda>a. (a, length (sp @ sg @ ds) + 1)) (run_steps step (digit_values base ds) a)"
proof -
  have as: "2 \<le> base" "\<forall>c\<in>set sp. isspace (uint c)" "sg \<in> {[], [43], [45]}" "all_digits base ds"
    "ends_digits base rest" "no_prefix base (ds @ rest)" "ds \<noteq> []"
    using assms by (simp_all add: number_string_def)
  obtain d ds' where ds: "ds = d # ds'" using as(7) by (cases ds) auto
  from as(4) ds obtain v where v: "digit base (uint d) = Some v" by (auto simp: all_digits_def)
  show thesis
  proof (rule that [of d])
    show "read_sign (sp @ sg @ ds @ rest) (skip_space (sp @ sg @ ds @ rest) 0) =
        (sg = [45], uint d, length (sp @ sg) + 1)"
      using read_sign_run [OF as(2,3) v] by (simp add: ds)
    show "read_prefix (sp @ sg @ ds @ rest) base (uint d, length (sp @ sg) + 1) =
        (base, uint d, length (sp @ sg) + 1)"
      using read_prefix_run [OF as(1), of d "ds' @ rest" "sp @ sg"] as(6) by (simp add: ds)
    have "digits_loop step base (sp @ sg @ ds @ rest) (uint d) (length (sp @ sg) + 1) a =
        mapR (\<lambda>a. (a, length (sp @ sg @ ds) + 1)) (run_steps step (digit_values base ds) a)" for step a
      using digits_loop_run [of base d ds' rest "sp @ sg @ ds @ rest" "sp @ sg" step a] as(4,5)
      by (simp add: ds add.assoc)
    then show "\<forall>step a. digits_loop step base (sp @ sg @ ds @ rest) (uint d) (length (sp @ sg) + 1) a =
        mapR (\<lambda>a. (a, length (sp @ sg @ ds) + 1)) (run_steps step (digit_values base ds) a)" by blast
  qed
qed

lemma number_digits:
  assumes "number_string base sp sg ds rest"
  shows "2 \<le> base" "\<forall>d\<in>set (digit_values base ds). 0 \<le> d \<and> d < base" "digit_values base ds \<noteq> []"
  using assms digit_values_bounds [of base ds] by (auto simp: number_string_def digit_values_def)

lemma signed_number_run:
  assumes "number_string base sp sg ds rest" "1 \<le> w"
  shows "signed_number w (sp @ sg @ ds @ rest) base =
    Inr (finish_number (signed_accu w (sg = [45]) 1 (number_value base ds), length (sp @ sg @ ds) + 1))"
proof -
  obtain d :: u8 where start: "read_sign (sp @ sg @ ds @ rest) (skip_space (sp @ sg @ ds @ rest) 0) =
      (sg = [45], uint d, length (sp @ sg) + 1)"
    "read_prefix (sp @ sg @ ds @ rest) base (uint d, length (sp @ sg) + 1) =
      (base, uint d, length (sp @ sg) + 1)"
    and loop: "\<forall>step a. digits_loop step base (sp @ sg @ ds @ rest) (uint d) (length (sp @ sg) + 1) a =
      mapR (\<lambda>a. (a, length (sp @ sg @ ds) + 1)) (run_steps step (digit_values base ds) a)"
    by (rule number_start [OF assms(1)])
  have zero: "no_digits = signed_accu w neg 0 0" for neg by (simp add: no_digits_def signed_accu_def)
  have "run_steps (signed_digit w neg base (signed_limits w neg base)) (digit_values base ds) (signed_accu w neg 0 0) =
      Inr (signed_accu w neg 1 (number_value base ds))" for neg
    unfolding number_value_def using number_digits [OF assms(1)] by (intro run_signed) simp_all
  then show ?thesis
    unfolding signed_number_def start prod.case loop [rule_format] zero [of "sg = [45]"] by simp
qed

lemma unsigned_number_run:
  assumes "number_string base sp sg ds rest" "36 < (2 :: int) ^ w"
  shows "unsigned_number w (sp @ sg @ ds @ rest) base =
    Inr (let v = number_value base ds in
      (if v < 2 ^ w then if sg = [45] then (- v) mod 2 ^ w else v else 2 ^ w - 1,
       length (sp @ sg @ ds), \<not> v < 2 ^ w))"
proof -
  obtain d :: u8 where start: "read_sign (sp @ sg @ ds @ rest) (skip_space (sp @ sg @ ds @ rest) 0) =
      (sg = [45], uint d, length (sp @ sg) + 1)"
    "read_prefix (sp @ sg @ ds @ rest) base (uint d, length (sp @ sg) + 1) =
      (base, uint d, length (sp @ sg) + 1)"
    and loop: "\<forall>step a. digits_loop step base (sp @ sg @ ds @ rest) (uint d) (length (sp @ sg) + 1) a =
      mapR (\<lambda>a. (a, length (sp @ sg @ ds) + 1)) (run_steps step (digit_values base ds) a)"
    by (rule number_start [OF assms(1)])
  have zero: "no_digits = unsigned_accu w 0 0" by (simp add: no_digits_def unsigned_accu_def)
  have "base < 2 ^ w" using assms by (simp add: number_string_def)
  then have "run_steps (unsigned_digit w base (unsigned_limits w base)) (digit_values base ds) (unsigned_accu w 0 0) =
      Inr (unsigned_accu w 1 (number_value base ds))"
    unfolding number_value_def using number_digits [OF assms(1)] by (intro run_unsigned) simp_all
  then show ?thesis
    unfolding unsigned_number_def start prod.case loop [rule_format] zero
    by (simp add: unsigned_accu_def finish_number_def Let_def)
qed

section \<open>Properties\<close>

text \<open>
  C36: Reading a number in a base from 2 to 36: white space, at most one sign, digits, and then
  something that is no digit. The signed routines return the value of the digits with the sign,
  or the nearest number of the type, never overflowing on the way; the unsigned ones the value,
  negated modulo the range after a minus sign, or the greatest number. \<open>errno\<close> is set exactly
  where the value is out of range, and the end pointer points behind the digits.
\<close>

theorem numbers_are_read:
  assumes "number_string base sp sg ds rest"
  defines "cs \<equiv> sp @ sg @ ds @ rest" and "v \<equiv> number_value base ds" and "e \<equiv> length (sp @ sg @ ds)"
    and "x \<equiv> (if sg = [45] then - number_value base ds else number_value base ds)"
  shows "strtol cs base = Inr (max (- (2 ^ 31)) (min (2 ^ 31 - 1) x), e, x < - (2 ^ 31) \<or> x > 2 ^ 31 - 1) \<and>
    strtoll cs base = Inr (max (- (2 ^ 63)) (min (2 ^ 63 - 1) x), e, x < - (2 ^ 63) \<or> x > 2 ^ 63 - 1) \<and>
    strtoul cs base = Inr (if v < 2 ^ 32 then x mod 2 ^ 32 else 2 ^ 32 - 1, e, v \<ge> 2 ^ 32) \<and>
    strtoull cs base = Inr (if v < 2 ^ 64 then x mod 2 ^ 64 else 2 ^ 64 - 1, e, v \<ge> 2 ^ 64)"
proof -
  have v: "0 \<le> v"
  proof -
    have "0 \<le> foldl (\<lambda>v d. v * base + d) n ds" if "0 \<le> n" "\<forall>d\<in>set ds. 0 \<le> d" for n ds
      using that number_digits(1) [OF assms(1)] by (induction ds arbitrary: n) auto
    then show ?thesis using number_digits(2) [OF assms(1)] by (simp add: v_def number_value_def)
  qed
  have signed: "signed_number w cs base = Inr (max (- (2 ^ (w - 1))) (min (2 ^ (w - 1) - 1) x), e,
      x < - (2 ^ (w - 1)) \<or> x > 2 ^ (w - 1) - 1)" if "1 \<le> w" for w
  proof -
    define M :: int where "M = 2 ^ (w - 1)"
    have M: "1 \<le> M" by (simp add: M_def)
    show ?thesis
      using v unfolding cs_def signed_number_run [OF assms(1) that] finish_number_def signed_accu_def
        e_def x_def v_def M_def [symmetric]
      by (insert M, cases "sg = [45]") (auto simp: min_def max_def)
  qed
  have unsigned: "unsigned_number w cs base =
      Inr (if v < 2 ^ w then x mod 2 ^ w else 2 ^ w - 1, e, v \<ge> 2 ^ w)" if "36 < (2 :: int) ^ w" for w
    unfolding cs_def unsigned_number_run [OF assms(1) that] using v
    by (auto simp: e_def x_def v_def Let_def)
  show ?thesis
    using signed [of 32] signed [of 64] unsigned [of 32] unsigned [of 64]
    by (simp add: strtol_def strtoll_def strtoimax_def strtoul_def strtoull_def strtoumax_def)
qed

lemma numbers_are_read_witness:
  "strtol [32, 45, 52, 50, 32] 10 = Inr (- 42, 4, False) \<and> strtoul [32, 45, 52, 50, 32] 10 = Inr (2 ^ 32 - 42, 4, False)"
proof -
  have "number_string 10 [32] [45] [52, 50] [32]"
    by (simp add: number_string_def char_ranges all_digits_def ends_digits_def no_prefix_def digit_def
        char_ranges)
  moreover have "number_value 10 [52, 50] = 42"
    by (simp add: number_value_def digit_values_def digit_def char_ranges)
  ultimately show ?thesis using numbers_are_read [of 10 "[32]" "[45]" "[52, 50]" "[32]"] by simp
qed

end
