(* ===== verification/Uuid.thy ===== *)
theory Uuid
  imports Strtol
begin

text \<open>
  Universally unique identifiers (src/core/pack.c, unpack.c, parse.c, unparse.c, compare.c,
  copy.c, clear.c, isnull.c, gen_uuid.c and uuidP.h). A \<open>uuid_t\<close> is the list of its 16 bytes.
\<close>

section \<open>Packing\<close>

record uuid =
  time_low :: u32
  time_mid :: u16
  time_hi_and_version :: u16
  clock_seq :: u16
  node :: "u8 list"

definition uuid_pack :: "uuid \<Rightarrow> u8 list" where
  "uuid_pack uu =
     (let tmp = time_low uu; out3 = ucast tmp; tmp = drop_bit 8 tmp; out2 = ucast tmp;
          tmp = drop_bit 8 tmp; out1 = ucast tmp; tmp = drop_bit 8 tmp; out0 = ucast tmp;
          tmp = (ucast (time_mid uu) :: u32); out5 = ucast tmp; tmp = drop_bit 8 tmp; out4 = ucast tmp;
          tmp = (ucast (time_hi_and_version uu) :: u32); out7 = ucast tmp; tmp = drop_bit 8 tmp; out6 = ucast tmp;
          tmp = (ucast (clock_seq uu) :: u32); out9 = ucast tmp; tmp = drop_bit 8 tmp; out8 = ucast tmp
      in [out0, out1, out2, out3, out4, out5, out6, out7, out8, out9] @ take 6 (node uu))"

definition append_byte :: "u32 \<Rightarrow> u8 \<Rightarrow> u32" where
  "append_byte tmp b = push_bit 8 tmp OR ucast b"

definition uuid_unpack :: "u8 list \<Rightarrow> uuid" where
  "uuid_unpack ptr =
     \<lparr>time_low = append_byte (append_byte (append_byte (ucast (ptr ! 0)) (ptr ! 1)) (ptr ! 2)) (ptr ! 3),
      time_mid = ucast (append_byte (ucast (ptr ! 4)) (ptr ! 5)),
      time_hi_and_version = ucast (append_byte (ucast (ptr ! 6)) (ptr ! 7)),
      clock_seq = ucast (append_byte (ucast (ptr ! 8)) (ptr ! 9)),
      node = take 6 (drop 10 ptr)\<rparr>"

section \<open>Comparing, copying, clearing\<close>

text \<open>
  \<open>memcmp\<close> of the two nodes, which are not word aligned: the loop over the bytes, which returns the
  difference of the first ones that differ.
\<close>

fun memcmp :: "u8 list \<Rightarrow> u8 list \<Rightarrow> int" where
  "memcmp (a # as) (b # bs) = (if a \<noteq> b then uint a - uint b else memcmp as bs)"
| "memcmp _ _ = 0"

definition uucmp :: "'a::linorder \<Rightarrow> 'a \<Rightarrow> int \<Rightarrow> int" where
  "uucmp u1 u2 r = (if u1 \<noteq> u2 then (if u1 < u2 then -1 else 1) else r)"

definition uuid_compare :: "u8 list \<Rightarrow> u8 list \<Rightarrow> int" where
  "uuid_compare uu1 uu2 =
     (let uuid1 = uuid_unpack uu1; uuid2 = uuid_unpack uu2 in
      uucmp (time_low uuid1) (time_low uuid2)
     (uucmp (time_mid uuid1) (time_mid uuid2)
     (uucmp (time_hi_and_version uuid1) (time_hi_and_version uuid2)
     (uucmp (clock_seq uuid1) (clock_seq uuid2)
     (memcmp (node uuid1) (node uuid2))))))"

primrec copy_bytes :: "nat \<Rightarrow> u8 list \<Rightarrow> u8 list \<Rightarrow> u8 list" where
  "copy_bytes 0 dst src = dst"
| "copy_bytes (Suc n) dst src = (copy_bytes n dst src)[n := src ! n]"

definition uuid_copy :: "u8 list \<Rightarrow> u8 list \<Rightarrow> u8 list" where
  "uuid_copy dst src = copy_bytes 16 dst src"

definition uuid_clear :: "u8 list \<Rightarrow> u8 list" where
  "uuid_clear uu = replicate 16 0 @ drop 16 uu"

definition uuid_is_null :: "u8 list \<Rightarrow> bool" where
  "uuid_is_null uu = list_all (\<lambda>i. uu ! i = 0) [0..<16]"

section \<open>Printing\<close>

text \<open>The conversions \<open>x\<close> and \<open>X\<close> of \<open>printf\<close>, with zeros up to a least width.\<close>

definition hex_char :: "bool \<Rightarrow> nat \<Rightarrow> u8" where
  "hex_char upper d = (if d < 10 then of_nat (48 + d) else of_nat ((if upper then 65 else 97) + (d - 10)))"

fun hex_string :: "bool \<Rightarrow> nat \<Rightarrow> u8 list" where
  "hex_string upper n = (if n < 16 then [hex_char upper n]
     else hex_string upper (n div 16) @ [hex_char upper (n mod 16)])"

declare hex_string.simps [simp del]

definition hex_padded :: "bool \<Rightarrow> nat \<Rightarrow> nat \<Rightarrow> u8 list" where
  "hex_padded upper w n = (let s = hex_string upper n in replicate (w - length s) 48 @ s)"

text \<open>The format is \<open>%08x-%04x-%04x-%02x%02x-%02x%02x%02x%02x%02x%02x\<close>, or with \<open>X\<close>.\<close>

definition uuid_unparse_x :: "u8 list \<Rightarrow> bool \<Rightarrow> u8 list" where
  "uuid_unparse_x uu upper =
     (let uuid = uuid_unpack uu in
      hex_padded upper 8 (unat (time_low uuid)) @ [45] @
      hex_padded upper 4 (unat (time_mid uuid)) @ [45] @
      hex_padded upper 4 (unat (time_hi_and_version uuid)) @ [45] @
      hex_padded upper 2 (unat (drop_bit 8 (clock_seq uuid))) @
      hex_padded upper 2 (unat (clock_seq uuid AND 0xFF)) @ [45] @
      hex_padded upper 2 (unat (node uuid ! 0)) @ hex_padded upper 2 (unat (node uuid ! 1)) @
      hex_padded upper 2 (unat (node uuid ! 2)) @ hex_padded upper 2 (unat (node uuid ! 3)) @
      hex_padded upper 2 (unat (node uuid ! 4)) @ hex_padded upper 2 (unat (node uuid ! 5)))"

definition uuid_unparse_lower :: "u8 list \<Rightarrow> u8 list" where
  "uuid_unparse_lower uu = uuid_unparse_x uu False"

definition uuid_unparse_upper :: "u8 list \<Rightarrow> u8 list" where
  "uuid_unparse_upper uu = uuid_unparse_x uu True"

definition uuid_unparse :: "u8 list \<Rightarrow> u8 list" where
  "uuid_unparse uu = uuid_unparse_x uu False"

section \<open>Parsing\<close>

text \<open>The loop over the 37 characters, the NUL among them.\<close>

definition uuid_char_ok :: "u8 list \<Rightarrow> nat \<Rightarrow> bool" where
  "uuid_char_ok str i =
     (let c = char_at str i in
      if i = 8 \<or> i = 13 \<or> i = 18 \<or> i = 23 then c = 45
      else if i = 36 \<and> c = 0 then True
      else isxdigit (sint c))"

text \<open>The number \<open>strtoul\<close> reads; \<open>Inl\<close> never happens for an unsigned number.\<close>

definition strtoul_16 :: "u8 list \<Rightarrow> int" where
  "strtoul_16 s = (case strtoul s 16 of Inr (v, _) \<Rightarrow> v | Inl _ \<Rightarrow> 0)"

definition uuid_parse :: "u8 list \<Rightarrow> u8 list option" where
  "uuid_parse str =
     (if length str \<noteq> 36 then None
      else if \<not> list_all (uuid_char_ok str) [0..<37] then None
      else Some (uuid_pack
       \<lparr>time_low = word_of_int (strtoul_16 str),
        time_mid = word_of_int (strtoul_16 (drop 9 str)),
        time_hi_and_version = word_of_int (strtoul_16 (drop 14 str)),
        clock_seq = word_of_int (strtoul_16 (drop 19 str)),
        node = map (\<lambda>i. word_of_int (strtoul_16 [str ! (24 + 2 * i), str ! (25 + 2 * i)])) [0..<6]\<rparr>))"

section \<open>Packing and unpacking\<close>

lemma uuid_fields:
  "\<lparr>time_low = time_low u, time_mid = time_mid u, time_hi_and_version = time_hi_and_version u,
    clock_seq = clock_seq u, node = node u\<rparr> = u"
  by (cases u) simp

lemma list_16: "length bs = 16 \<Longrightarrow>
    bs = [bs ! 0, bs ! 1, bs ! 2, bs ! 3, bs ! 4, bs ! 5, bs ! 6, bs ! 7, bs ! 8, bs ! 9, bs ! 10, bs ! 11,
      bs ! 12, bs ! 13, bs ! 14, bs ! 15]"
  using map_nth [of bs] by (simp add: upt_rec numeral_eq_Suc)

lemma join4:
  fixes a b c d :: u8
  defines "w \<equiv> append_byte (append_byte (append_byte (ucast a) b) c) d"
  shows "(ucast w :: u8) = d" "(ucast (drop_bit 8 w) :: u8) = c"
    "(ucast (drop_bit 16 w) :: u8) = b" "(ucast (drop_bit 24 w) :: u8) = a"
  by (rule bit_word_eqI; auto simp: w_def append_byte_def bit_simps dest: bit_imp_le_length)+

lemma join2:
  fixes a b :: u8
  defines "w \<equiv> (ucast (append_byte (ucast a) b) :: u16)"
  shows "(ucast (ucast w :: u32) :: u8) = b" "(ucast (drop_bit 8 (ucast w :: u32)) :: u8) = a"
  by (rule bit_word_eqI; auto simp: w_def append_byte_def bit_simps dest: bit_imp_le_length)+

lemma split4:
  fixes w :: u32
  shows "append_byte (append_byte (append_byte (ucast (ucast (drop_bit 24 w) :: u8))
    (ucast (drop_bit 16 w))) (ucast (drop_bit 8 w))) (ucast w) = w"
proof (rule bit_word_eqI)
  fix n
  assume "n < LENGTH(32)"
  then consider "n < 8" | k where "n = 8 + k" "k < 8" | k where "n = 16 + k" "k < 8" | k where "n = 24 + k" "k < 8"
    by (cases "n < 8"; cases "n < 16"; cases "n < 24")
      (auto intro: that(2) [of "n - 8"] that(3) [of "n - 16"] that(4) [of "n - 24"])
  then show "bit (append_byte (append_byte (append_byte (ucast (ucast (drop_bit 24 w) :: u8))
      (ucast (drop_bit 16 w))) (ucast (drop_bit 8 w))) (ucast w)) n = bit w n"
    by cases (simp_all add: append_byte_def bit_simps)
qed

lemma split2:
  fixes w :: u16
  shows "(ucast (append_byte (ucast (ucast (drop_bit 8 (ucast w :: u32)) :: u8)) (ucast (ucast w :: u32))) :: u16) = w"
  by (rule bit_word_eqI) (auto simp: append_byte_def bit_simps)

lemma node_16:
  assumes "length bs = 16"
  shows "take 6 (drop 10 bs) = [bs ! 10, bs ! 11, bs ! 12, bs ! 13, bs ! 14, bs ! 15]"
  by (subst list_16 [OF assms]) simp

lemma pack_unpack:
  assumes "length bs = 16"
  shows "uuid_pack (uuid_unpack bs) = bs"
proof -
  have "uuid_pack (uuid_unpack bs) = [bs ! 0, bs ! 1, bs ! 2, bs ! 3, bs ! 4, bs ! 5, bs ! 6, bs ! 7,
      bs ! 8, bs ! 9, bs ! 10, bs ! 11, bs ! 12, bs ! 13, bs ! 14, bs ! 15]"
    by (simp add: uuid_pack_def uuid_unpack_def Let_def join4 join2 node_16 [OF assms])
  with list_16 [OF assms] show ?thesis by simp
qed

lemma unpack_pack: "length (node u) = 6 \<Longrightarrow> uuid_unpack (uuid_pack u) = u"
  by (cases u) (simp add: uuid_pack_def uuid_unpack_def Let_def split4 split2)

section \<open>Hexadecimal numbers\<close>

lemma hex_char_digit:
  assumes "d < 16"
  shows "digit 16 (uint (hex_char upper d)) = Some (int d)" "isxdigit (sint (hex_char upper d))"
    "hex_char upper d \<notin> {0, 88, 120}"
proof -
  have "\<forall>d\<in>set [0..<16]. digit 16 (uint (hex_char upper d)) = Some (int d) \<and>
      isxdigit (sint (hex_char upper d)) \<and> hex_char upper d \<notin> {0, 88, 120}"
    by (cases upper) (simp_all add: upt_rec hex_char_def digit_def char_ranges)
  with assms show "digit 16 (uint (hex_char upper d)) = Some (int d)" "isxdigit (sint (hex_char upper d))"
    "hex_char upper d \<notin> {0, 88, 120}"
    by auto
qed

lemma number_value_append:
  "number_value base (ds @ es) = number_value base ds * base ^ length es + number_value base es"
proof -
  have "foldl (\<lambda>v d. v * base + d) v xs = v * base ^ length xs + foldl (\<lambda>v d. v * base + d) 0 xs" for v xs
    by (induction xs rule: rev_induct) (simp_all add: algebra_simps)
  from this [of "foldl (\<lambda>v d. v * base + d) 0 (digit_values base ds)" "digit_values base es"]
  show ?thesis by (simp add: number_value_def digit_values_def)
qed

lemma number_value_simps [simp]:
  "number_value base [] = 0" "number_value base [d] = the (digit base (uint d))"
  by (simp_all add: number_value_def digit_values_def)

definition hex_number :: "nat \<Rightarrow> nat \<Rightarrow> u8 list \<Rightarrow> bool" where
  "hex_number w n ds \<longleftrightarrow> length ds = w \<and> number_value 16 ds = int n \<and>
     (\<forall>d\<in>set ds. digit 16 (uint d) \<noteq> None \<and> isxdigit (sint d) \<and> d \<notin> {0, 88, 120})"

lemma hex_string_number: "\<exists>w. hex_number w n (hex_string upper n) \<and> 0 < w \<and> (\<forall>k>0. n < 16 ^ k \<longrightarrow> w \<le> k)"
proof (induction upper n rule: hex_string.induct)
  case (1 upper n)
  show ?case
  proof (cases "n < 16")
    case True
    then have "hex_number 1 n (hex_string upper n)"
      using hex_char_digit [of n upper] by (subst hex_string.simps) (simp add: hex_number_def)
    then show ?thesis by (intro exI [of _ 1]) auto
  next
    case False
    from 1 [OF False] obtain w where w: "hex_number w (n div 16) (hex_string upper (n div 16))"
      "\<And>k. k > 0 \<Longrightarrow> n div 16 < 16 ^ k \<Longrightarrow> w \<le> k" by auto
    have "hex_number (Suc w) n (hex_string upper n)"
      using False w(1) hex_char_digit [of "n mod 16" upper]
      by (subst hex_string.simps) (auto simp: hex_number_def number_value_append zdiv_int zmod_int)
    moreover have "Suc w \<le> k" if k: "k > 0" "n < 16 ^ k" for k
    proof -
      from k False obtain j where j: "k = Suc j" "j > 0" by (cases k; cases "k = 1") auto
      have "n div 16 < 16 ^ j" using k(2) j(1) by (simp add: less_mult_imp_div_less mult.commute)
      from w(2) [OF j(2) this] j show ?thesis by simp
    qed
    ultimately show ?thesis by (intro exI [of _ "Suc w"]) auto
  qed
qed

lemma hex_number_append:
  "hex_number w m ds \<Longrightarrow> hex_number w' n es \<Longrightarrow> hex_number (w + w') (m * 16 ^ w' + n) (ds @ es)"
  by (auto simp: hex_number_def number_value_append)

lemma hex_number_zeros: "hex_number w 0 (replicate w 48)"
proof (induction w)
  case (Suc w)
  have "hex_number 1 0 [48]" using hex_char_digit [of 0 True] by (simp add: hex_number_def hex_char_def)
  from hex_number_append [OF this Suc] show ?case by simp
qed (simp add: hex_number_def)

lemma hex_padded_number:
  assumes "n < 16 ^ w" "0 < w"
  shows "hex_number w n (hex_padded upper w n)"
proof -
  obtain k where k: "hex_number k n (hex_string upper n)" "k \<le> w"
    using hex_string_number [of n upper] assms by auto
  then have "length (hex_string upper n) = k" by (simp add: hex_number_def)
  with hex_number_append [OF hex_number_zeros [of "w - k"] k(1)] k(2)
  show ?thesis by (simp add: hex_padded_def Let_def)
qed

lemma number_value_bounds:
  "all_digits base ds \<Longrightarrow> 0 < base \<Longrightarrow> 0 \<le> number_value base ds \<and> number_value base ds < base ^ length ds"
proof (induction ds rule: rev_induct)
  case (snoc d ds)
  from snoc.prems(1) obtain v where v: "digit base (uint d) = Some v" by (auto simp: all_digits_def)
  have "0 \<le> v" "v < base" using digit_bounds [OF v] by simp_all
  moreover have "0 \<le> number_value base ds" "number_value base ds + 1 \<le> base ^ length ds"
    using snoc by (simp_all add: all_digits_def)
  moreover have "(number_value base ds + 1) * base \<le> base ^ length ds * base"
    using calculation(4) snoc.prems(2) by (intro mult_right_mono) simp_all
  ultimately show ?case
    using v snoc.prems(2) by (simp add: number_value_append algebra_simps)
qed simp

lemma hex_number_less:
  assumes "hex_number w n ds"
  shows "n < 16 ^ w"
proof -
  have "int n < 16 ^ w" using number_value_bounds [of 16 ds] assms by (simp add: hex_number_def all_digits_def)
  then show ?thesis by simp
qed

lemma strtoul_16_hex:
  assumes "hex_number w n ds" "2 \<le> w \<and> w \<le> 8" "ends_digits 16 rest"
  shows "strtoul_16 (ds @ rest) = int n"
proof -
  have "(16 :: nat) ^ w \<le> 16 ^ 8" using assms(2) by (intro power_increasing) simp_all
  then have n: "n < 2 ^ 32" using hex_number_less [OF assms(1)] by simp
  have "char_at (ds @ rest) 1 \<in> set ds" using assms(1,2) by (simp add: char_at_def nth_append hex_number_def)
  then have "number_string 16 [] [] ds rest"
    using assms by (auto simp: number_string_def hex_number_def all_digits_def no_prefix_def)
  from unsigned_number_run [OF this, of 32] assms(1) n show ?thesis
    by (simp add: strtoul_16_def strtoul_def hex_number_def Let_def)
qed

section \<open>Parsing what is printed\<close>

lemma ends_dash: "ends_digits 16 (45 # rest)" "ends_digits 16 []"
  by (simp_all add: ends_digits_def digit_def char_ranges)

text \<open>The text of an identifier: the groups, with a dash after each but the last.\<close>

definition uuid_text :: "u8 list \<Rightarrow> u8 list \<Rightarrow> u8 list \<Rightarrow> u8 list \<Rightarrow> u8 list list \<Rightarrow> u8 list" where
  "uuid_text g1 g2 g3 g4 ns = g1 @ 45 # g2 @ 45 # g3 @ 45 # g4 @ 45 # concat ns"

definition octets :: "u8 list \<Rightarrow> u8 list list \<Rightarrow> bool" where
  "octets bs ns \<longleftrightarrow> list_all2 (\<lambda>b. hex_number 2 (unat b)) bs ns"

lemma octets_length: "octets bs ns \<Longrightarrow> length (concat ns) = 2 * length bs"
  unfolding octets_def by (induction rule: list_all2_induct) (simp_all add: hex_number_def)

lemma octets_digits: "octets bs ns \<Longrightarrow> d \<in> set (concat ns) \<Longrightarrow> isxdigit (sint d)"
  unfolding octets_def by (induction rule: list_all2_induct) (auto simp: hex_number_def)

lemma octets_nth:
  assumes "octets bs ns" "i < length bs"
  shows "hex_number 2 (unat (bs ! i)) [concat ns ! (2 * i), concat ns ! (2 * i + 1)]"
  using assms unfolding octets_def
proof (induction arbitrary: i rule: list_all2_induct)
  case (Cons b bs n ns)
  then obtain x y where "n = [x, y]" by (auto simp: hex_number_def length_Suc_conv numeral_2_eq_2)
  with Cons show ?case by (cases i) simp_all
qed simp

lemma uuid_text_ok:
  assumes "hex_number 8 v1 g1" "hex_number 4 v2 g2" "hex_number 4 v3 g3" "hex_number 4 v4 g4" "octets bs ns" "length bs = 6"
  shows "length (uuid_text g1 g2 g3 g4 ns) = 36" "list_all (uuid_char_ok (uuid_text g1 g2 g3 g4 ns)) [0..<37]"
proof -
  have len: "length g1 = 8" "length g2 = 4" "length g3 = 4" "length g4 = 4" "length (concat ns) = 12"
    using assms octets_length [OF assms(5)] by (simp_all add: hex_number_def)
  then show length: "length (uuid_text g1 g2 g3 g4 ns) = 36" by (simp add: uuid_text_def)
  have g: "\<forall>d\<in>set (g1 @ g2 @ g3 @ g4 @ concat ns). isxdigit (sint d)"
    using assms(1-4) octets_digits [OF assms(5)] by (auto simp: hex_number_def)
  have "uuid_char_ok (uuid_text g1 g2 g3 g4 ns) i" if "i < 37" for i
  proof -
    let ?s = "uuid_text g1 g2 g3 g4 ns"
    have at: "char_at ?s i = (if i < 8 then g1 ! i else if i = 8 then 45 else if i < 13 then g2 ! (i - 9)
      else if i = 13 then 45 else if i < 18 then g3 ! (i - 14) else if i = 18 then 45
      else if i < 23 then g4 ! (i - 19) else if i = 23 then 45
      else if i < 36 then concat ns ! (i - 24) else 0)"
      using that len by (auto simp: char_at_def uuid_text_def nth_append nth_Cons')
    have "i = 8 \<or> i = 13 \<or> i = 18 \<or> i = 23 \<or> i = 36 \<or> isxdigit (sint (char_at ?s i))"
    proof (rule ccontr)
      assume n: "\<not> ?thesis"
      have "char_at ?s i \<in> set (g1 @ g2 @ g3 @ g4 @ concat ns)"
        unfolding at using n that len by (auto simp del: set_concat intro!: nth_mem)
      with g n show False by blast
    qed
    then show ?thesis using at by (auto simp: uuid_char_ok_def Let_def)
  qed
  then show "list_all (uuid_char_ok (uuid_text g1 g2 g3 g4 ns)) [0..<37]" by (simp add: list_all_iff)
qed

lemma uuid_parse_text:
  assumes "hex_number 8 v1 g1" "hex_number 4 v2 g2" "hex_number 4 v3 g3" "hex_number 4 v4 g4" "octets bs ns"
    "length bs = 6"
  shows "uuid_parse (uuid_text g1 g2 g3 g4 ns) = Some (uuid_pack
    \<lparr>time_low = of_nat v1, time_mid = of_nat v2, time_hi_and_version = of_nat v3, clock_seq = of_nat v4, node = bs\<rparr>)"
proof -
  let ?s = "uuid_text g1 g2 g3 g4 ns"
  have len: "length g1 = 8" "length g2 = 4" "length g3 = 4" "length g4 = 4" "length (concat ns) = 12"
    using assms octets_length [OF assms(5)] by (simp_all add: hex_number_def)
  have "strtoul_16 ?s = int v1"
    unfolding uuid_text_def by (rule strtoul_16_hex [OF assms(1)]) (simp_all add: ends_dash)
  moreover have "strtoul_16 (drop 9 ?s) = int v2"
    using strtoul_16_hex [OF assms(2) _ ends_dash(1)] len by (simp add: uuid_text_def)
  moreover have "strtoul_16 (drop 14 ?s) = int v3"
    using strtoul_16_hex [OF assms(3) _ ends_dash(1)] len by (simp add: uuid_text_def)
  moreover have "strtoul_16 (drop 19 ?s) = int v4"
    using strtoul_16_hex [OF assms(4) _ ends_dash(1)] len by (simp add: uuid_text_def)
  moreover have "map (\<lambda>i. word_of_int (strtoul_16 [?s ! (24 + 2 * i), ?s ! (25 + 2 * i)])) [0..<6] = bs"
  proof (rule nth_equalityI)
    fix i
    assume "i < length (map (\<lambda>i. word_of_int (strtoul_16 [?s ! (24 + 2 * i), ?s ! (25 + 2 * i)]) :: u8) [0..<6])"
    then have i: "i < 6" by simp
    have "?s ! (24 + 2 * i) = concat ns ! (2 * i)" "?s ! (25 + 2 * i) = concat ns ! (2 * i + 1)"
      using len by (simp_all add: uuid_text_def nth_append)
    moreover have "strtoul_16 [concat ns ! (2 * i), concat ns ! (2 * i + 1)] = int (unat (bs ! i))"
      using strtoul_16_hex [OF octets_nth [OF assms(5)], of i "[]"] i assms(6) ends_dash(2) by simp
    ultimately show "map (\<lambda>i. word_of_int (strtoul_16 [?s ! (24 + 2 * i), ?s ! (25 + 2 * i)])) [0..<6] ! i = bs ! i"
      using i by simp
  qed (simp add: assms(6))
  ultimately show ?thesis
    using uuid_text_ok [OF assms(1-6)] by (simp add: uuid_parse_def)
qed

lemma unparse_text:
  assumes "length uu = 16"
  shows "\<exists>g1 g2 g3 g4 ns. uuid_unparse_x uu upper = uuid_text g1 g2 g3 g4 ns \<and>
    hex_number 8 (unat (time_low (uuid_unpack uu))) g1 \<and> hex_number 4 (unat (time_mid (uuid_unpack uu))) g2 \<and>
    hex_number 4 (unat (time_hi_and_version (uuid_unpack uu))) g3 \<and>
    hex_number 4 (unat (clock_seq (uuid_unpack uu))) g4 \<and> octets (node (uuid_unpack uu)) ns"
proof -
  let ?u = "uuid_unpack uu"
  have w: "unat (x :: u32) < 16 ^ 8" "unat (y :: u16) < 16 ^ 4" "unat (z :: u8) < 16 ^ 2" for x y z
    using unsigned_less [of x] unsigned_less [of y] unsigned_less [of z] by simp_all
  define bs where "bs = node ?u"
  have bs: "bs = [bs ! 0, bs ! 1, bs ! 2, bs ! 3, bs ! 4, bs ! 5]"
    using map_nth [of bs] assms by (simp add: bs_def uuid_unpack_def upt_rec numeral_eq_Suc)
  let ?ns = "map (\<lambda>b. hex_padded upper 2 (unat b)) bs"
  have "octets bs ?ns"
    unfolding octets_def by (auto simp: list_all2_conv_all_nth intro!: hex_padded_number w)
  moreover have "hex_number 4 (unat (clock_seq ?u))
      (hex_padded upper 2 (unat (drop_bit 8 (clock_seq ?u))) @ hex_padded upper 2 (unat (clock_seq ?u AND 0xFF)))"
  proof -
    let ?c = "clock_seq ?u"
    have hi: "unat (drop_bit 8 ?c) = unat ?c div 256" by (simp add: drop_bit_eq_div unat_div)
    have lo: "unat (?c AND 0xFF) = unat ?c mod 256"
    proof -
      have "?c AND 0xFF = take_bit 8 ?c" by (simp add: take_bit_eq_mask mask_eq_exp_minus_1)
      then show ?thesis by (simp add: take_bit_eq_mod unat_mod)
    qed
    have "hex_number (2 + 2) (unat (drop_bit 8 ?c) * 16 ^ 2 + unat (?c AND 0xFF))
        (hex_padded upper 2 (unat (drop_bit 8 ?c)) @ hex_padded upper 2 (unat (?c AND 0xFF)))"
      using w(2) [of ?c] by (intro hex_number_append hex_padded_number) (simp_all add: hi lo)
    then show ?thesis by (simp add: hi lo)
  qed
  moreover have "concat ?ns = hex_padded upper 2 (unat (bs ! 0)) @ hex_padded upper 2 (unat (bs ! 1)) @
      hex_padded upper 2 (unat (bs ! 2)) @ hex_padded upper 2 (unat (bs ! 3)) @
      hex_padded upper 2 (unat (bs ! 4)) @ hex_padded upper 2 (unat (bs ! 5))"
    by (subst (1) bs) simp
  ultimately show ?thesis
    unfolding uuid_unparse_x_def Let_def
    by (intro exI conjI) (auto simp: uuid_text_def bs_def intro!: hex_padded_number w)
qed

section \<open>Comparing\<close>

lemma uuid_is_null_iff: "length uu = 16 \<Longrightarrow> uuid_is_null uu \<longleftrightarrow> uu = replicate 16 0"
  by (auto simp: uuid_is_null_def list_all_iff list_eq_iff_nth_eq)

lemma copy_bytes_eq: "n \<le> length dst \<Longrightarrow> n \<le> length src \<Longrightarrow> copy_bytes n dst src = take n src @ drop n dst"
  by (induction n) (simp_all add: take_Suc_conv_app_nth list_update_append flip: Cons_nth_drop_Suc)

text \<open>Identifiers are ordered as their bytes are: the fields are the big-endian values of theirs.\<close>

definition bytes_value :: "u8 list \<Rightarrow> nat" where
  "bytes_value bs = foldl (\<lambda>v b. v * 256 + unat b) 0 bs"

lemma bytes_value_Cons: "bytes_value (b # bs) = unat b * 256 ^ length bs + bytes_value bs"
proof -
  have "foldl (\<lambda>v b. v * 256 + unat b) v xs = v * 256 ^ length xs + foldl (\<lambda>v b. v * 256 + unat b) 0 xs"
    for v and xs :: "u8 list"
    by (induction xs rule: rev_induct) (simp_all add: algebra_simps)
  from this [of "unat b" bs] show ?thesis by (simp add: bytes_value_def)
qed

lemma bytes_value_less: "bytes_value bs < 256 ^ length bs"
proof (induction bs)
  case (Cons b bs)
  have "unat b < 2 ^ LENGTH(8)" by (rule unsigned_less)
  then have le: "unat b + 1 \<le> 256" by simp
  have "unat b * 256 ^ length bs + 256 ^ length bs \<le> 256 * 256 ^ length bs"
    using mult_right_mono [OF le, of "256 ^ length bs"] by (simp only: add_mult_distrib mult_1)
  with Cons have "bytes_value (b # bs) < 256 * 256 ^ length bs" unfolding bytes_value_Cons by linarith
  then show ?case by simp
qed (simp add: bytes_value_def)

lemma sgn_diff: "sgn (int x - int y) = (if x < y then - 1 else if x = y then 0 else 1)"
  by (simp add: sgn_if)

lemma sgn_leading:
  fixes x y m p q :: nat
  assumes "x \<noteq> y" "p < m" "q < m"
  shows "sgn (int (x * m + p) - int (y * m + q)) = sgn (int x - int y)"
proof -
  have less: "x * m + p < y * m + q" if "x < y" "p < m" for x y p q :: nat
  proof -
    have "(x + 1) * m \<le> y * m" using that(1) by (intro mult_right_mono) simp_all
    with that(2) show ?thesis by simp
  qed
  from assms(1) consider "x < y" | "y < x" by linarith
  then show ?thesis
  proof cases
    case 1
    with less [OF 1 assms(2), of q] show ?thesis by (simp only: sgn_diff) simp
  next
    case 2
    with less [OF 2 assms(3), of p] show ?thesis by (simp only: sgn_diff) simp
  qed
qed

lemma memcmp_value:
  "length as = length bs \<Longrightarrow> sgn (memcmp as bs) = sgn (int (bytes_value as) - int (bytes_value bs))"
proof (induction as bs rule: list_induct2)
  case (Cons a as b bs)
  show ?case
  proof (cases "a = b")
    case False
    have "memcmp (a # as) (b # bs) = int (unat a) - int (unat b)" using False by simp
    moreover have "unat a \<noteq> unat b" using False by (simp add: word_unat_eq_iff)
    moreover have "bytes_value as < 256 ^ length bs" "bytes_value bs < 256 ^ length bs"
      using bytes_value_less [of as] bytes_value_less [of bs] Cons(1) by simp_all
    ultimately show ?thesis by (simp only: bytes_value_Cons Cons(1) sgn_leading not_False_eq_True simp_thms)
  qed (use Cons in \<open>simp add: bytes_value_Cons\<close>)
qed (simp add: bytes_value_def)

lemma memcmp_append:
  "length as = length bs \<Longrightarrow> memcmp (as @ cs) (bs @ ds) = (if as = bs then memcmp cs ds else memcmp as bs)"
  by (induction as bs rule: list_induct2) auto

lemma memcmp_0_iff: "length as = length bs \<Longrightarrow> memcmp as bs = 0 \<longleftrightarrow> as = bs"
  by (induction as bs rule: list_induct2) (auto simp: word_uint_eq_iff)

lemma uucmp_bytes:
  fixes u v :: "'a::len word"
  assumes "unat u = bytes_value as" "unat v = bytes_value bs" "length as = length bs" "sgn r = sgn (memcmp cs ds)"
  shows "sgn (uucmp u v r) = sgn (memcmp (as @ cs) (bs @ ds))"
proof (cases "as = bs")
  case True
  with assms show ?thesis by (simp add: uucmp_def memcmp_append word_unat_eq_iff)
next
  case False
  have "memcmp as bs \<noteq> 0" using assms(3) False by (simp add: memcmp_0_iff)
  moreover have diff: "sgn (memcmp as bs) = (if unat u < unat v then - 1 else if unat u = unat v then 0 else 1)"
    using memcmp_value [OF assms(3)] assms(1,2) by (simp only: sgn_diff)
  ultimately have "unat u \<noteq> unat v" by (auto simp: sgn_0_0 split: if_splits)
  with False diff assms(3) show ?thesis
    by (simp add: uucmp_def memcmp_append word_less_nat_alt word_unat_eq_iff)
qed

lemma join_value:
  "unat (append_byte (append_byte (append_byte (ucast a) b) c) d) = bytes_value [a, b, c, d]"
  "unat (ucast (append_byte (ucast a) b) :: u16) = bytes_value [a, b]"
proof -
  have step: "unat (append_byte v d) = (unat v * 256 + unat d) mod 2 ^ 32" for v d
  proof -
    have "append_byte v d = push_bit 8 v + ucast d"
      unfolding append_byte_def
      by (rule disjunctive_add [symmetric]) (auto simp: bit_simps dest: bit_imp_le_length)
    also have "\<dots> = v * 256 + ucast d" by (simp add: push_bit_eq_mult)
    finally show ?thesis
      by (simp add: unat_word_ariths unsigned_ucast_eq take_bit_eq_mod mod_simps)
  qed
  have less: "unat (x :: u8) < 256" for x using unsigned_less [of x] by simp
  have add: "unat (append_byte v d) = unat v * 256 + unat d" if "unat v < 2 ^ 24" for v d
    using that less [of d] by (simp add: step)
  have one: "unat (ucast a :: u32) = unat a"
    using less [of a] by (simp add: unsigned_ucast_eq take_bit_eq_mod)
  have two: "unat (append_byte (ucast a) b) = unat a * 256 + unat b"
    using less [of a] by (simp add: add one)
  have three: "unat (append_byte (append_byte (ucast a) b) c) = (unat a * 256 + unat b) * 256 + unat c"
    using less [of a] less [of b] by (simp add: add two)
  show "unat (append_byte (append_byte (append_byte (ucast a) b) c) d) = bytes_value [a, b, c, d]"
    using less [of a] less [of b] less [of c] by (simp add: add three bytes_value_def)
  show "unat (ucast (append_byte (ucast a) b) :: u16) = bytes_value [a, b]"
    using less [of a] less [of b] by (simp add: unsigned_ucast_eq take_bit_eq_mod two bytes_value_def)
qed

lemma uuid_compare_bytes:
  assumes "length uu1 = 16" "length uu2 = 16"
  shows "sgn (uuid_compare uu1 uu2) = sgn (memcmp uu1 uu2)"
proof -
  let ?l = "\<lambda>uu :: u8 list. [uu ! 0, uu ! 1, uu ! 2, uu ! 3] @ [uu ! 4, uu ! 5] @ [uu ! 6, uu ! 7] @ [uu ! 8, uu ! 9] @
    take 6 (drop 10 uu)"
  have "uu = ?l uu" if "length uu = 16" for uu :: "u8 list"
    using list_16 [OF that] by (simp add: node_16 [OF that])
  then have "memcmp uu1 uu2 = memcmp (?l uu1) (?l uu2)" using assms by metis
  moreover have "sgn (uuid_compare uu1 uu2) = sgn (memcmp (?l uu1) (?l uu2))"
    unfolding uuid_compare_def Let_def uuid_unpack_def uuid.select_convs
    by (intro uucmp_bytes join_value refl) simp_all
  ultimately show ?thesis by simp
qed


section \<open>Properties\<close>

lemma uuid_facts:
  assumes "length uu = 16" "length (node u) = 6" "length vv = 16"
  shows "uuid_pack (uuid_unpack uu) = uu" "uuid_unpack (uuid_pack u) = u"
    "length (uuid_unparse_lower uu) = 36 \<and> uuid_parse (uuid_unparse_lower uu) = Some uu"
    "length (uuid_unparse_upper uu) = 36 \<and> uuid_parse (uuid_unparse_upper uu) = Some uu"
    "uuid_parse (uuid_unparse uu) = Some uu"
    "sgn (uuid_compare uu vv) = sgn (memcmp uu vv)" "uuid_compare uu vv = 0 \<longleftrightarrow> uu = vv"
    "uuid_copy vv uu = uu" "uuid_is_null uu \<longleftrightarrow> uuid_clear uu = uu"
proof -
  show "uuid_pack (uuid_unpack uu) = uu" by (rule pack_unpack [OF assms(1)])
  show "uuid_unpack (uuid_pack u) = u" by (rule unpack_pack [OF assms(2)])
  show order: "sgn (uuid_compare uu vv) = sgn (memcmp uu vv)" by (rule uuid_compare_bytes [OF assms(1,3)])
  then have "uuid_compare uu vv = 0 \<longleftrightarrow> memcmp uu vv = 0" by (metis sgn_0_0)
  then show "uuid_compare uu vv = 0 \<longleftrightarrow> uu = vv" using assms(1,3) by (simp add: memcmp_0_iff)
  show "uuid_copy vv uu = uu" using assms(1,3) by (simp add: uuid_copy_def copy_bytes_eq)
  show "uuid_is_null uu \<longleftrightarrow> uuid_clear uu = uu"
    using assms(1) by (auto simp: uuid_is_null_iff uuid_clear_def)
  have "length (uuid_unparse_x uu upper) = 36 \<and> uuid_parse (uuid_unparse_x uu upper) = Some uu" for upper
  proof -
    obtain g1 g2 g3 g4 ns where "uuid_unparse_x uu upper = uuid_text g1 g2 g3 g4 ns"
      "hex_number 8 (unat (time_low (uuid_unpack uu))) g1" "hex_number 4 (unat (time_mid (uuid_unpack uu))) g2"
      "hex_number 4 (unat (time_hi_and_version (uuid_unpack uu))) g3"
      "hex_number 4 (unat (clock_seq (uuid_unpack uu))) g4" "octets (node (uuid_unpack uu)) ns"
      using unparse_text [OF assms(1), of upper] by blast
    moreover have "length (node (uuid_unpack uu)) = 6" using assms(1) by (simp add: uuid_unpack_def)
    ultimately show ?thesis
      using uuid_parse_text uuid_text_ok(1) pack_unpack [OF assms(1)]
      by (simp add: uuid_fields)
  qed
  then show "length (uuid_unparse_lower uu) = 36 \<and> uuid_parse (uuid_unparse_lower uu) = Some uu"
    "length (uuid_unparse_upper uu) = 36 \<and> uuid_parse (uuid_unparse_upper uu) = Some uu"
    "uuid_parse (uuid_unparse uu) = Some uu"
    by (simp_all add: uuid_unparse_lower_def uuid_unparse_upper_def uuid_unparse_def)
qed

text \<open>
  C37: Identifiers survive: unpacking and packing are inverse to each other, and the text printed
  for an identifier, in lower or in upper case, has 36 characters and is parsed as the identifier.
  Comparing field by field orders identifiers as their bytes are ordered, and only an identifier
  compares equal to itself; a copy is the identifier, and the null one is what clearing gives.
\<close>

theorem uuid_roundtrips:
  assumes "length uu = 16" "length (node u) = 6" "length vv = 16"
  shows "uuid_pack (uuid_unpack uu) = uu \<and>
    uuid_unpack (uuid_pack u) = u \<and>
    length (uuid_unparse_lower uu) = 36 \<and> uuid_parse (uuid_unparse_lower uu) = Some uu \<and>
    length (uuid_unparse_upper uu) = 36 \<and> uuid_parse (uuid_unparse_upper uu) = Some uu \<and>
    uuid_parse (uuid_unparse uu) = Some uu \<and>
    sgn (uuid_compare uu vv) = sgn (memcmp uu vv) \<and>
    (uuid_compare uu vv = 0 \<longleftrightarrow> uu = vv) \<and>
    uuid_copy vv uu = uu \<and>
    (uuid_is_null uu \<longleftrightarrow> uuid_clear uu = uu)"
  using uuid_facts [OF assms] by simp

lemma uuid_roundtrips_witness:
  "uuid_parse (uuid_unparse_upper [0x12, 0xAB, 0, 1, 2, 3, 4, 5, 6, 7, 8, 9, 10, 11, 12, 0xFF]) =
    Some [0x12, 0xAB, 0, 1, 2, 3, 4, 5, 6, 7, 8, 9, 10, 11, 12, 0xFF]"
  using uuid_roundtrips [of "[0x12, 0xAB, 0, 1, 2, 3, 4, 5, 6, 7, 8, 9, 10, 11, 12, 0xFF]"
      "\<lparr>time_low = 0, time_mid = 0, time_hi_and_version = 0, clock_seq = 0, node = replicate 6 0\<rparr>"
      "replicate 16 0"]
  by simp

end
