(* ===== verification/UuidGen.thy ===== *)
theory UuidGen
  imports Uuid
begin

text \<open>
  Generating identifiers (src/core/gen_uuid.c). What the routine asks the system for (the time of
  day, the hardware address, random bytes) are arguments.
\<close>

section \<open>The clock\<close>

record timeval =
  tv_sec :: int
  tv_usec :: int

text \<open>The static variables of \<open>get_clock\<close>.\<close>

record clock =
  adjustment :: int
  last_time :: timeval
  cur_seq :: u16

definition clock_start :: clock where
  "clock_start = \<lparr>adjustment = 0, last_time = \<lparr>tv_sec = 0, tv_usec = 0\<rparr>, cur_seq = 0\<rparr>"

definition MAX_ADJUSTMENT :: int where "MAX_ADJUSTMENT = 10"

definition clock_reg :: "timeval \<Rightarrow> int \<Rightarrow> u64" where
  "clock_reg tv adj = word_of_int (tv_usec tv * 10 + adj) + word_of_int (tv_sec tv) * 10000000
     + (push_bit 32 0x01B21DD2 + 0x13814000)"

text \<open>
  The readings of the clock are consumed in turn: one, unless the time of the one before has been
  used up and the routine tries again. The result is the clock in two halves and the sequence
  number; \<open>rnd\<close> is what the sequence number is drawn from.
\<close>

definition clock_result :: "timeval \<Rightarrow> clock \<Rightarrow> (u32 \<times> u32 \<times> u16) \<times> clock" where
  "clock_result tv c = ((ucast (drop_bit 32 (clock_reg tv (adjustment c))),
     ucast (clock_reg tv (adjustment c)), cur_seq c), c)"

fun get_clock :: "u16 \<Rightarrow> timeval list \<Rightarrow> clock \<Rightarrow> (((u32 \<times> u32 \<times> u16) \<times> clock) \<times> timeval list) option" where
  "get_clock rnd [] c = None"
| "get_clock rnd (tv # tvs) c =
     (let c = (if tv_sec (last_time c) = 0 \<and> tv_usec (last_time c) = 0
               then c\<lparr>cur_seq := rnd AND 0x3FFF, last_time := tv\<lparr>tv_sec := tv_sec tv - 1\<rparr>\<rparr> else c) in
      if tv_sec tv < tv_sec (last_time c) \<or>
         (tv_sec tv = tv_sec (last_time c) \<and> tv_usec tv < tv_usec (last_time c)) then
        Some (clock_result tv (c\<lparr>cur_seq := (cur_seq c + 1) AND 0x3FFF, adjustment := 0, last_time := tv\<rparr>), tvs)
      else if tv_sec tv = tv_sec (last_time c) \<and> tv_usec tv = tv_usec (last_time c) then
        (if adjustment c \<ge> MAX_ADJUSTMENT then get_clock rnd tvs c
         else Some (clock_result tv (c\<lparr>adjustment := adjustment c + 1\<rparr>), tvs))
      else Some (clock_result tv (c\<lparr>adjustment := 0, last_time := tv\<rparr>), tvs))"

section \<open>Generators\<close>

text \<open>The static variables of \<open>uuid_generate_time\<close> and the clock.\<close>

record generator =
  node_id :: "u8 list"
  has_init :: bool
  gen_clock :: clock

definition generator_start :: generator where
  "generator_start = \<lparr>node_id = replicate 6 0, has_init = False, gen_clock = clock_start\<rparr>"

text \<open>What the system provides: the hardware address if there is one, and random bytes.\<close>

record surroundings =
  hardware :: "u8 list option"
  random_node :: "u8 list"
  random_seq :: u16

definition init_node :: "surroundings \<Rightarrow> generator \<Rightarrow> generator" where
  "init_node e g =
     (if has_init g then g
      else (case hardware e of
          Some a \<Rightarrow> g\<lparr>node_id := take 6 a, has_init := True\<rparr>
        | None \<Rightarrow> g\<lparr>node_id := (take 6 (random_node e))[0 := random_node e ! 0 OR 0x01], has_init := True\<rparr>))"

definition uuid_generate_time ::
    "surroundings \<Rightarrow> timeval list \<Rightarrow> generator \<Rightarrow> ((u8 list \<times> generator) \<times> timeval list) option" where
  "uuid_generate_time e tvs g0 =
     (let g = init_node e g0 in
      case get_clock (random_seq e) tvs (gen_clock g) of
        None \<Rightarrow> None
      | Some (((clock_mid, low, seq), c), tvs) \<Rightarrow>
          Some ((uuid_pack
            \<lparr>time_low = low, time_mid = ucast clock_mid,
             time_hi_and_version = ucast ((drop_bit 16 clock_mid AND 0x0FFF) OR 0x1000),
             clock_seq = seq OR 0x8000, node = node_id g\<rparr>, g\<lparr>gen_clock := c\<rparr>), tvs))"

definition uuid_generate_random :: "u8 list \<Rightarrow> u8 list" where
  "uuid_generate_random buf =
     (let uu = uuid_unpack buf in
      uuid_pack (uu\<lparr>clock_seq := (clock_seq uu AND 0x3FFF) OR 0x8000,
        time_hi_and_version := (time_hi_and_version uu AND 0x0FFF) OR 0x4000\<rparr>))"

definition uuid_generate ::
    "int \<Rightarrow> u8 list \<Rightarrow> surroundings \<Rightarrow> timeval list \<Rightarrow> generator \<Rightarrow> ((u8 list \<times> generator) \<times> timeval list) option" where
  "uuid_generate fd buf e tvs g =
     (if fd \<ge> 0 then Some ((uuid_generate_random buf, g), tvs) else uuid_generate_time e tvs g)"

section \<open>The clock advances\<close>

text \<open>Times the system can return, and the number of ticks the clock stands at.\<close>

definition valid_time :: "timeval \<Rightarrow> bool" where
  "valid_time tv \<longleftrightarrow> 0 < tv_sec tv \<and> tv_sec tv < 2 ^ 31 \<and> 0 \<le> tv_usec tv \<and> tv_usec tv < 1000000"

definition ticks :: "clock \<Rightarrow> int" where
  "ticks c = tv_sec (last_time c) * 10000000 + tv_usec (last_time c) * 10 + adjustment c"

definition running :: "clock \<Rightarrow> bool" where
  "running c \<longleftrightarrow> valid_time (last_time c) \<and> 0 \<le> adjustment c \<and> adjustment c \<le> MAX_ADJUSTMENT \<and>
     cur_seq c AND 0x3FFF = cur_seq c"

definition advances :: "clock \<Rightarrow> clock \<Rightarrow> bool" where
  "advances c c' \<longleftrightarrow> (if cur_seq c' = cur_seq c then ticks c \<le> ticks c' \<and> (ticks c = ticks c' \<longrightarrow> adjustment c = MAX_ADJUSTMENT)
     else cur_seq c' = (cur_seq c + 1) AND 0x3FFF)"

lemma clock_reg_ticks:
  "clock_result (last_time c) c = ((ucast (drop_bit 32 (word_of_int (ticks c + 0x01B21DD213814000) :: u64)),
     ucast (word_of_int (ticks c + 0x01B21DD213814000) :: u64), cur_seq c), c)"
  by (simp add: clock_result_def clock_reg_def ticks_def algebra_simps)

lemma next_seq_differs: "((s :: u16) + 1) AND 0x3FFF \<noteq> s"
proof
  assume "(s + 1) AND 0x3FFF = s"
  then have "even ((s + 1) AND 0x3FFF) = even s" by simp
  then show False by (simp add: even_and_iff)
qed

lemma get_clock_running:
  assumes "running c" "\<forall>tv\<in>set tvs. valid_time tv" "get_clock rnd tvs c = Some ((r, c'), rest)"
  shows "running c' \<and> advances c c' \<and> (r, c') = clock_result (last_time c') c' \<and> set rest \<subseteq> set tvs"
  using assms
proof (induction rnd tvs c rule: get_clock.induct)
  case (2 rnd tv tvs c)
  note differs = next_seq_differs [of "cur_seq c"]
  have v: "valid_time tv" "valid_time (last_time c)" using 2 by (simp_all add: running_def)
  then have old: "\<not> (tv_sec (last_time c) = 0 \<and> tv_usec (last_time c) = 0)" by (simp add: valid_time_def)
  consider (earlier) "tv_sec tv < tv_sec (last_time c) \<or> (tv_sec tv = tv_sec (last_time c) \<and> tv_usec tv < tv_usec (last_time c))"
    | (same) "tv = last_time c"
    | (later) "tv_sec tv > tv_sec (last_time c) \<or> (tv_sec tv = tv_sec (last_time c) \<and> tv_usec tv > tv_usec (last_time c))"
    by (metis linorder_neqE timeval.equality unit.exhaust)
  then show ?case
  proof cases
    case earlier
    with 2(2-4) v old differs show ?thesis
      by (auto simp: running_def MAX_ADJUSTMENT_def clock_result_def advances_def ticks_def valid_time_def Let_def)
  next
    case same
    show ?thesis
    proof (cases "adjustment c \<ge> MAX_ADJUSTMENT")
      case True
      with same 2(4) have "get_clock rnd tvs c = Some ((r, c'), rest)"
        by (simp only: get_clock.simps Let_def old if_False) simp
      moreover have "c = (if tv_sec (last_time c) = 0 \<and> tv_usec (last_time c) = 0
          then c\<lparr>cur_seq := rnd AND 0x3FFF, last_time := tv\<lparr>tv_sec := tv_sec tv - 1\<rparr>\<rparr> else c)"
        by (simp only: old if_False)
      ultimately have "running c' \<and> advances c c' \<and> (r, c') = clock_result (last_time c') c' \<and> set rest \<subseteq> set tvs"
        using same True 2(2,3) by (intro 2(1)) simp_all
      then show ?thesis by auto
    next
      case False
      with same old 2(2-4) v show ?thesis
        by (auto simp: running_def clock_result_def advances_def ticks_def Let_def)
    qed
  next
    case later
    with 2(2-4) v old differs show ?thesis
      by (auto simp: running_def MAX_ADJUSTMENT_def clock_result_def advances_def ticks_def valid_time_def Let_def)
  qed
qed simp

text \<open>The first reading starts the clock.\<close>

lemma get_clock_start:
  assumes "\<forall>tv\<in>set tvs. valid_time tv" "get_clock rnd tvs clock_start = Some ((r, c'), rest)"
  shows "running c' \<and> (r, c') = clock_result (last_time c') c' \<and> set rest \<subseteq> set tvs"
proof (cases tvs)
  case (Cons tv tvs')
  with assms show ?thesis
    by (auto simp: clock_start_def Let_def running_def clock_result_def valid_time_def MAX_ADJUSTMENT_def)
qed (use assms in simp)

definition clock_ok :: "clock \<Rightarrow> bool" where "clock_ok c \<longleftrightarrow> c = clock_start \<or> running c"

lemma get_clock_ok:
  assumes "clock_ok c" "\<forall>tv\<in>set tvs. valid_time tv" "get_clock rnd tvs c = Some ((r, c'), rest)"
  shows "running c'" "running c \<Longrightarrow> advances c c'" "(r, c') = clock_result (last_time c') c'" "set rest \<subseteq> set tvs"
  using assms get_clock_start [of tvs rnd r c' rest] get_clock_running [of c tvs rnd r c' rest]
  by (auto simp: clock_ok_def)

section \<open>Identifiers of the time\<close>

text \<open>The identifier is given by the node, the ticks and the sequence number.\<close>

definition time_stamp :: "clock \<Rightarrow> u64" where
  "time_stamp c = word_of_int (ticks c + 0x01B21DD213814000)"

definition time_uuid :: "u8 list \<Rightarrow> clock \<Rightarrow> uuid" where
  "time_uuid n c =
     \<lparr>time_low = ucast (time_stamp c), time_mid = ucast (ucast (drop_bit 32 (time_stamp c)) :: u32),
      time_hi_and_version = ucast ((drop_bit 16 (ucast (drop_bit 32 (time_stamp c)) :: u32) AND 0x0FFF) OR 0x1000),
      clock_seq = cur_seq c OR 0x8000, node = n\<rparr>"

definition surroundings_ok :: "surroundings \<Rightarrow> bool" where
  "surroundings_ok e \<longleftrightarrow> (\<forall>a. hardware e = Some a \<longrightarrow> 6 \<le> length a) \<and> 6 \<le> length (random_node e)"

definition generator_ok :: "generator \<Rightarrow> bool" where
  "generator_ok g \<longleftrightarrow> (has_init g \<longrightarrow> length (node_id g) = 6) \<and> clock_ok (gen_clock g)"

lemma init_node_facts:
  assumes "generator_ok g" "surroundings_ok e"
  shows "length (node_id (init_node e g)) = 6" "has_init (init_node e g)"
    "gen_clock (init_node e g) = gen_clock g" "has_init g \<Longrightarrow> node_id (init_node e g) = node_id g"
  using assms by (auto simp: init_node_def generator_ok_def surroundings_ok_def split: option.splits)

lemma uuid_generate_time_eq:
  assumes "generator_ok g" "surroundings_ok e" "\<forall>tv\<in>set tvs. valid_time tv"
    "uuid_generate_time e tvs g = Some ((u, g'), rest)"
  shows "u = uuid_pack (time_uuid (node_id g') (gen_clock g'))" "running (gen_clock g')" "has_init g'"
    "length (node_id g') = 6" "set rest \<subseteq> set tvs" "has_init g \<Longrightarrow> node_id g' = node_id g"
    "running (gen_clock g) \<Longrightarrow> advances (gen_clock g) (gen_clock g')"
proof -
  note node = init_node_facts [OF assms(1,2)]
  obtain mid low sq c where c: "get_clock (random_seq e) tvs (gen_clock g) = Some (((mid, low, sq), c), rest)"
    and u: "u = uuid_pack \<lparr>time_low = low, time_mid = ucast mid,
       time_hi_and_version = ucast ((drop_bit 16 mid AND 0x0FFF) OR 0x1000),
       clock_seq = sq OR 0x8000, node = node_id (init_node e g)\<rparr>"
    and g': "g' = init_node e g\<lparr>gen_clock := c\<rparr>"
    using assms(4) by (auto simp: uuid_generate_time_def Let_def node split: option.splits)
  have "clock_ok (gen_clock g)" using assms(1) by (simp add: generator_ok_def)
  note clock = get_clock_ok [OF this assms(3) c]
  show "u = uuid_pack (time_uuid (node_id g') (gen_clock g'))"
    using clock(3) by (simp add: u g' time_uuid_def time_stamp_def clock_reg_ticks)
  show "running (gen_clock g')" "has_init g'" "length (node_id g') = 6" "set rest \<subseteq> set tvs"
    "has_init g \<Longrightarrow> node_id g' = node_id g" "running (gen_clock g) \<Longrightarrow> advances (gen_clock g) (gen_clock g')"
    using clock node by (simp_all add: g')
qed

lemma time_stamp_bits:
  assumes "running c"
  shows "uint (time_stamp c) = ticks c + 0x01B21DD213814000" "time_stamp c = take_bit 60 (time_stamp c)"
proof -
  have "0 \<le> ticks c" "ticks c < 2 ^ 31 * 10000000 + 10000000 + 11"
    using assms by (simp_all add: running_def valid_time_def ticks_def MAX_ADJUSTMENT_def)
  then have t: "0 \<le> ticks c + 0x01B21DD213814000" "ticks c + 0x01B21DD213814000 < 2 ^ 60" by simp_all
  then show u: "uint (time_stamp c) = ticks c + 0x01B21DD213814000"
    unfolding time_stamp_def uint_word_of_int_eq by (intro take_bit_int_eq_self) simp_all
  have "uint (take_bit 60 (time_stamp c)) = uint (time_stamp c)"
    using t by (simp add: unsigned_take_bit_eq u take_bit_int_eq_self)
  then show "time_stamp c = take_bit 60 (time_stamp c)" by (simp add: word_uint_eq_iff)
qed

lemma version_bits:
  fixes w :: u32
  assumes "j < 12"
  shows "bit (ucast ((w AND 0x0FFF) OR 0x1000) :: u16) j = bit w j"
proof -
  have "(w AND 0x0FFF) OR 0x1000 = take_bit 12 w OR push_bit 12 1"
    by (simp add: take_bit_eq_mask mask_eq_exp_minus_1)
  then show ?thesis using assms by (simp add: bit_simps del: push_bit_of_1)
qed

lemma time_uuid_ticks:
  assumes "running c" "running c'" "time_uuid n c = time_uuid n c'"
  shows "ticks c = ticks c'"
proof -
  let ?t = "time_stamp c" and ?t' = "time_stamp c'"
  have low: "(ucast ?t :: u32) = ucast ?t'" and mid: "(ucast (ucast (drop_bit 32 ?t) :: u32) :: u16) = ucast (ucast (drop_bit 32 ?t') :: u32)"
    and high: "(ucast ((drop_bit 16 (ucast (drop_bit 32 ?t) :: u32) AND 0x0FFF) OR 0x1000) :: u16) =
      ucast ((drop_bit 16 (ucast (drop_bit 32 ?t') :: u32) AND 0x0FFF) OR 0x1000)"
    using assms(3) by (simp_all add: time_uuid_def)
  have "bit ?t k = bit ?t' k" if k: "k < 64" for k
  proof -
    consider "k < 32" | j where "k = 32 + j" "j < 16" | j where "k = 48 + j" "j < 12" | "60 \<le> k"
    proof (cases "k < 32 \<or> 60 \<le> k")
      case False
      show thesis
      proof (cases "k < 48")
        case True
        with False show thesis by (intro that(2) [of "k - 32"]) auto
      next
        case far: False
        with False show thesis by (intro that(3) [of "k - 48"]) auto
      qed
    qed (use that in blast)
    then show ?thesis
    proof cases
      case 1
      with arg_cong [OF low, of "\<lambda>w. bit w k"] show ?thesis by (simp add: bit_simps)
    next
      case 2
      with arg_cong [OF mid, of "\<lambda>w. bit w j"] show ?thesis by (simp add: bit_simps)
    next
      case 3
      with arg_cong [OF high, of "\<lambda>w. bit w j"] show ?thesis
        by (simp add: version_bits) (simp add: bit_simps)
    next
      case 4
      then have "\<not> bit (take_bit 60 ?t) k" "\<not> bit (take_bit 60 ?t') k" by (simp_all add: bit_take_bit_iff)
      then show ?thesis
        unfolding time_stamp_bits(2) [OF assms(1), symmetric] time_stamp_bits(2) [OF assms(2), symmetric] by simp
    qed
  qed
  then have "time_stamp c = time_stamp c'" by (intro bit_word_eqI) simp
  then show ?thesis using time_stamp_bits(1) [OF assms(1)] time_stamp_bits(1) [OF assms(2)] by simp
qed

text \<open>A number of identifiers in a row, each with the state after it.\<close>

fun generate_times :: "surroundings list \<Rightarrow> timeval list \<Rightarrow> generator \<Rightarrow> (u8 list \<times> generator) list" where
  "generate_times [] tvs g = []"
| "generate_times (e # es) tvs g =
     (case uuid_generate_time e tvs g of
        None \<Rightarrow> []
      | Some ((u, g'), rest) \<Rightarrow> (u, g') # generate_times es rest g')"

text \<open>The clock was not set back, and no time was used for more than ten identifiers.\<close>

definition steady :: "u16 \<Rightarrow> generator \<Rightarrow> bool" where
  "steady s g \<longleftrightarrow> cur_seq (gen_clock g) = s \<and> adjustment (gen_clock g) < MAX_ADJUSTMENT"

lemma generator_ok_after:
  assumes "generator_ok g" "surroundings_ok e" "\<forall>tv\<in>set tvs. valid_time tv"
    "uuid_generate_time e tvs g = Some ((u, g'), rest)"
  shows "generator_ok g'" "\<forall>tv\<in>set rest. valid_time tv"
  using uuid_generate_time_eq [OF assms] assms(3) by (auto simp: generator_ok_def clock_ok_def)

lemma stamps_differ:
  assumes "running c" "running c'" "ticks c \<noteq> ticks c'" "length n = 6"
  shows "uuid_pack (time_uuid n c) \<noteq> uuid_pack (time_uuid n c')"
proof
  have inv: "uuid_unpack (uuid_pack (time_uuid n c)) = time_uuid n c" for c
    using assms(4) by (intro unpack_pack) (simp add: time_uuid_def)
  assume "uuid_pack (time_uuid n c) = uuid_pack (time_uuid n c')"
  then have "time_uuid n c = time_uuid n c'" using inv by metis
  with time_uuid_ticks [OF assms(1,2)] assms(3) show False by blast
qed

definition stamped :: "generator \<Rightarrow> (u8 list \<times> generator) list \<Rightarrow> bool" where
  "stamped g us \<longleftrightarrow> distinct (map fst us) \<and> (\<forall>(u, g')\<in>set us.
     u = uuid_pack (time_uuid (node_id g) (gen_clock g')) \<and> running (gen_clock g') \<and>
     ticks (gen_clock g) < ticks (gen_clock g'))"

lemma stamped_Cons:
  assumes "running (gen_clock g)" "length (node_id g) = 6" "stamped g us"
  shows "distinct (uuid_pack (time_uuid (node_id g) (gen_clock g)) # map fst us)"
proof -
  have "uuid_pack (time_uuid (node_id g) (gen_clock g)) \<noteq> u" if "(u, g') \<in> set us" for u g'
    using that assms stamps_differ [of "gen_clock g" "gen_clock g'" "node_id g"] by (auto simp: stamped_def)
  then have "uuid_pack (time_uuid (node_id g) (gen_clock g)) \<notin> fst ` set us" by force
  with assms(3) show ?thesis by (simp add: stamped_def)
qed

lemma generate_times_stamped:
  assumes "generator_ok g" "has_init g" "running (gen_clock g)" "steady s g"
    "\<forall>e\<in>set es. surroundings_ok e" "\<forall>tv\<in>set tvs. valid_time tv"
    "\<forall>(u, g')\<in>set (generate_times es tvs g). steady s g'"
  shows "stamped g (generate_times es tvs g)"
  using assms
proof (induction es tvs g rule: generate_times.induct)
  case (2 e es tvs g)
  show ?case
  proof (cases "uuid_generate_time e tvs g")
    case (Some r)
    then obtain u g' rest where r: "uuid_generate_time e tvs g = Some ((u, g'), rest)" by (cases r) auto
    have ok: "generator_ok g" "surroundings_ok e" "\<forall>tv\<in>set tvs. valid_time tv" using "2.prems" by simp_all
    note facts = uuid_generate_time_eq [OF ok r] and after = generator_ok_after [OF ok r]
    have steady: "steady s g'" "\<forall>(u, g'')\<in>set (generate_times es rest g'). steady s g''"
      using "2.prems"(7) r by auto
    have IH: "stamped g' (generate_times es rest g')"
      using "2.prems"(5) facts(2,3) after steady by (intro "2.IH" [OF r refl refl]) simp_all
    have less: "ticks (gen_clock g) < ticks (gen_clock g')"
      using facts(7) [OF "2.prems"(3)] steady(1) "2.prems"(4) by (auto simp: steady_def advances_def)
    have node: "node_id g' = node_id g" using facts(6) "2.prems"(2) by simp
    have "distinct (u # map fst (generate_times es rest g'))"
      using stamped_Cons [OF facts(2,4) IH] facts(1) by simp
    with IH less node facts(1,2) show ?thesis
      by (auto simp: r stamped_def intro: less_trans)
  qed (simp add: stamped_def)
qed (simp add: stamped_def)

text \<open>The version and the variant.\<close>

lemma version_variant:
  fixes w :: u32 and h q s :: u16
  shows "drop_bit 12 (ucast ((w AND 0x0FFF) OR 0x1000) :: u16) = 1"
    "drop_bit 12 ((h AND 0x0FFF) OR 0x4000) = 4" "drop_bit 14 ((q AND 0x3FFF) OR 0x8000) = 2"
    "s AND 0x3FFF = s \<Longrightarrow> drop_bit 14 (s OR 0x8000) = 2"
proof -
  have v1: "(w AND 0x0FFF) OR 0x1000 = take_bit 12 w OR push_bit 12 1"
    and v2: "(h AND 0x0FFF) OR 0x4000 = take_bit 12 h OR push_bit 14 1"
    and v3: "(q AND 0x3FFF) OR 0x8000 = take_bit 14 q OR push_bit 15 1" for q :: u16
    by (simp_all add: take_bit_eq_mask mask_eq_exp_minus_1)
  have four: "(4 :: u16) = push_bit 2 1" and two: "(2 :: u16) = push_bit 1 1" by simp_all
  show "drop_bit 12 (ucast ((w AND 0x0FFF) OR 0x1000) :: u16) = 1"
    unfolding v1 by (rule bit_word_eqI) (auto simp: bit_simps bit_1_iff simp del: push_bit_of_1)
  show "drop_bit 12 ((h AND 0x0FFF) OR 0x4000) = 4"
    unfolding v2 four by (rule bit_word_eqI) (auto simp: bit_simps bit_1_iff simp del: push_bit_of_1)
  show v: "drop_bit 14 ((q AND 0x3FFF) OR 0x8000) = 2" for q :: u16
    unfolding v3 two by (rule bit_word_eqI) (auto simp: bit_simps bit_1_iff simp del: push_bit_of_1)
  show "drop_bit 14 (s OR 0x8000) = 2" if "s AND 0x3FFF = s" using v [of s] that by simp
qed

lemma generated_time:
  assumes "generator_ok g" "\<forall>e\<in>set es. surroundings_ok e" "\<forall>tv\<in>set tvs. valid_time tv"
    "(u, g') \<in> set (generate_times es tvs g)"
  shows "\<exists>n. length n = 6 \<and> u = uuid_pack (time_uuid n (gen_clock g')) \<and> running (gen_clock g')"
  using assms
proof (induction es tvs g rule: generate_times.induct)
  case (2 e es tvs g)
  show ?case
  proof (cases "uuid_generate_time e tvs g")
    case (Some r)
    then obtain v h rest where r: "uuid_generate_time e tvs g = Some ((v, h), rest)" by (cases r) auto
    have ok: "generator_ok g" "surroundings_ok e" "\<forall>tv\<in>set tvs. valid_time tv" using "2.prems" by simp_all
    note facts = uuid_generate_time_eq [OF ok r] and after = generator_ok_after [OF ok r]
    from "2.prems"(4) r consider "u = v" "g' = h" | "(u, g') \<in> set (generate_times es rest h)" by auto
    then show ?thesis
    proof cases
      case 1
      with facts show ?thesis by blast
    next
      case 2
      then show ?thesis using "2.IH" [OF r refl refl after(1) _ after(2)] "2.prems"(2) by simp
    qed
  qed (use "2.prems"(4) in simp)
qed simp

definition time_variant :: "u16 \<Rightarrow> u8 list \<Rightarrow> bool" where
  "time_variant version u \<longleftrightarrow> drop_bit 12 (time_hi_and_version (uuid_unpack u)) = version \<and>
     drop_bit 14 (clock_seq (uuid_unpack u)) = 2"

lemma time_uuid_variant:
  assumes "length n = 6" "running c"
  shows "time_variant 1 (uuid_pack (time_uuid n c))"
proof -
  have "uuid_unpack (uuid_pack (time_uuid n c)) = time_uuid n c"
    using assms(1) by (intro unpack_pack) (simp add: time_uuid_def)
  then show ?thesis using assms(2) version_variant(4) [of "cur_seq c"]
    by (simp add: time_variant_def time_uuid_def version_variant(1) running_def)
qed

lemma random_uuid_variant:
  assumes "length buf = 16"
  shows "time_variant 4 (uuid_generate_random buf)"
proof -
  define uu where "uu = uuid_unpack buf"
  have "length (node uu) = 6" using assms by (simp add: uu_def uuid_unpack_def)
  then show ?thesis
    by (simp add: uuid_generate_random_def Let_def time_variant_def unpack_pack version_variant flip: uu_def)
qed

lemma generate_times_distinct:
  assumes "generator_ok g" "running (gen_clock g) \<Longrightarrow> has_init g \<and> steady s g"
    "\<forall>e\<in>set es. surroundings_ok e" "\<forall>tv\<in>set tvs. valid_time tv"
    "\<forall>(u, g')\<in>set (generate_times es tvs g). steady s g'"
  shows "distinct (map fst (generate_times es tvs g))"
proof (cases "running (gen_clock g)")
  case True
  with assms generate_times_stamped [of g s es tvs] show ?thesis by (simp add: stamped_def)
next
  case False
  show ?thesis
  proof (cases es)
    case (Cons e es')
    show ?thesis
    proof (cases "uuid_generate_time e tvs g")
      case (Some r)
      then obtain u g' rest where r: "uuid_generate_time e tvs g = Some ((u, g'), rest)" by (cases r) auto
      have e: "surroundings_ok e" using assms(3) Cons by simp
      note facts = uuid_generate_time_eq [OF assms(1) e assms(4) r]
        and after = generator_ok_after [OF assms(1) e assms(4) r]
      have "stamped g' (generate_times es' rest g')"
        by (rule generate_times_stamped [OF after(1) facts(3,2)]) (use assms(3,5) after Cons r in auto)
      from stamped_Cons [OF facts(2,4) this] facts(1) show ?thesis by (simp add: Cons r)
    qed (simp add: Cons)
  qed simp
qed

section \<open>Properties\<close>

lemma time_uuid_facts:
  assumes "generator_ok g" "running (gen_clock g) \<Longrightarrow> has_init g \<and> steady s g"
    "\<forall>e\<in>set es. surroundings_ok e" "\<forall>tv\<in>set tvs. valid_time tv"
    "\<forall>(u, g')\<in>set (generate_times es tvs g). steady s g'" "length buf = 16"
  shows "distinct (map fst (generate_times es tvs g))"
    "\<forall>(u, g')\<in>set (generate_times es tvs g). time_variant 1 u" "time_variant 4 (uuid_generate_random buf)"
proof -
  show "time_variant 4 (uuid_generate_random buf)" by (rule random_uuid_variant [OF assms(6)])
  show "\<forall>(u, g')\<in>set (generate_times es tvs g). time_variant 1 u"
    using generated_time [OF assms(1,3,4)] time_uuid_variant by blast
  show "distinct (map fst (generate_times es tvs g))"
    by (rule generate_times_distinct [OF assms(1-5)])
qed

text \<open>
  C38: Identifiers of the time are different, as long as the clock is not set back (the sequence number
  stays) and less than eleven identifiers are made in one microsecond. They are of version 1
  and of the DCE variant, and those made of 16 random bytes are of version 4 and that variant.
\<close>

theorem time_uuids_differ:
  assumes "generator_ok g" "running (gen_clock g) \<Longrightarrow> has_init g \<and> steady s g"
    "\<forall>e\<in>set es. surroundings_ok e" "\<forall>tv\<in>set tvs. valid_time tv"
    "\<forall>(u, g')\<in>set (generate_times es tvs g). steady s g'" "length buf = 16"
  shows "distinct (map fst (generate_times es tvs g)) \<and>
    (\<forall>(u, g')\<in>set (generate_times es tvs g). time_variant 1 u) \<and>
    time_variant 4 (uuid_generate_random buf)"
  by (intro conjI time_uuid_facts [OF assms])

text \<open>Two identifiers at one time differ; the twelfth of these is the eleventh again.\<close>

definition example_surroundings :: surroundings where
  "example_surroundings = \<lparr>hardware = Some [2, 3, 5, 7, 11, 13], random_node = replicate 6 0, random_seq = 77\<rparr>"

definition example_time :: timeval where "example_time = \<lparr>tv_sec = 1350000000, tv_usec = 17\<rparr>"

lemma time_uuids_differ_witness:
  "distinct (map fst (generate_times (replicate 2 example_surroundings) (replicate 2 example_time) generator_start))"
proof (rule time_uuids_differ [THEN conjunct1])
  show "generator_ok generator_start" by (simp add: generator_ok_def generator_start_def clock_ok_def)
  show "running (gen_clock generator_start) \<Longrightarrow> has_init generator_start \<and> steady 77 generator_start"
    by (simp add: running_def generator_start_def clock_start_def valid_time_def)
  show "\<forall>e\<in>set (replicate 2 example_surroundings). surroundings_ok e"
    by (simp add: surroundings_ok_def example_surroundings_def)
  show "\<forall>tv\<in>set (replicate 2 example_time). valid_time tv"
    by (simp add: valid_time_def example_time_def)
  show "\<forall>(u, g')\<in>set (generate_times (replicate 2 example_surroundings) (replicate 2 example_time) generator_start).
      steady 77 g'"
    by code_simp
  show "length (replicate 16 (0 :: u8)) = 16" by simp
qed

lemma time_uuids_collide:
  "\<not> distinct (map fst (generate_times (replicate 12 example_surroundings)
     (replicate 11 example_time @ [example_time\<lparr>tv_usec := 18\<rparr>]) generator_start))"
  by code_simp

end
