(* ===== verification/Inet.thy ===== *)
theory Inet
  imports Uuid
begin

text \<open>
  Internet addresses and their text (src/core/inet_aton.c, inet_addr.c, inet_ntoa.c, inet_ntop.c,
  inet_pton.c). A pointer into a string is the rest of the string from there, up to its NUL; an
  \<open>in_addr_t\<close> is a 32-bit word of the little-endian machine, other addresses are lists of bytes.
\<close>

section \<open>Strings and byte order\<close>

definition deref :: "u8 list \<Rightarrow> u8" where
  "deref s = (case s of [] \<Rightarrow> 0 | c # _ \<Rightarrow> c)"

text \<open>The character a \<open>char\<close> variable holds: it is signed.\<close>

definition schar :: "u8 list \<Rightarrow> int" where "schar s = sint (deref s)"

definition htonl :: "u32 \<Rightarrow> u32" where
  "htonl x = push_bit 24 (x AND 0xff) OR push_bit 8 (x AND 0xff00) OR
     (drop_bit 8 x AND 0xff00) OR drop_bit 24 x"

text \<open>The bytes of a word in memory.\<close>

definition addr_bytes :: "u32 \<Rightarrow> u8 list" where
  "addr_bytes x = [ucast x, ucast (drop_bit 8 x), ucast (drop_bit 16 x), ucast (drop_bit 24 x)]"

text \<open>The conversion \<open>u\<close> of \<open>printf\<close>.\<close>

fun dec_string :: "nat \<Rightarrow> u8 list" where
  "dec_string n = (if n < 10 then [of_nat (48 + n)] else dec_string (n div 10) @ [of_nat (48 + n mod 10)])"

declare dec_string.simps [simp del]

definition dotted_quad :: "u8 \<Rightarrow> u8 \<Rightarrow> u8 \<Rightarrow> u8 \<Rightarrow> u8 list" where
  "dotted_quad a b c d = dec_string (unat a) @ 46 # dec_string (unat b) @ 46 # dec_string (unat c) @ 46 #
     dec_string (unat d)"

section \<open>inet aton\<close>

text \<open>The digits of one number: its value and the rest of the string.\<close>

fun aton_digits :: "u32 \<Rightarrow> u32 \<Rightarrow> u8 list \<Rightarrow> u32 \<times> u8 list" where
  "aton_digits base val cp =
     (let c = schar cp in
      if cp \<noteq> [] \<and> isascii c \<and> isdigit c then aton_digits base (val * base + word_of_int (c - 48)) (tl cp)
      else if cp \<noteq> [] \<and> base = 16 \<and> isascii c \<and> isxdigit c then
        aton_digits base (push_bit 4 val OR word_of_int (c + 10 - (if islower c then 97 else 65))) (tl cp)
      else (val, cp))"

declare aton_digits.simps [simp del]

definition aton_base :: "u8 list \<Rightarrow> u32 \<times> u8 list" where
  "aton_base cp =
     (if schar cp = 48 then
        (let cp = tl cp in
         if schar cp = 120 \<or> schar cp = 88 then (16, tl cp) else (8, cp))
      else (10, cp))"

function aton_parts :: "u32 list \<Rightarrow> u8 list \<Rightarrow> (u32 list \<times> u32 \<times> u8 list) option" where
  "aton_parts parts cp =
     (if \<not> isdigit (schar cp) then None
      else (case aton_base cp of (base, cp) \<Rightarrow>
       (case aton_digits base 0 cp of (val, cp) \<Rightarrow>
        if schar cp = 46 then
          (if length parts \<ge> 3 then None else aton_parts (parts @ [val]) (tl cp))
        else Some (parts, val, cp))))"
  by auto
termination by (relation "measure (\<lambda>(parts, cp). 3 - length parts)") auto

declare aton_parts.simps [simp del]

text \<open>Putting the parts together; \<open>None\<close> is the result 0.\<close>

definition aton_concoct :: "u32 list \<Rightarrow> u32 \<Rightarrow> u32 option" where
  "aton_concoct parts val =
     (if length parts = 0 then Some val
      else if length parts = 1 then
        (if val > 0xffffff \<or> parts ! 0 > 0xff then None else Some (val OR push_bit 24 (parts ! 0)))
      else if length parts = 2 then
        (if val > 0xffff \<or> parts ! 0 > 0xff \<or> parts ! 1 > 0xff then None
         else Some (val OR (push_bit 24 (parts ! 0) OR push_bit 16 (parts ! 1))))
      else
        (if val > 0xff \<or> parts ! 0 > 0xff \<or> parts ! 1 > 0xff \<or> parts ! 2 > 0xff then None
         else Some (val OR (push_bit 24 (parts ! 0) OR push_bit 16 (parts ! 1) OR push_bit 8 (parts ! 2)))))"

definition inet_aton :: "u8 list \<Rightarrow> u32 option" where
  "inet_aton cp =
     (case aton_parts [] cp of
        None \<Rightarrow> None
      | Some (parts, val, cp) \<Rightarrow>
          if schar cp \<noteq> 0 \<and> (\<not> isascii (schar cp) \<or> \<not> isspace (schar cp)) then None
          else map_option htonl (aton_concoct parts val))"

definition INADDR_NONE :: u32 where "INADDR_NONE = 0xffffffff"

definition inet_addr :: "u8 list \<Rightarrow> u32" where
  "inet_addr cp = (case inet_aton cp of Some s_addr \<Rightarrow> s_addr | None \<Rightarrow> INADDR_NONE)"

definition inet_ntoa :: "u32 \<Rightarrow> u8 list" where
  "inet_ntoa addr = (let p = addr_bytes addr in dotted_quad (p ! 0) (p ! 1) (p ! 2) (p ! 3))"

section \<open>inet pton\<close>

fun pton4_digits :: "u32 \<Rightarrow> u32 \<Rightarrow> u8 list \<Rightarrow> u32 \<times> u8 list" where
  "pton4_digits base val src =
     (let c = uint (deref src) in
      if src \<noteq> [] \<and> isdigit c then
        (let digit = word_of_int (c - 48) in
         if digit \<ge> base then (val, src) else pton4_digits base (val * base + digit) (tl src))
      else if src \<noteq> [] \<and> base = 16 \<and> isxdigit c then
        (let digit = word_of_int (c + 10 - (if islower c then 97 else 65)) in
         if digit \<ge> 16 then (val, src) else pton4_digits base (push_bit 4 val OR digit) (tl src))
      else (val, src))"

declare pton4_digits.simps [simp del]

definition pton4_base :: "u8 list \<Rightarrow> u32 \<times> u8 list" where
  "pton4_base src =
     (if deref src = 48 then
        (let src = tl src in
         if deref src = 120 \<or> deref src = 88 then (16, tl src)
         else if isdigit (uint (deref src)) \<and> deref src \<noteq> 57 then (8, src) else (10, src))
      else (10, src))"

function pton4_parts :: "bool \<Rightarrow> u32 list \<Rightarrow> u8 list \<Rightarrow> (u32 list \<times> u32 \<times> u8 list) option" where
  "pton4_parts pton parts src =
     (if \<not> isdigit (uint (deref src)) then None
      else (case pton4_base src of (base, src) \<Rightarrow>
       if pton \<and> base \<noteq> 10 then None
       else (case pton4_digits base 0 src of (val, src) \<Rightarrow>
        if deref src = 46 then
          (if length parts \<ge> 3 then None else pton4_parts pton (parts @ [val]) (tl src))
        else Some (parts, val, src))))"
  by auto
termination by (relation "measure (\<lambda>(pton, parts, src). 3 - length parts)") auto

declare pton4_parts.simps [simp del]

definition pton4_concoct :: "u32 list \<Rightarrow> u32 \<Rightarrow> u32 option" where
  "pton4_concoct parts val =
     (if length parts = 0 then Some val
      else if length parts = 1 then
        (if parts ! 0 > 0xff \<or> val > 0xffffff then None else Some (val OR push_bit 24 (parts ! 0)))
      else if length parts = 2 then
        (if (parts ! 0 OR parts ! 1) > 0xff \<or> val > 0xffff then None
         else Some (val OR (push_bit 24 (parts ! 0) OR push_bit 16 (parts ! 1))))
      else
        (if (parts ! 0 OR parts ! 1 OR parts ! 2 OR val) > 0xff then None
         else Some (val OR (push_bit 24 (parts ! 0) OR push_bit 16 (parts ! 1) OR push_bit 8 (parts ! 2)))))"

definition inet_pton4 :: "u8 list \<Rightarrow> bool \<Rightarrow> u8 list option" where
  "inet_pton4 src pton =
     (case pton4_parts pton [] src of
        None \<Rightarrow> None
      | Some (parts, val, src) \<Rightarrow>
          if deref src \<noteq> 0 \<and> \<not> isspace (uint (deref src)) then None
          else if pton \<and> length parts + 1 \<noteq> 4 then None
          else map_option (\<lambda>val. addr_bytes (htonl val)) (pton4_concoct parts val))"

text \<open>The position \<open>strchr\<close> finds in one of the two lists of digits.\<close>

definition xdigits_l :: "u8 list" where
  "xdigits_l = [48, 49, 50, 51, 52, 53, 54, 55, 56, 57, 97, 98, 99, 100, 101, 102]"

definition xdigits_u :: "u8 list" where
  "xdigits_u = [48, 49, 50, 51, 52, 53, 54, 55, 56, 57, 65, 66, 67, 68, 69, 70]"

fun strchr_at :: "u8 list \<Rightarrow> u8 \<Rightarrow> nat option" where
  "strchr_at [] c = None"
| "strchr_at (d # ds) c = (if d = c then Some 0 else map_option Suc (strchr_at ds c))"

definition xdigit_value :: "u8 \<Rightarrow> nat option" where
  "xdigit_value ch = (case strchr_at xdigits_l ch of Some i \<Rightarrow> Some i | None \<Rightarrow> strchr_at xdigits_u ch)"

text \<open>The variables of \<open>inet_pton6\<close>: \<open>tp\<close> and \<open>colonp\<close> are offsets in \<open>tmp\<close>.\<close>

record pton6 =
  p6_curtok :: "u8 list"
  p6_seen :: nat
  p6_val :: u32
  p6_tmp :: "u8 list"
  p6_tp :: nat
  p6_colonp :: "nat option"

definition put_word :: "pton6 \<Rightarrow> pton6 option" where
  "put_word p =
     (if p6_tp p + 2 > 16 then None
      else Some (p\<lparr>p6_tmp := (p6_tmp p)[p6_tp p := ucast (drop_bit 8 (p6_val p)), p6_tp p + 1 := ucast (p6_val p)],
        p6_tp := p6_tp p + 2\<rparr>))"

fun pton6_loop :: "u8 list \<Rightarrow> pton6 \<Rightarrow> pton6 option" where
  "pton6_loop [] p = Some p"
| "pton6_loop (ch # src) p =
     (if ch = 0 then Some p
      else (case xdigit_value ch of
        Some d \<Rightarrow>
          (let p = p\<lparr>p6_val := push_bit 4 (p6_val p) OR of_nat d, p6_seen := p6_seen p + 1\<rparr> in
           if p6_seen p > 4 then None else pton6_loop src p)
      | None \<Rightarrow>
          if ch = 58 then
            (let p = p\<lparr>p6_curtok := src\<rparr> in
             if p6_seen p = 0 then
               (if p6_colonp p \<noteq> None then None
                else pton6_loop src (p\<lparr>p6_colonp := Some (p6_tp p)\<rparr>))
             else if deref src = 0 then None
             else (case put_word p of
                 None \<Rightarrow> None
               | Some p \<Rightarrow> pton6_loop src (p\<lparr>p6_seen := 0, p6_val := 0\<rparr>)))
          else if ch = 46 \<and> p6_tp p + 4 \<le> 16 then
            (case inet_pton4 (p6_curtok p) True of
               None \<Rightarrow> None
             | Some bs \<Rightarrow> Some (p\<lparr>p6_tmp := take (p6_tp p) (p6_tmp p) @ bs @ drop (p6_tp p + 4) (p6_tmp p),
                 p6_tp := p6_tp p + 4, p6_seen := 0\<rparr>))
          else None))"

text \<open>Moving what was read after the double colon to the end.\<close>

primrec shift_loop :: "nat \<Rightarrow> nat \<Rightarrow> nat \<Rightarrow> u8 list \<Rightarrow> u8 list" where
  "shift_loop n colonp 0 tmp = tmp"
| "shift_loop n colonp (Suc i) tmp =
     (let tmp = shift_loop n colonp i tmp in
      (tmp[16 - Suc i := tmp ! (colonp + (n - Suc i))])[colonp + (n - Suc i) := 0])"

definition inet_pton6 :: "u8 list \<Rightarrow> u8 list option" where
  "inet_pton6 src =
     (if deref src = 58 \<and> deref (tl src) \<noteq> 58 then None
      else let src = (if deref src = 58 then tl src else src) in
       (case pton6_loop src \<lparr>p6_curtok = src, p6_seen = 0, p6_val = 0, p6_tmp = replicate 16 0,
            p6_tp = 0, p6_colonp = None\<rparr> of
          None \<Rightarrow> None
        | Some p \<Rightarrow>
            (case (if p6_seen p \<noteq> 0 then put_word p else Some p) of
               None \<Rightarrow> None
             | Some p \<Rightarrow>
                 (case p6_colonp p of
                    None \<Rightarrow> if p6_tp p \<noteq> 16 then None else Some (p6_tmp p)
                  | Some colonp \<Rightarrow>
                      if p6_tp p = 16 then None
                      else (let n = p6_tp p - colonp in Some (shift_loop n colonp n (p6_tmp p)))))))"

datatype family = AF_INET | AF_INET6 | AF_OTHER

definition inet_pton :: "family \<Rightarrow> u8 list \<Rightarrow> u8 list option" where
  "inet_pton af src = (case af of AF_INET \<Rightarrow> inet_pton4 src True | AF_INET6 \<Rightarrow> inet_pton6 src | AF_OTHER \<Rightarrow> None)"

section \<open>inet ntop\<close>

text \<open>The text, without its NUL, if it fits into \<open>size\<close> bytes with it.\<close>

definition inet_ntop4 :: "u8 list \<Rightarrow> nat \<Rightarrow> u8 list option" where
  "inet_ntop4 src sz =
     (let s = dotted_quad (src ! 0) (src ! 1) (src ! 2) (src ! 3) in
      if length s = 0 \<or> length s \<ge> sz then None else Some s)"

definition addr_words :: "u8 list \<Rightarrow> u32 list" where
  "addr_words src = map (\<lambda>i. push_bit 8 (ucast (src ! (2 * i))) OR ucast (src ! (2 * i + 1))) [0..<8]"

record zero_span =
  run_base :: int
  run_len :: int

fun best_step :: "u32 list \<Rightarrow> nat \<Rightarrow> zero_span \<times> zero_span \<Rightarrow> zero_span \<times> zero_span" where
  "best_step words i (best, cur) =
     (if words ! i = 0 then
        (if run_base cur = -1 then (best, \<lparr>run_base = int i, run_len = 1\<rparr>)
         else (best, cur\<lparr>run_len := run_len cur + 1\<rparr>))
      else if run_base cur \<noteq> -1 then
        ((if run_base best = -1 \<or> run_len cur > run_len best then cur else best), cur\<lparr>run_base := -1\<rparr>)
      else (best, cur))"

definition best_run :: "u32 list \<Rightarrow> zero_span" where
  "best_run words =
     (case fold (best_step words) [0..<8] (\<lparr>run_base = -1, run_len = 0\<rparr>, \<lparr>run_base = -1, run_len = 0\<rparr>) of
        (best, cur) \<Rightarrow>
          let best = (if run_base cur \<noteq> -1 \<and> (run_base best = -1 \<or> run_len cur > run_len best) then cur else best) in
          if run_base best \<noteq> -1 \<and> run_len best < 2 then best\<lparr>run_base := -1\<rparr> else best)"

text \<open>\<open>out\<close> is what has been written to \<open>tmp\<close>, which has 46 bytes.\<close>

definition put_char :: "u8 \<Rightarrow> u8 list \<Rightarrow> u8 list option" where
  "put_char c out = (if length out + 1 \<ge> 46 then None else Some (out @ [c]))"

function ntop6_loop :: "u8 list \<Rightarrow> u32 list \<Rightarrow> zero_span \<Rightarrow> nat \<Rightarrow> u8 list \<Rightarrow> u8 list option" where
  "ntop6_loop src words best i out =
     (if i < 8 \<and> length out < 46 then
        (if run_base best \<noteq> -1 \<and> int i \<ge> run_base best \<and> int i < run_base best + run_len best then
           (if int i = run_base best then
              (case put_char 58 out of None \<Rightarrow> None | Some out \<Rightarrow> ntop6_loop src words best (i + 1) out)
            else ntop6_loop src words best (i + 1) out)
         else
           (case (if i \<noteq> 0 then put_char 58 out else Some out) of
              None \<Rightarrow> None
            | Some out \<Rightarrow>
                if i = 6 \<and> run_base best = 0 \<and>
                   (run_len best = 6 \<or> (run_len best = 5 \<and> words ! 5 = 0xffff)) then
                  (case inet_ntop4 (drop 12 src) (46 - length out) of
                     None \<Rightarrow> None
                   | Some s \<Rightarrow> Some (out @ s))
                else
                  (let s = hex_string False (unat (words ! i)) in
                   if length s = 0 \<or> length s \<ge> 46 - length out then None
                   else ntop6_loop src words best (i + 1) (out @ s))))
      else Some out)"
  by pat_completeness auto
termination by (relation "measure (\<lambda>(src, words, best, i, out). 8 - i)") auto

declare ntop6_loop.simps [simp del]

definition inet_ntop6 :: "u8 list \<Rightarrow> nat \<Rightarrow> u8 list option" where
  "inet_ntop6 src sz =
     (let words = addr_words src; best = best_run words in
      case ntop6_loop src words best 0 [] of
        None \<Rightarrow> None
      | Some out \<Rightarrow>
          (case (if run_base best \<noteq> -1 \<and> run_base best + run_len best = 8 then put_char 58 out else Some out) of
             None \<Rightarrow> None
           | Some out \<Rightarrow>
               if length out + 1 \<ge> 46 then None
               else if length out + 1 > sz then None
               else Some out))"

definition inet_ntop :: "family \<Rightarrow> u8 list \<Rightarrow> nat \<Rightarrow> u8 list option" where
  "inet_ntop af src sz =
     (case af of AF_INET \<Rightarrow> inet_ntop4 src sz | AF_INET6 \<Rightarrow> inet_ntop6 src sz | AF_OTHER \<Rightarrow> None)"

section \<open>Decimal numbers\<close>

definition dec_number :: "nat \<Rightarrow> u8 list \<Rightarrow> bool" where
  "dec_number n ds \<longleftrightarrow> ds \<noteq> [] \<and> number_value 10 ds = int n \<and> (\<forall>d\<in>set ds. digit 10 (uint d) \<noteq> None) \<and>
     (if n = 0 then ds = [48] else hd ds \<noteq> 48)"

lemma dec_char:
  assumes "d < 10"
  shows "digit 10 (uint (of_nat (48 + d) :: u8)) = Some (int d)" "d \<noteq> 0 \<Longrightarrow> (of_nat (48 + d) :: u8) \<noteq> 48"
proof -
  have "\<forall>d\<in>set [0..<10]. digit 10 (uint (of_nat (48 + d) :: u8)) = Some (int d) \<and>
      (d \<noteq> 0 \<longrightarrow> (of_nat (48 + d) :: u8) \<noteq> 48)"
    by (simp add: upt_rec digit_def char_ranges)
  with assms show "digit 10 (uint (of_nat (48 + d) :: u8)) = Some (int d)"
    "d \<noteq> 0 \<Longrightarrow> (of_nat (48 + d) :: u8) \<noteq> 48"
    by auto
qed

lemma dec_string_number: "dec_number n (dec_string n)"
proof (induction n rule: dec_string.induct)
  case (1 n)
  show ?case
  proof (cases "n < 10")
    case True
    then show ?thesis
      using dec_char [of n] by (subst dec_string.simps) (auto simp: dec_number_def)
  next
    case False
    then show ?thesis
      using 1 dec_char(1) [of "n mod 10"]
      by (subst dec_string.simps) (auto simp: dec_number_def number_value_append zdiv_int zmod_int split: if_splits)
  qed
qed

lemma dec_string_length: assumes "n < 256"
  shows "0 < length (dec_string n) \<and> length (dec_string n) \<le> 3"
proof -
  have 1: "length (dec_string n) = 1" if "n < 10" for n
    using that by (subst dec_string.simps) simp
  have 2: "length (dec_string n) \<le> 2" if "n < 100" for n
    using that 1 [of "n div 10"] by (subst dec_string.simps) simp
  have "length (dec_string n) \<le> 3" if "n < 1000" for n
    using that 2 [of "n div 10"] by (subst dec_string.simps) simp
  moreover have "dec_string n \<noteq> []" by (subst dec_string.simps) simp
  ultimately show ?thesis using assms by simp
qed

text \<open>What may follow a number in a dotted address.\<close>

definition dot_or_end :: "u8 list \<Rightarrow> bool" where
  "dot_or_end s \<longleftrightarrow> s = [] \<or> hd s = 46"

lemma dot_or_end_simps [simp]: "dot_or_end []" "dot_or_end (c # s) \<longleftrightarrow> c = 46"
  by (simp_all add: dot_or_end_def)

lemma dot_or_end_chars:
  assumes "dot_or_end s"
  shows "schar s \<in> {0, 46}" "deref s \<in> {0, 46}"
  using assms by (auto simp: dot_or_end_def schar_def deref_def split: list.splits)

lemma schar_digit: "digit 10 (uint d) = Some v \<Longrightarrow> schar (d # s) = uint d \<and> isdigit (uint d) \<and> v = uint d - 48 \<and> isascii (uint d)"
  using digit_char(4) [of 10 d v] digit_bounds [of 10 "uint d" v]
  by (auto simp: schar_def deref_def digit_def isascii_iff char_ranges Let_def split: if_splits)

lemma aton_digits_run:
  assumes "\<forall>d\<in>set ds. digit 10 (uint d) \<noteq> None" "dot_or_end rest"
  shows "aton_digits 10 (word_of_int v) (ds @ rest) =
    (word_of_int (foldl (\<lambda>v d. v * 10 + d) v (digit_values 10 ds)), rest)"
  using assms(1)
proof (induction ds arbitrary: v)
  case Nil
  have "\<not> isdigit (schar rest)" "\<not> (10 :: u32) = 16"
    using dot_or_end_chars(1) [OF assms(2)] by (auto simp: char_ranges)
  then show ?case by (subst aton_digits.simps) (simp add: Let_def digit_values_def)
next
  case (Cons d ds)
  then obtain x where x: "digit 10 (uint d) = Some x" by auto
  note d = schar_digit [OF x, of "ds @ rest"]
  have "aton_digits 10 (word_of_int v) ((d # ds) @ rest) = aton_digits 10 (word_of_int (v * 10 + x)) (ds @ rest)"
    using d by (subst aton_digits.simps) (simp add: Let_def)
  also have "\<dots> = (word_of_int (foldl (\<lambda>v d. v * 10 + d) (v * 10 + x) (digit_values 10 ds)), rest)"
    by (rule Cons.IH) (use Cons.prems in simp)
  finally show ?case using x by (simp add: digit_values_def)
qed

lemma pton4_digits_run:
  assumes "\<forall>d\<in>set ds. digit 10 (uint d) \<noteq> None" "dot_or_end rest"
  shows "pton4_digits 10 (word_of_int v) (ds @ rest) =
    (word_of_int (foldl (\<lambda>v d. v * 10 + d) v (digit_values 10 ds)), rest)"
  using assms(1)
proof (induction ds arbitrary: v)
  case Nil
  have "\<not> isdigit (uint (deref rest))" "\<not> (10 :: u32) = 16"
    using dot_or_end_chars(2) [OF assms(2)] by (auto simp: char_ranges)
  then show ?case by (subst pton4_digits.simps) (simp add: Let_def digit_values_def)
next
  case (Cons d ds)
  then obtain x where x: "digit 10 (uint d) = Some x" by auto
  note d = schar_digit [OF x, of "ds @ rest"] digit_bounds [OF x]
  have "0 \<le> x" "x < 10" using d by auto
  then have "\<not> (10 :: u32) \<le> word_of_int x" by (simp add: word_le_def uint_word_of_int_eq take_bit_int_eq_self)
  then have "pton4_digits 10 (word_of_int v) ((d # ds) @ rest) = pton4_digits 10 (word_of_int (v * 10 + x)) (ds @ rest)"
    using d by (subst pton4_digits.simps) (simp add: Let_def deref_def)
  also have "\<dots> = (word_of_int (foldl (\<lambda>v d. v * 10 + d) (v * 10 + x) (digit_values 10 ds)), rest)"
    by (rule Cons.IH) (use Cons.prems in simp)
  finally show ?case using x by (simp add: digit_values_def)
qed

lemma number_value_foldl: "number_value 10 ds = foldl (\<lambda>v d. v * 10 + d) 0 (digit_values 10 ds)"
  by (simp add: number_value_def)

lemma aton_parts_step:
  assumes "dec_number n ds" "dot_or_end rest"
  shows "aton_parts parts (ds @ rest) =
    (if schar rest = 46 then (if length parts \<ge> 3 then None else aton_parts (parts @ [of_nat n]) (tl rest))
     else Some (parts, of_nat n, rest))"
proof -
  obtain d ds' where ds: "ds = d # ds'" using assms(1) by (cases ds) (auto simp: dec_number_def)
  have dg: "\<forall>d\<in>set ds. digit 10 (uint d) \<noteq> None" using assms(1) by (simp add: dec_number_def)
  then obtain x where x: "digit 10 (uint d) = Some x" using ds by auto
  note d = schar_digit [OF x, of "ds' @ rest"]
  have "\<exists>b s. aton_base (ds @ rest) = (b, s) \<and> aton_digits b 0 s = (of_nat n, rest)"
  proof (cases "n = 0")
    case True
    then have "ds = [48]" using assms(1) by (simp add: dec_number_def)
    moreover have "aton_digits 8 0 rest = (0, rest)"
      using dot_or_end_chars(1) [OF assms(2)] by (subst aton_digits.simps) (auto simp: Let_def char_ranges)
    ultimately show ?thesis
      using True dot_or_end_chars(1) [OF assms(2)] by (auto simp: aton_base_def Let_def schar_def deref_def)
  next
    case False
    then have "d \<noteq> 48" using assms(1) ds by (simp add: dec_number_def)
    then have "schar (ds @ rest) \<noteq> 48" using d ds by (simp add: word_uint_eq_iff)
    moreover have "aton_digits 10 0 (ds @ rest) = (of_nat n, rest)"
      using aton_digits_run [OF dg assms(2), of 0] assms(1) by (simp add: dec_number_def flip: number_value_foldl)
    ultimately show ?thesis by (auto simp: aton_base_def)
  qed
  with d ds show ?thesis by (subst aton_parts.simps) auto
qed

lemma pton4_parts_step:
  assumes "dec_number n ds" "dot_or_end rest"
  shows "pton4_parts pton parts (ds @ rest) =
    (if deref rest = 46 then (if length parts \<ge> 3 then None else pton4_parts pton (parts @ [of_nat n]) (tl rest))
     else Some (parts, of_nat n, rest))"
proof -
  obtain d ds' where ds: "ds = d # ds'" using assms(1) by (cases ds) (auto simp: dec_number_def)
  have dg: "\<forall>d\<in>set ds. digit 10 (uint d) \<noteq> None" using assms(1) by (simp add: dec_number_def)
  then obtain x where x: "digit 10 (uint d) = Some x" using ds by auto
  note d = schar_digit [OF x, of "ds' @ rest"]
  have "\<exists>s. pton4_base (ds @ rest) = (10, s) \<and> pton4_digits 10 0 s = (of_nat n, rest)"
  proof (cases "n = 0")
    case True
    then have "ds = [48]" using assms(1) by (simp add: dec_number_def)
    moreover have "pton4_digits 10 0 rest = (0, rest)"
      using dot_or_end_chars(2) [OF assms(2)] by (subst pton4_digits.simps) (auto simp: Let_def char_ranges)
    ultimately show ?thesis
      using True dot_or_end_chars(2) [OF assms(2)] by (auto simp: pton4_base_def Let_def deref_def char_ranges)
  next
    case False
    then have "deref (ds @ rest) \<noteq> 48" using assms(1) ds by (simp add: dec_number_def deref_def)
    moreover have "pton4_digits 10 0 (ds @ rest) = (of_nat n, rest)"
      using pton4_digits_run [OF dg assms(2), of 0] assms(1) by (simp add: dec_number_def flip: number_value_foldl)
    ultimately show ?thesis by (auto simp: pton4_base_def)
  qed
  with d ds show ?thesis by (subst pton4_parts.simps) (auto simp: deref_def)
qed

lemma quad_parts:
  "aton_parts [] (dotted_quad a b c d) = Some ([ucast a, ucast b, ucast c], ucast d, [])"
  "pton4_parts pton [] (dotted_quad a b c d) = Some ([ucast a, ucast b, ucast c], ucast d, [])"
proof -
  have step: "aton_parts parts (dec_string (unat (x :: u8)) @ rest) =
      (if schar rest = 46 then (if length parts \<ge> 3 then None else aton_parts (parts @ [ucast x]) (tl rest))
       else Some (parts, ucast x, rest))"
    "pton4_parts pton parts (dec_string (unat x) @ rest) =
      (if deref rest = 46 then (if length parts \<ge> 3 then None else pton4_parts pton (parts @ [ucast x]) (tl rest))
       else Some (parts, ucast x, rest))" if "dot_or_end rest" for x parts rest
    using aton_parts_step [OF dec_string_number that] pton4_parts_step [OF dec_string_number that]
    by simp_all
  show "aton_parts [] (dotted_quad a b c d) = Some ([ucast a, ucast b, ucast c], ucast d, [])"
    using step(1) [of "[]" "[ucast a, ucast b, ucast c]" d]
    by (simp add: dotted_quad_def step(1) schar_def deref_def)
  show "pton4_parts pton [] (dotted_quad a b c d) = Some ([ucast a, ucast b, ucast c], ucast d, [])"
    using step(2) [of "[]" "[ucast a, ucast b, ucast c]" d]
    by (simp add: dotted_quad_def step(2) deref_def)
qed

text \<open>The word the parts make, and its bytes.\<close>

definition quad_word :: "u8 \<Rightarrow> u8 \<Rightarrow> u8 \<Rightarrow> u8 \<Rightarrow> u32" where
  "quad_word a b c d = ucast d OR (push_bit 24 (ucast a) OR push_bit 16 (ucast b) OR push_bit 8 (ucast c))"

lemma quad_concoct:
  "aton_concoct [ucast a, ucast b, ucast c] (ucast d) = Some (quad_word a b c d)"
  "pton4_concoct [ucast a, ucast b, ucast c] (ucast d) = Some (quad_word a b c d)"
proof -
  have le: "\<not> (ucast x :: u32) > 0xff" for x :: u8
  proof -
    have "unat x < 2 ^ LENGTH(8)" by (rule unsigned_less)
    then show ?thesis by (simp add: word_less_nat_alt unsigned_ucast_eq take_bit_eq_mod)
  qed
  have "(ucast a OR ucast b OR ucast c OR ucast d :: u32) = ucast (a OR b OR c OR d)"
    by (simp add: unsigned_or_eq)
  with le show "pton4_concoct [ucast a, ucast b, ucast c] (ucast d) = Some (quad_word a b c d)"
    by (simp add: pton4_concoct_def quad_word_def)
  from le show "aton_concoct [ucast a, ucast b, ucast c] (ucast d) = Some (quad_word a b c d)"
    by (simp add: aton_concoct_def quad_word_def)
qed

lemma bit_htonl:
  "bit (htonl x) n \<longleftrightarrow> (if n < 8 then bit x (24 + n) else if n < 16 then bit x (8 + n)
     else if n < 24 then bit x (n - 8) else n < 32 \<and> bit x (n - 24))"
proof -
  have "htonl x = push_bit 24 (take_bit 8 x) OR push_bit 8 (x AND push_bit 8 (mask 8)) OR
      (drop_bit 8 x AND push_bit 8 (mask 8)) OR drop_bit 24 x"
    by (simp add: htonl_def take_bit_eq_mask mask_eq_exp_minus_1)
  then show ?thesis by (auto simp: bit_simps dest: bit_imp_le_length)
qed

lemma bit_quad_word:
  "bit (quad_word a b c d) n \<longleftrightarrow> (if n < 8 then bit d n else if n < 16 then bit c (n - 8)
     else if n < 24 then bit b (n - 16) else n < 32 \<and> bit a (n - 24))"
  by (auto simp: quad_word_def bit_simps dest: bit_imp_le_length)

lemma htonl_quad: "addr_bytes (htonl (quad_word a b c d)) = [a, b, c, d]"
  by (simp add: addr_bytes_def)
    (intro conjI bit_word_eqI; simp add: bit_simps bit_htonl bit_quad_word)

lemma htonl_bytes: "htonl (quad_word (ucast x) (ucast (drop_bit 8 x)) (ucast (drop_bit 16 x)) (ucast (drop_bit 24 x))) = x"
  by (rule bit_word_eqI) (auto simp: bit_htonl bit_quad_word bit_simps)

lemma inet_aton_ntoa: "inet_aton (inet_ntoa x) = Some x"
  by (simp add: inet_aton_def inet_ntoa_def Let_def addr_bytes_def quad_parts quad_concoct htonl_bytes
      schar_def deref_def)

lemma inet_pton4_quad: "inet_pton4 (dotted_quad a b c d) pton = Some [a, b, c, d]"
  by (simp add: inet_pton4_def quad_parts quad_concoct htonl_quad deref_def)

section \<open>Reading groups\<close>

text \<open>Between two groups nothing of a group has been read.\<close>

definition reading :: "u8 list \<Rightarrow> u8 list \<Rightarrow> nat option \<Rightarrow> pton6" where
  "reading tok out col = \<lparr>p6_curtok = tok, p6_seen = 0, p6_val = 0,
     p6_tmp = out @ replicate (16 - length out) 0, p6_tp = length out, p6_colonp = col\<rparr>"

lemma xdigit_hex_char:
  assumes "d < 16"
  shows "xdigit_value (hex_char False d) = Some d" "hex_char False d \<notin> {0, 46, 58}"
proof -
  have "\<forall>d\<in>set [0..<16]. xdigit_value (hex_char False d) = Some d \<and> hex_char False d \<notin> {0, 46, 58}"
    by (simp add: upt_rec hex_char_def xdigit_value_def xdigits_l_def)
  with assms show "xdigit_value (hex_char False d) = Some d" "hex_char False d \<notin> {0, 46, 58}" by auto
qed

lemma or_digit:
  assumes "d < 16"
  shows "push_bit 4 v OR (of_nat d :: u32) = v * 16 + of_nat d"
proof -
  have "(of_nat d :: u32) = take_bit 4 (of_nat d)"
    using assms by (simp add: take_bit_of_nat take_bit_nat_eq_self)
  then have "\<not> bit (of_nat d :: u32) n" if "4 \<le> n" for n
    using that by (metis bit_take_bit_iff linorder_not_le)
  then have "push_bit 4 v OR of_nat d = push_bit 4 v + (of_nat d :: u32)"
    by (intro disjunctive_add [symmetric]) (auto simp: bit_simps)
  then show ?thesis by (simp add: push_bit_eq_mult)
qed

lemma read_hex:
  assumes "p6_seen p = 0" "p6_val p = 0" "length (hex_string False n) \<le> 4"
  shows "pton6_loop (hex_string False n @ rest) p =
    pton6_loop rest (p\<lparr>p6_val := of_nat n, p6_seen := length (hex_string False n)\<rparr>)"
  using assms(3)
proof (induction False n arbitrary: rest rule: hex_string.induct)
  case (1 n)
  show ?case
  proof (cases "n < 16")
    case True
    then show ?thesis
      using assms(1,2) xdigit_hex_char [of n] by (subst (1 2) hex_string.simps) (simp add: Let_def)
  next
    case False
    have s: "hex_string False n = hex_string False (n div 16) @ [hex_char False (n mod 16)]"
      using False by (subst hex_string.simps) simp
    have val: "of_nat (n div 16) * 16 + of_nat (n mod 16) = (of_nat n :: u32)"
      by (metis div_mult_mod_eq of_nat_add of_nat_mult of_nat_numeral)
    have "pton6_loop (hex_string False n @ rest) p =
        pton6_loop (hex_char False (n mod 16) # rest)
          (p\<lparr>p6_val := of_nat (n div 16), p6_seen := length (hex_string False (n div 16))\<rparr>)"
      using 1(1) [OF False, of "hex_char False (n mod 16) # rest"] 1(2) by (simp add: s)
    also have "\<dots> = pton6_loop rest (p\<lparr>p6_val := of_nat n, p6_seen := length (hex_string False n)\<rparr>)"
      using xdigit_hex_char [of "n mod 16"] 1(2) by (simp add: s Let_def or_digit val)
    finally show ?thesis .
  qed
qed

definition word_pair :: "u32 \<Rightarrow> u8 list" where
  "word_pair w = [ucast (drop_bit 8 w), ucast w]"

abbreviation hex_group :: "u32 \<Rightarrow> u8 list" where "hex_group w \<equiv> hex_string False (unat w)"

lemma hex_group_length:
  assumes "unat (w :: u32) < 65536"
  shows "0 < length (hex_group w) \<and> length (hex_group w) \<le> 4"
proof -
  obtain k where "hex_number k (unat w) (hex_group w)" "0 < k" "\<forall>j>0. unat w < 16 ^ j \<longrightarrow> k \<le> j"
    using hex_string_number [of "unat w" False] by blast
  moreover have "unat w < 16 ^ 4" using assms by simp
  ultimately show ?thesis by (simp add: hex_number_def)
qed

lemma put_word_reading:
  assumes "length out + 2 \<le> 16"
  shows "put_word (reading tok out col\<lparr>p6_val := w, p6_seen := k\<rparr>) =
    Some (reading tok (out @ word_pair w) col\<lparr>p6_val := w, p6_seen := k\<rparr>)"
proof -
  have "replicate (16 - length out) (0 :: u8) = 0 # 0 # replicate (16 - length (out @ word_pair w)) 0"
    using assms by (simp add: word_pair_def flip: replicate_Suc)
  then have "(out @ replicate (16 - length out) 0)[length out := ucast (drop_bit 8 w), length out + 1 := ucast w] =
      (out @ word_pair w) @ replicate (16 - length (out @ word_pair w)) (0 :: u8)"
    by (simp add: word_pair_def list_update_append)
  then show ?thesis using assms by (simp add: put_word_def reading_def word_pair_def)
qed

lemma read_group:
  assumes "unat w < 65536" "length out + 2 \<le> 16" "deref rest \<noteq> 0"
  shows "pton6_loop (hex_group w @ 58 # rest) (reading tok out col) = pton6_loop rest (reading rest (out @ word_pair w) col)"
proof -
  note len = hex_group_length [OF assms(1)]
  have x: "xdigit_value 58 = None" by (simp add: xdigit_value_def xdigits_l_def xdigits_u_def)
  have tok: "reading tok out col\<lparr>p6_val := w, p6_seen := k, p6_curtok := rest\<rparr> =
      reading rest out col\<lparr>p6_val := w, p6_seen := k\<rparr>" for k
    by (simp add: reading_def)
  have "pton6_loop (hex_group w @ 58 # rest) (reading tok out col) =
      pton6_loop (58 # rest) (reading tok out col\<lparr>p6_val := w, p6_seen := length (hex_group w)\<rparr>)"
    using read_hex [of "reading tok out col" "unat w" "58 # rest"] len by (simp add: reading_def)
  also have "\<dots> = pton6_loop rest (reading rest (out @ word_pair w) col)"
    using len assms(3) by (simp add: x Let_def tok put_word_reading [OF assms(2)]) (simp add: reading_def)
  finally show ?thesis .
qed

lemma length_word_pair [simp]: "length (word_pair w) = 2"
  by (simp add: word_pair_def)

definition groups :: "u32 list \<Rightarrow> u8 list" where
  "groups ws = concat (map (\<lambda>w. hex_group w @ [58]) ws)"

definition small_words :: "u32 list \<Rightarrow> bool" where
  "small_words ws \<longleftrightarrow> (\<forall>w\<in>set ws. unat w < 65536)"

definition words_bytes :: "u32 list \<Rightarrow> u8 list" where
  "words_bytes ws = concat (map word_pair ws)"

lemma words_bytes_simps [simp]:
  "words_bytes [] = []" "words_bytes (w # ws) = word_pair w @ words_bytes ws"
  "words_bytes (xs @ ys) = words_bytes xs @ words_bytes ys" "length (words_bytes ws) = 2 * length ws"
  by (simp_all add: words_bytes_def length_concat comp_def word_pair_def sum_list_triv)

lemma groups_simps [simp]:
  "groups [] = []" "groups (w # ws) = hex_group w @ 58 # groups ws" "groups (xs @ ys) = groups xs @ groups ys"
  by (simp_all add: groups_def)

lemma hex_string_head: "deref (hex_string False n @ rest) \<notin> {0, 46, 58}"
proof (induction False n arbitrary: rest rule: hex_string.induct)
  case (1 n)
  then show ?case
    using xdigit_hex_char(2) [of n] by (subst hex_string.simps) (auto simp: deref_def)
qed

lemma read_groups:
  assumes "small_words ws" "length out + 2 * length ws \<le> 16" "deref rest \<noteq> 0"
  shows "pton6_loop (groups ws @ rest) (reading tok out col) =
    pton6_loop rest (reading (if ws = [] then tok else rest) (out @ words_bytes ws) col)"
  using assms(1,2)
proof (induction ws arbitrary: tok out)
  case (Cons w ws)
  have "deref (groups ws @ rest) \<noteq> 0"
    using assms(3) hex_string_head by (cases ws) auto
  then have "pton6_loop (groups (w # ws) @ rest) (reading tok out col) =
      pton6_loop (groups ws @ rest) (reading (groups ws @ rest) (out @ word_pair w) col)"
    using Cons.prems read_group [of w out "groups ws @ rest" tok col] by (simp add: small_words_def)
  also have "\<dots> = pton6_loop rest (reading (if ws = [] then groups ws @ rest else rest)
      ((out @ word_pair w) @ words_bytes ws) col)"
    using Cons.prems by (intro Cons.IH) (simp_all add: small_words_def word_pair_def)
  finally show ?case by (cases "ws = []") simp_all
qed simp

lemma read_double_colon:
  "pton6_loop (58 # rest) (reading tok out None) = pton6_loop rest (reading rest out (Some (length out)))"
  by (simp add: xdigit_value_def xdigits_l_def xdigits_u_def Let_def reading_def)

text \<open>How reading ends: a last group that is still to be written, or none.\<close>

definition last_word :: "pton6 \<Rightarrow> pton6 option" where
  "last_word p = (if p6_seen p \<noteq> 0 then put_word p else Some p)"

definition read_bytes :: "u8 list \<Rightarrow> nat option \<Rightarrow> pton6 \<Rightarrow> bool" where
  "read_bytes out col p \<longleftrightarrow> p6_tmp p = out @ replicate (16 - length out) 0 \<and> p6_tp p = length out \<and> p6_colonp p = col"

lemma read_end:
  "\<exists>p. pton6_loop [] (reading tok out col) = Some p \<and> (\<exists>q. last_word p = Some q \<and> read_bytes out col q)"
  by (simp add: last_word_def reading_def read_bytes_def)

lemma read_last_group:
  assumes "unat w < 65536" "length out + 2 \<le> 16"
  shows "\<exists>p. pton6_loop (hex_group w) (reading tok out col) = Some p \<and>
    (\<exists>q. last_word p = Some q \<and> read_bytes (out @ word_pair w) col q)"
proof -
  note len = hex_group_length [OF assms(1)]
  have "pton6_loop (hex_group w) (reading tok out col) =
      Some (reading tok out col\<lparr>p6_val := w, p6_seen := length (hex_group w)\<rparr>)"
    using read_hex [of "reading tok out col" "unat w" "[]"] len by (simp add: reading_def)
  then show ?thesis
    using len by (auto simp: last_word_def put_word_reading [OF assms(2)] read_bytes_def) (simp_all add: reading_def)
qed

text \<open>The dotted quad at the end is read again by \<open>inet_pton4\<close>.\<close>

lemma xdigit_dec:
  assumes "digit 10 (uint d) \<noteq> None"
  shows "xdigit_value d \<noteq> None" "d \<noteq> 0"
proof -
  have u: "48 \<le> uint d \<and> uint d < 58"
    using assms by (auto simp: digit_def char_ranges Let_def split: if_splits)
  define n where "n = nat (uint d - 48)"
  have n: "n \<in> set [0..<10]" using u by (auto simp: n_def)
  have d: "d = word_of_int (48 + int n)" using u by (simp add: n_def)
  have "\<forall>n\<in>set [0..<10]. xdigit_value (word_of_int (48 + int n)) \<noteq> None \<and> (word_of_int (48 + int n) :: u8) \<noteq> 0"
    by (simp add: upt_rec xdigit_value_def xdigits_l_def)
  then have "xdigit_value (word_of_int (48 + int n)) \<noteq> None \<and> (word_of_int (48 + int n) :: u8) \<noteq> 0"
    using n by (rule bspec)
  then show "xdigit_value d \<noteq> None" "d \<noteq> 0" unfolding d by simp_all
qed

lemma read_decimal:
  assumes "\<forall>d\<in>set ds. digit 10 (uint d) \<noteq> None" "p6_seen p + length ds \<le> 4"
  shows "\<exists>v k. pton6_loop (ds @ rest) p = pton6_loop rest (p\<lparr>p6_val := v, p6_seen := k\<rparr>)"
  using assms
proof (induction ds arbitrary: p)
  case Nil
  show ?case by (rule exI [of _ "p6_val p"], rule exI [of _ "p6_seen p"]) simp
next
  case (Cons d ds)
  then obtain x where "xdigit_value d = Some x" "d \<noteq> 0" using xdigit_dec [of d] by auto
  then have step: "pton6_loop ((d # ds) @ rest) p =
      pton6_loop (ds @ rest) (p\<lparr>p6_val := push_bit 4 (p6_val p) OR of_nat x, p6_seen := p6_seen p + 1\<rparr>)"
    using Cons.prems(2) by (simp add: Let_def)
  obtain v k where "pton6_loop (ds @ rest) (p\<lparr>p6_val := push_bit 4 (p6_val p) OR of_nat x, p6_seen := p6_seen p + 1\<rparr>) =
      pton6_loop rest (p\<lparr>p6_val := push_bit 4 (p6_val p) OR of_nat x, p6_seen := p6_seen p + 1\<rparr>\<lparr>p6_val := v, p6_seen := k\<rparr>)"
    using Cons.IH [of "p\<lparr>p6_val := push_bit 4 (p6_val p) OR of_nat x, p6_seen := p6_seen p + 1\<rparr>"] Cons.prems by auto
  with step show ?case by (intro exI [of _ v] exI [of _ k]) simp
qed

lemma read_quad:
  assumes "length out + 4 \<le> 16"
  shows "\<exists>p. pton6_loop (dotted_quad a b c d) (reading (dotted_quad a b c d) out col) = Some p \<and>
    (\<exists>q. last_word p = Some q \<and> read_bytes (out @ [a, b, c, d]) col q)"
proof -
  let ?q = "dotted_quad a b c d" let ?p = "reading (dotted_quad a b c d) out col"
  let ?rest = "dec_string (unat b) @ 46 # dec_string (unat c) @ 46 # dec_string (unat d)"
  have "unat a < 256" using unsigned_less [of a] by simp
  then have "length (dec_string (unat a)) \<le> 3" using dec_string_length by blast
  then obtain v k where "pton6_loop ?q ?p = pton6_loop (46 # ?rest) (?p\<lparr>p6_val := v, p6_seen := k\<rparr>)"
    using read_decimal [of "dec_string (unat a)" ?p "46 # ?rest"] dec_string_number [of "unat a"]
    by (auto simp: dec_number_def dotted_quad_def reading_def)
  moreover have "replicate (16 - length out) (0 :: u8) = [0, 0, 0, 0] @ replicate (16 - length (out @ [a, b, c, d])) 0"
    using assms by (simp flip: replicate_Suc)
  ultimately show ?thesis
    using assms
    by (auto simp: xdigit_value_def xdigits_l_def xdigits_u_def reading_def inet_pton4_quad last_word_def read_bytes_def)
qed

section \<open>Whole addresses\<close>

lemma shift_step:
  fixes z :: 'a
  shows "((x @ a # replicate (Suc g) z @ d)[length x + Suc g := (x @ a # replicate (Suc g) z @ d) ! length x])
    [length x := z] = x @ z # replicate g z @ a # d"
proof -
  have r: "replicate (Suc g) z = replicate g z @ [z]" by (simp add: replicate_append_same)
  show ?thesis unfolding r by (simp add: list_update_append nth_append)
qed

lemma shift_loop_part:
  assumes "i \<le> length ts" "length pre + length ts + Suc g = 16"
  shows "shift_loop (length ts) (length pre) i (pre @ ts @ replicate (Suc g) 0) =
    pre @ take (length ts - i) ts @ replicate (Suc g) 0 @ drop (length ts - i) ts"
  using assms(1)
proof (induction i)
  case (Suc i)
  let ?k = "length ts - Suc i"
  have k: "length ts - i = Suc ?k" "?k < length ts" using Suc.prems by simp_all
  have split: "take (length ts - i) ts = take ?k ts @ [ts ! ?k]"
    using k by (simp add: take_Suc_conv_app_nth)
  have drop: "drop ?k ts = ts ! ?k # drop (length ts - i) ts"
    using k by (simp add: Cons_nth_drop_Suc)
  have at: "16 - Suc i = length (pre @ take ?k ts) + Suc g" "length pre + (length ts - Suc i) = length (pre @ take ?k ts)"
    using assms(2) k Suc.prems by simp_all
  let ?x = "pre @ take ?k ts" and ?d = "drop (length ts - i) ts"
  have "shift_loop (length ts) (length pre) (Suc i) (pre @ ts @ replicate (Suc g) 0) =
      ((?x @ ts ! ?k # replicate (Suc g) 0 @ ?d)
        [length ?x + Suc g := (?x @ ts ! ?k # replicate (Suc g) 0 @ ?d) ! length ?x])[length ?x := 0]"
    using Suc by (simp only: shift_loop.simps Let_def at split) simp
  also have "\<dots> = ?x @ 0 # replicate g 0 @ ts ! ?k # ?d"
    by (rule shift_step)
  finally show ?case by (simp add: drop)
qed simp

lemma shift_loop_all:
  assumes "length pre + length ts < 16"
  shows "shift_loop (length ts) (length pre) (length ts) (pre @ ts @ replicate (16 - length (pre @ ts)) 0) =
    pre @ replicate (16 - length (pre @ ts)) 0 @ ts"
proof -
  obtain g where g: "length pre + length ts + Suc g = 16" using assms by (metis add_Suc_right less_iff_Suc_add)
  then have "16 - length (pre @ ts) = Suc g" by simp
  with shift_loop_part [OF le_refl g] show ?thesis by simp
qed

text \<open>What is left after a double colon, and what it is read as.\<close>

definition tail_text :: "u8 list \<Rightarrow> u8 list \<Rightarrow> bool" where
  "tail_text tail ts \<longleftrightarrow> (\<forall>out col. length out + length ts \<le> 16 \<longrightarrow>
     (\<exists>p. pton6_loop tail (reading tail out col) = Some p \<and>
       (\<exists>q. last_word p = Some q \<and> read_bytes (out @ ts) col q)))"

lemma tail_empty: "tail_text [] []"
  unfolding tail_text_def using read_end by simp

lemma tail_quad: "tail_text (dotted_quad a b c d) [a, b, c, d]"
  unfolding tail_text_def using read_quad by simp

lemma tail_groups:
  assumes "small_words ws" "tail_text tail ts" "deref tail \<noteq> 0"
  shows "tail_text (groups ws @ tail) (words_bytes ws @ ts)"
  unfolding tail_text_def
proof (intro allI impI)
  fix out :: "u8 list" and col
  assume fits: "length out + length (words_bytes ws @ ts) \<le> 16"
  have "pton6_loop (groups ws @ tail) (reading (groups ws @ tail) out col) =
      pton6_loop tail (reading tail (out @ words_bytes ws) col)"
    using read_groups [OF assms(1) _ assms(3), of out "groups ws @ tail" col] fits by (cases ws) simp_all
  moreover have "\<exists>p. pton6_loop tail (reading tail (out @ words_bytes ws) col) = Some p \<and>
      (\<exists>q. last_word p = Some q \<and> read_bytes ((out @ words_bytes ws) @ ts) col q)"
    using assms(2) fits unfolding tail_text_def by (intro assms(2) [unfolded tail_text_def, rule_format]) simp
  ultimately show "\<exists>p. pton6_loop (groups ws @ tail) (reading (groups ws @ tail) out col) = Some p \<and>
      (\<exists>q. last_word p = Some q \<and> read_bytes (out @ words_bytes ws @ ts) col q)" by simp
qed

lemma tail_group: "unat w < 65536 \<Longrightarrow> tail_text (hex_group w) (word_pair w)"
  unfolding tail_text_def using read_last_group by (auto simp: word_pair_def)

text \<open>\<open>inet_pton6\<close> behind the test of the first character.\<close>

lemma inet_pton6_eq:
  assumes "deref src = 58 \<longrightarrow> deref (tl src) = 58" "src' = (if deref src = 58 then tl src else src)"
  shows "inet_pton6 src =
    (case pton6_loop src' (reading src' [] None) of
       None \<Rightarrow> None
     | Some p \<Rightarrow>
         (case last_word p of
            None \<Rightarrow> None
          | Some p \<Rightarrow>
              (case p6_colonp p of
                 None \<Rightarrow> if p6_tp p \<noteq> 16 then None else Some (p6_tmp p)
               | Some colonp \<Rightarrow>
                   if p6_tp p = 16 then None
                   else (let n = p6_tp p - colonp in Some (shift_loop n colonp n (p6_tmp p))))))"
  unfolding inet_pton6_def Let_def last_word_def reading_def using assms
  by (cases "deref src = 58") simp_all

lemma pton6_run:
  assumes "small_words pre" "tail_text tail ts" "2 * length pre + length ts < 16"
  shows "inet_pton6 ((if pre = [] then [58] else groups pre) @ 58 # tail) =
    Some (words_bytes pre @ replicate (16 - (2 * length pre + length ts)) 0 @ ts)"
proof -
  let ?src = "(if pre = [] then [58] else groups pre) @ 58 # tail"
  define src' where "src' = (if pre = [] then 58 # tail else groups pre @ 58 # tail)"
  let ?out = "words_bytes pre"
  have first: "deref ?src = 58 \<longleftrightarrow> pre = []"
    using hex_string_head by (cases pre) (auto simp: deref_def)
  have src: "src' = (if deref ?src = 58 then tl ?src else ?src)"
    unfolding first src'_def by simp
  have "deref ?src = 58 \<longrightarrow> deref (tl ?src) = 58" unfolding first by (simp add: deref_def)
  note eq = inet_pton6_eq [OF this src]
  have "pton6_loop src' (reading src' [] None) = pton6_loop (58 # tail) (reading (58 # tail) ?out None)"
    using read_groups [OF assms(1), of "[]" "58 # tail" src' None] assms(3)
    by (cases "pre = []") (simp_all add: src'_def deref_def)
  also have "\<dots> = pton6_loop tail (reading tail ?out (Some (2 * length pre)))"
    using read_double_colon [of tail "58 # tail" ?out] by simp
  finally have loop: "pton6_loop src' (reading src' [] None) = \<dots>" .
  obtain p q where "pton6_loop tail (reading tail ?out (Some (2 * length pre))) = Some p" "last_word p = Some q"
    "read_bytes (?out @ ts) (Some (2 * length pre)) q"
    using assms(2,3) unfolding tail_text_def by (metis order_less_imp_le words_bytes_simps(4))
  with loop show ?thesis
    unfolding eq using shift_loop_all [of ?out ts] assms(3) by (simp add: read_bytes_def Let_def)
qed

lemma pton6_no_run:
  assumes "small_words ws" "unat w < 65536" "length ws = 7"
  shows "inet_pton6 (groups ws @ hex_group w) = Some (words_bytes (ws @ [w]))"
proof -
  let ?src = "groups ws @ hex_group w"
  have first: "deref ?src \<noteq> 58" "deref (hex_group w) \<noteq> 0" "ws \<noteq> []"
    using hex_string_head [of "unat w" "[]"] hex_string_head assms(3) by (cases ws; auto)+
  then have "deref ?src = 58 \<longrightarrow> deref (tl ?src) = 58" "?src = (if deref ?src = 58 then tl ?src else ?src)"
    by simp_all
  note eq = inet_pton6_eq [OF this]
  have loop: "pton6_loop ?src (reading ?src [] None) =
      pton6_loop (hex_group w) (reading (hex_group w) (words_bytes ws) None)"
    using read_groups [OF assms(1), of "[]" "hex_group w" ?src None] assms(3) first by simp
  obtain p q where "pton6_loop (hex_group w) (reading (hex_group w) (words_bytes ws) None) = Some p"
    "last_word p = Some q" "read_bytes (words_bytes ws @ word_pair w) None q"
    using read_last_group [OF assms(2), of "words_bytes ws" "hex_group w" None] assms(3) by auto
  with loop first(1) show ?thesis
    unfolding eq using assms(3) by (simp add: read_bytes_def)
qed

section \<open>Writing\<close>

definition in_run :: "zero_span \<Rightarrow> nat \<Rightarrow> bool" where
  "in_run best k \<longleftrightarrow> run_base best \<noteq> -1 \<and> int k \<ge> run_base best \<and> int k < run_base best + run_len best"

definition as_quad :: "u32 list \<Rightarrow> zero_span \<Rightarrow> bool" where
  "as_quad words best \<longleftrightarrow> run_base best = 0 \<and> (run_len best = 6 \<or> (run_len best = 5 \<and> words ! 5 = 0xffff))"

lemma ntop6_unfold:
  "ntop6_loop src words best i out =
     (if i < 8 \<and> length out < 46 then
        (if in_run best i then
           (if int i = run_base best then
              (case put_char 58 out of None \<Rightarrow> None | Some out \<Rightarrow> ntop6_loop src words best (i + 1) out)
            else ntop6_loop src words best (i + 1) out)
         else
           (case (if i \<noteq> 0 then put_char 58 out else Some out) of
              None \<Rightarrow> None
            | Some out \<Rightarrow>
                if i = 6 \<and> as_quad words best then
                  (case inet_ntop4 (drop 12 src) (46 - length out) of
                     None \<Rightarrow> None
                   | Some s \<Rightarrow> Some (out @ s))
                else
                  (if length (hex_group (words ! i)) = 0 \<or> length (hex_group (words ! i)) \<ge> 46 - length out then None
                   else ntop6_loop src words best (i + 1) (out @ hex_group (words ! i)))))
      else Some out)"
  by (subst ntop6_loop.simps) (simp only: in_run_def as_quad_def Let_def)

definition written :: "u32 list \<Rightarrow> nat \<Rightarrow> nat \<Rightarrow> u8 list" where
  "written words i j = concat (map (\<lambda>k. (if k \<noteq> 0 then [58] else []) @ hex_group (words ! k)) [i..<j])"

lemma written_Suc: "i \<le> j \<Longrightarrow> written words i (Suc j) = written words i j @ (if j \<noteq> 0 then [58] else []) @ hex_group (words ! j)"
  by (simp add: written_def)

lemma ntop6_step:
  assumes "i < 8" "\<not> in_run best i" "\<not> (i = 6 \<and> as_quad words best)" "unat (words ! i) < 65536" "length out \<le> 5 * i + 2"
  shows "ntop6_loop src words best i out = ntop6_loop src words best (Suc i) (out @ written words i (Suc i))"
proof -
  let ?h = "hex_group (words ! i)"
  have h: "length ?h \<le> 4" "0 < length ?h"
    using hex_group_length [OF assms(4)] by simp_all
  have room: "\<not> length ?h \<ge> 46 - length out" "\<not> length ?h \<ge> 45 - length out" "\<not> length out + 1 \<ge> 46" "length out < 46"
    using h assms(1,5) by auto
  note step = assms(1,2) h(2) room
  show ?thesis
  proof (cases "i = 0")
    case True
    then have "written words i (Suc i) = ?h" by (simp add: written_def)
    with True step show ?thesis by (subst ntop6_unfold) simp
  next
    case False
    then have "written words i (Suc i) = 58 # ?h" by (simp add: written_def)
    with False step assms(3) show ?thesis by (subst ntop6_unfold) (auto simp: put_char_def simp del: not_le)
  qed
qed

lemma written_length:
  assumes "\<forall>k. i \<le> k \<and> k < j \<longrightarrow> unat (words ! k) < 65536" "i \<le> j"
  shows "length (written words i j) \<le> 5 * (j - i)"
  using assms
proof (induction j)
  case (Suc j)
  show ?case
  proof (cases "i \<le> j")
    case True
    have "length (hex_group (words ! j)) \<le> 4" using Suc.prems True hex_group_length [of "words ! j"] by simp
    then have "length ((if j \<noteq> 0 then [58] else []) @ hex_group (words ! j)) \<le> 5" by (cases "j = 0") simp_all
    moreover have "length (written words i j) \<le> 5 * (j - i)" using Suc True by simp
    ultimately show ?thesis unfolding written_Suc [OF True] length_append using True by simp
  qed (use Suc.prems in \<open>simp add: written_def\<close>)
qed (simp add: written_def)

lemma ntop6_plain:
  assumes "i \<le> j" "j \<le> 8" "\<forall>k. i \<le> k \<and> k < j \<longrightarrow> \<not> in_run best k \<and> \<not> (k = 6 \<and> as_quad words best) \<and> unat (words ! k) < 65536"
    "length out \<le> 5 * i + 2"
  shows "ntop6_loop src words best i out = ntop6_loop src words best j (out @ written words i j)"
  using assms
proof (induction j)
  case (Suc j)
  show ?case
  proof (cases "i \<le> j")
    case True
    have "length (written words i j) \<le> 5 * (j - i)" using Suc.prems True by (intro written_length) simp_all
    then have len: "length (out @ written words i j) \<le> 5 * j + 2" using Suc.prems(4) True by simp
    have "ntop6_loop src words best i out = ntop6_loop src words best j (out @ written words i j)"
      using Suc True by simp
    also have "\<dots> = ntop6_loop src words best (Suc j) ((out @ written words i j) @ written words j (Suc j))"
      using Suc.prems True len by (intro ntop6_step) (simp_all, blast)
    finally show ?thesis using True by (simp add: written_Suc) (simp add: written_def)
  qed (use Suc.prems in \<open>auto simp: written_def le_Suc_eq\<close>)
qed (simp add: written_def)

lemma ntop6_skip:
  assumes "run_base best = int b" "run_len best = int l" "b < i" "i \<le> b + l" "b + l \<le> 8" "length out < 46"
  shows "ntop6_loop src words best i out = ntop6_loop src words best (b + l) out"
  using assms(3,4)
proof (induction "b + l - i" arbitrary: i)
  case (Suc d)
  then have "i < b + l" by simp
  then have "ntop6_loop src words best i out = ntop6_loop src words best (Suc i) out"
    using assms Suc by (subst ntop6_loop.simps) simp
  also have "\<dots> = ntop6_loop src words best (b + l) out" using Suc by (intro Suc(1)) simp_all
  finally show ?case .
qed simp

lemma ntop6_run:
  assumes "run_base best = int b" "run_len best = int l" "1 \<le> l" "b + l \<le> 8" "length out \<le> 5 * b + 2"
  shows "ntop6_loop src words best b out = ntop6_loop src words best (b + l) (out @ [58])"
proof -
  have "ntop6_loop src words best b out = ntop6_loop src words best (Suc b) (out @ [58])"
    using assms by (subst ntop6_loop.simps) (simp add: put_char_def)
  also have "\<dots> = ntop6_loop src words best (b + l) (out @ [58])"
    by (rule ntop6_skip [OF assms(1,2)]) (use assms in auto)
  finally show ?thesis .
qed

lemma ntop6_end: "ntop6_loop src words best 8 out = Some out"
  by (subst ntop6_loop.simps) simp

text \<open>The run that is left out is one of zeros.\<close>

definition zero_run :: "u32 list \<Rightarrow> nat \<Rightarrow> zero_span \<Rightarrow> bool" where
  "zero_run words n r \<longleftrightarrow> run_base r = -1 \<or>
     (\<exists>b l. run_base r = int b \<and> run_len r = int l \<and> 1 \<le> l \<and> b + l \<le> n \<and> (\<forall>k. b \<le> k \<and> k < b + l \<longrightarrow> words ! k = 0))"

lemma best_fold:
  "case fold (best_step words) [0..<n] (\<lparr>run_base = -1, run_len = 0\<rparr>, \<lparr>run_base = -1, run_len = 0\<rparr>) of
     (best, cur) \<Rightarrow> zero_run words n best \<and> zero_run words n cur \<and>
       (run_base cur \<noteq> -1 \<longrightarrow> run_base cur + run_len cur = int n)"
proof (induction n)
  case (Suc n)
  obtain best cur where bc: "fold (best_step words) [0..<n] (\<lparr>run_base = -1, run_len = 0\<rparr>, \<lparr>run_base = -1, run_len = 0\<rparr>) = (best, cur)"
    by fastforce
  have IH: "zero_run words n best" "zero_run words n cur" "run_base cur \<noteq> -1 \<longrightarrow> run_base cur + run_len cur = int n"
    using Suc bc by auto
  have mono: "zero_run words (Suc n) r" if "zero_run words n r" for r
    using that unfolding zero_run_def by (meson le_SucI)
  have one: "zero_run words (Suc n) \<lparr>run_base = int n, run_len = 1\<rparr>" if "words ! n = 0"
    unfolding zero_run_def using that by (intro disjI2 exI [of _ n] exI [of _ 1]) (auto simp: less_Suc_eq_le)
  have more: "zero_run words (Suc n) (cur\<lparr>run_len := run_len cur + 1\<rparr>)"
    if zero: "words ! n = 0" and base: "run_base cur \<noteq> -1"
  proof -
    obtain b l where "run_base cur = int b" "run_len cur = int l" "1 \<le> l" "b + l \<le> n" "\<forall>k. b \<le> k \<and> k < b + l \<longrightarrow> words ! k = 0"
      using IH(2) base by (auto simp: zero_run_def)
    moreover from this have "b + l = n" using IH(3) base by simp
    ultimately show ?thesis
      unfolding zero_run_def using zero
      by (intro disjI2 exI [of _ b] exI [of _ "Suc l"]) (auto simp: less_Suc_eq_le le_eq_less_or_eq)
  qed
  have none: "zero_run words (Suc n) (cur\<lparr>run_base := -1\<rparr>)" by (simp add: zero_run_def)
  show ?case
    using mono [OF IH(1)] mono [OF IH(2)] one more none IH(3) by (auto simp: bc)
qed (simp add: zero_run_def)

lemma best_run_zero:
  "zero_run words 8 (best_run words)" "run_base (best_run words) \<noteq> -1 \<Longrightarrow> 2 \<le> run_len (best_run words)"
  using best_fold [of words 8] by (auto simp: best_run_def Let_def zero_run_def split: prod.splits)

section \<open>Round trips\<close>

lemma written_map:
  "0 < i \<Longrightarrow> j \<le> length words \<Longrightarrow> i \<le> j \<Longrightarrow> written words i j = concat (map (\<lambda>w. 58 # hex_group w) (take (j - i) (drop i words)))"
proof (induction j)
  case (Suc j)
  show ?case
  proof (cases "i \<le> j")
    case True
    have "take (Suc j - i) (drop i words) = take (j - i) (drop i words) @ [words ! j]"
      using True Suc.prems by (simp add: Suc_diff_le take_Suc_conv_app_nth)
    with Suc True show ?thesis by (simp add: written_Suc)
  qed (use Suc.prems in \<open>simp add: written_def\<close>)
qed (simp add: written_def)

text \<open>Colons before the groups are colons behind them, but for the first and the last.\<close>

lemma colons: "concat (map (\<lambda>w. 58 # hex_group w) ws) @ [58] = 58 # groups ws"
  by (induction ws) simp_all

lemma written_first:
  assumes "0 < j" "j \<le> length words"
  shows "written words 0 j @ [58] = groups (take j words)"
proof -
  obtain j' where j: "j = Suc j'" using assms(1) by (cases j) auto
  obtain w ws where w: "words = w # ws" using assms by (cases words) auto
  have "written words 0 j = hex_group w @ written words 1 j"
    using assms by (simp add: written_def upt_rec [of 0] w)
  also have "written words 1 j = concat (map (\<lambda>w. 58 # hex_group w) (take j' ws))"
    using written_map [of 1 j words] assms by (simp add: w j)
  finally show ?thesis using colons [of "take j' ws"] by (simp add: w j)
qed

lemma written_rest:
  assumes "0 < i" "i < length words"
  shows "written words i (length words) = 58 # groups (butlast (drop i words)) @ hex_group (last (drop i words))"
proof -
  let ?ws = "drop i words"
  have "?ws \<noteq> []" using assms by simp
  have "written words i (length words) = concat (map (\<lambda>w. 58 # hex_group w) (butlast ?ws @ [last ?ws]))"
    using written_map [of i "length words" words] assms append_butlast_last_id [OF \<open>?ws \<noteq> []\<close>] by simp
  then show ?thesis using colons [of "butlast ?ws"] by simp
qed

lemma addr_words_facts:
  assumes "length src = 16"
  shows "length (addr_words src) = 8" "small_words (addr_words src)" "words_bytes (addr_words src) = src"
    "\<And>i. i < 8 \<Longrightarrow> word_pair (addr_words src ! i) = [src ! (2 * i), src ! (2 * i + 1)]"
proof -
  have pair: "word_pair (push_bit 8 (ucast a) OR ucast b) = [a, b]" for a b :: u8
    by (simp add: word_pair_def) (intro conjI bit_word_eqI; auto simp: bit_simps dest: bit_imp_le_length)
  have small: "unat (push_bit 8 (ucast a) OR ucast b :: u32) < 65536" for a b :: u8
  proof -
    have "push_bit 8 (ucast a) OR ucast b = (take_bit 16 (push_bit 8 (ucast a) OR ucast b) :: u32)"
      by (rule bit_word_eqI) (auto simp: bit_simps dest: bit_imp_le_length)
    then have e: "take_bit 16 (unat (push_bit 8 (ucast a) OR ucast b :: u32)) = unat (push_bit 8 (ucast a) OR ucast b :: u32)"
      by (simp only: flip: unsigned_take_bit_eq)
    have "take_bit 16 (unat (push_bit 8 (ucast a) OR ucast b :: u32)) < 2 ^ 16" by (rule take_bit_nat_less_exp)
    then show ?thesis unfolding e by simp
  qed
  show "length (addr_words src) = 8" by (simp add: addr_words_def)
  show "small_words (addr_words src)" by (auto simp: small_words_def addr_words_def small)
  show word: "\<And>i. i < 8 \<Longrightarrow> word_pair (addr_words src ! i) = [src ! (2 * i), src ! (2 * i + 1)]"
    by (simp add: addr_words_def pair)
  have "words_bytes (addr_words src) = concat (map (\<lambda>i. [src ! (2 * i), src ! (2 * i + 1)]) [0..<8])"
    unfolding words_bytes_def addr_words_def by (simp add: pair comp_def)
  also have "\<dots> = src"
    using list_16 [OF assms] by (simp add: upt_rec)
  finally show "words_bytes (addr_words src) = src" .
qed

lemma ntop6_finish:
  assumes "ntop6_loop src (addr_words src) (best_run (addr_words src)) 0 [] = Some out" "length out \<le> 43" "46 \<le> sz"
    "e = (if run_base (best_run (addr_words src)) \<noteq> -1 \<and>
        run_base (best_run (addr_words src)) + run_len (best_run (addr_words src)) = 8 then [58] else [])"
  shows "inet_ntop6 src sz = Some (out @ e)"
  using assms by (auto simp: inet_ntop6_def Let_def put_char_def)

lemma dotted_quad_length: "0 < length (dotted_quad a b c d) \<and> length (dotted_quad a b c d) \<le> 15"
proof -
  have "length (dec_string (unat (x :: u8))) \<le> 3" for x
  proof -
    have "unat x < 2 ^ LENGTH(8)" by (rule unsigned_less)
    with dec_string_length [of "unat x"] show ?thesis by simp
  qed
  from this [of a] this [of b] this [of c] this [of d] show ?thesis by (simp add: dotted_quad_def)
qed

lemma inet_ntop4_fits:
  "15 < sz \<Longrightarrow> inet_ntop4 src sz = Some (dotted_quad (src ! 0) (src ! 1) (src ! 2) (src ! 3))"
  using dotted_quad_length [of "src ! 0" "src ! 1" "src ! 2" "src ! 3"] by (auto simp: inet_ntop4_def Let_def)

lemma small_nth: "small_words ws \<Longrightarrow> k < length ws \<Longrightarrow> unat (ws ! k) < 65536"
  by (simp add: small_words_def)

lemma small_part: "small_words ws \<Longrightarrow> small_words (take n ws)" "small_words ws \<Longrightarrow> small_words (drop n ws)"
  using set_take_subset set_drop_subset by (fastforce simp: small_words_def)+

lemma tail_last:
  assumes "small_words ws" "ws \<noteq> []"
  shows "tail_text (groups (butlast ws) @ hex_group (last ws)) (words_bytes ws)"
proof -
  have "small_words (butlast ws)" "unat (last ws) < 65536"
    using assms by (auto simp: small_words_def dest: in_set_butlastD)
  then have "tail_text (groups (butlast ws) @ hex_group (last ws)) (words_bytes (butlast ws) @ word_pair (last ws))"
    using hex_string_head [of "unat (last ws)" "[]"] by (intro tail_groups tail_group) simp_all
  moreover have "words_bytes (butlast ws) @ word_pair (last ws) = words_bytes ws"
    by (subst (3) append_butlast_last_id [OF assms(2), symmetric]) (simp del: append_butlast_last_id)
  ultimately show ?thesis by simp
qed

lemma plain_roundtrip:
  assumes "length src = 16" "46 \<le> sz" "run_base (best_run (addr_words src)) = -1"
  shows "\<exists>s. inet_ntop6 src sz = Some s \<and> inet_pton6 s = Some src"
proof -
  let ?ws = "addr_words src" and ?r = "best_run (addr_words src)"
  note ws = addr_words_facts [OF assms(1)]
  have "ntop6_loop src ?ws ?r 0 [] = ntop6_loop src ?ws ?r 8 ([] @ written ?ws 0 8)"
    using ws assms(3) by (intro ntop6_plain) (auto simp: in_run_def as_quad_def small_nth)
  moreover have "length (written ?ws 0 8) \<le> 5 * (8 - 0)" using ws by (intro written_length) (simp_all add: small_nth)
  ultimately have "inet_ntop6 src sz = Some (written ?ws 0 8 @ [])"
    using assms(2,3) by (intro ntop6_finish) (simp_all add: ntop6_end)
  moreover have "written ?ws 0 8 = groups (take 7 ?ws) @ hex_group (?ws ! 7)"
    using written_Suc [of 0 7 ?ws] written_first [of 7 ?ws] ws(1) by simp
  moreover have "inet_pton6 (groups (take 7 ?ws) @ hex_group (?ws ! 7)) = Some (words_bytes (take 7 ?ws @ [?ws ! 7]))"
    using ws by (intro pton6_no_run small_part small_nth) simp_all
  moreover have "take 7 ?ws @ [?ws ! 7] = ?ws"
    using take_Suc_conv_app_nth [of 7 ?ws] ws(1) by simp
  ultimately show ?thesis using ws(3) by simp
qed

lemma zero_words:
  assumes "\<forall>k. b \<le> k \<and> k < b + l \<longrightarrow> ws ! k = 0" "b + l \<le> length ws"
  shows "words_bytes ws = words_bytes (take b ws) @ replicate (2 * l) 0 @ words_bytes (drop (b + l) ws)"
proof -
  have z: "words_bytes (replicate l 0) = replicate (2 * l) 0" by (induction l) (simp_all add: word_pair_def)
  have "take l (drop b ws) = replicate l 0"
    using assms by (intro nth_equalityI) simp_all
  then have "ws = take b ws @ replicate l 0 @ drop (b + l) ws"
    by (metis append_take_drop_id drop_drop add.commute)
  then have "words_bytes ws = words_bytes (take b ws @ replicate l 0 @ drop (b + l) ws)" by simp
  then show ?thesis by (simp only: words_bytes_simps(3) z)
qed

lemma run_roundtrip:
  assumes "length src = 16" "46 \<le> sz" "run_base (best_run (addr_words src)) = int b" "run_len (best_run (addr_words src)) = int l"
    "2 \<le> l" "b + l \<le> 8" "\<forall>k. b \<le> k \<and> k < b + l \<longrightarrow> addr_words src ! k = 0" "\<not> as_quad (addr_words src) (best_run (addr_words src))"
  shows "\<exists>s. inet_ntop6 src sz = Some s \<and> inet_pton6 s = Some src"
proof -
  let ?ws = "addr_words src" and ?r = "best_run (addr_words src)"
  note ws = addr_words_facts [OF assms(1)]
  let ?start = "written ?ws 0 b" and ?rest = "written ?ws (b + l) 8"
  have len: "length ?start \<le> 5 * (b - 0)" "length ?rest \<le> 5 * (8 - (b + l))"
    using ws assms(6) by (intro written_length; simp add: small_nth)+
  have "ntop6_loop src ?ws ?r 0 [] = ntop6_loop src ?ws ?r b ([] @ ?start)"
    using ws assms by (intro ntop6_plain) (auto simp: in_run_def small_nth)
  also have "\<dots> = ntop6_loop src ?ws ?r (b + l) (([] @ ?start) @ [58])"
    using assms len by (intro ntop6_run) simp_all
  also have "\<dots> = ntop6_loop src ?ws ?r 8 ((([] @ ?start) @ [58]) @ ?rest)"
    using ws assms len by (intro ntop6_plain) (auto simp: in_run_def small_nth)
  finally have loop: "ntop6_loop src ?ws ?r 0 [] = Some (?start @ 58 # ?rest)" by (simp add: ntop6_end)
  define tail where "tail = (if b + l = 8 then [] else groups (butlast (drop (b + l) ?ws)) @ hex_group (last (drop (b + l) ?ws)))"
  have rest: "?rest @ (if b + l = 8 then [58] else []) = 58 # tail"
    using written_rest [of "b + l" ?ws] ws(1) assms(5,6) by (auto simp: tail_def written_def)
  have start: "?start @ [58] = (if take b ?ws = [] then [58] else groups (take b ?ws))"
    using written_first [of b ?ws] ws(1) assms(6) by (cases "b = 0") (auto simp: written_def)
  have "inet_ntop6 src sz = Some ((?start @ 58 # ?rest) @ (if b + l = 8 then [58] else []))"
    by (rule ntop6_finish [OF loop]) (use len assms in auto)
  also have "(?start @ 58 # ?rest) @ (if b + l = 8 then [58] else []) = (?start @ [58]) @ 58 # tail"
    using rest by simp
  finally have out: "inet_ntop6 src sz = Some ((if take b ?ws = [] then [58] else groups (take b ?ws)) @ 58 # tail)"
    unfolding start .
  have "tail_text tail (words_bytes (drop (b + l) ?ws))"
    using tail_last [of "drop (b + l) ?ws"] ws(1,2) assms(6) by (auto simp: tail_def tail_empty small_part)
  then have "inet_pton6 ((if take b ?ws = [] then [58] else groups (take b ?ws)) @ 58 # tail) =
      Some (words_bytes (take b ?ws) @ replicate (16 - (2 * length (take b ?ws) + length (words_bytes (drop (b + l) ?ws)))) 0 @
        words_bytes (drop (b + l) ?ws))"
    using ws(1,2) assms(5,6) by (intro pton6_run small_part) simp_all
  also have "16 - (2 * length (take b ?ws) + length (words_bytes (drop (b + l) ?ws))) = 2 * l"
    using ws(1) assms(6) by simp
  also have "words_bytes (take b ?ws) @ replicate (2 * l) 0 @ words_bytes (drop (b + l) ?ws) = src"
    using zero_words [OF assms(7)] ws(1,3) assms(6) by simp
  finally show ?thesis using out by blast
qed

lemma dotted_quad_head: "deref (dotted_quad a b c d) \<noteq> 0"
proof -
  obtain x xs where "dec_string (unat a) = x # xs" "digit 10 (uint x) \<noteq> None"
    using dec_string_number [of "unat a"] by (cases "dec_string (unat a)") (auto simp: dec_number_def)
  then show ?thesis using xdigit_dec(2) [of x] by (simp add: dotted_quad_def deref_def)
qed

lemma ntop6_quad:
  assumes "as_quad words best" "length src = 16" "length out \<le> 29"
  shows "ntop6_loop src words best 6 out =
    Some (out @ 58 # dotted_quad (src ! 12) (src ! 13) (src ! 14) (src ! 15))"
proof -
  have "\<not> in_run best 6" using assms(1) by (auto simp: in_run_def as_quad_def)
  with assms show ?thesis by (subst ntop6_unfold) (simp add: put_char_def inet_ntop4_fits)
qed

lemma quad_roundtrip:
  assumes "length src = 16" "46 \<le> sz" "run_len (best_run (addr_words src)) = int l"
    "\<forall>k. k < l \<longrightarrow> addr_words src ! k = 0" "as_quad (addr_words src) (best_run (addr_words src))"
  shows "\<exists>s. inet_ntop6 src sz = Some s \<and> inet_pton6 s = Some src"
proof -
  let ?ws = "addr_words src" and ?r = "best_run (addr_words src)"
  let ?q = "dotted_quad (src ! 12) (src ! 13) (src ! 14) (src ! 15)"
  note ws = addr_words_facts [OF assms(1)]
  have base: "run_base ?r = int 0" and l: "l = 6 \<or> (l = 5 \<and> ?ws ! 5 = 0xffff)"
    using assms(3,5) by (auto simp: as_quad_def)
  have start: "ntop6_loop src ?ws ?r 0 [] = ntop6_loop src ?ws ?r l [58]"
    using ntop6_run [OF base assms(3), of "[]" src ?ws] l by auto
  define gs where "gs = (if l = 6 then [] else [?ws ! 5])"
  have loop: "ntop6_loop src ?ws ?r 0 [] = Some (58 # 58 # groups gs @ ?q)"
  proof (cases "l = 6")
    case True
    with start ntop6_quad [OF assms(5,1), of "[58]"] show ?thesis by (simp add: gs_def)
  next
    case False
    then have l: "l = 5" "?ws ! 5 = 0xffff" using l by simp_all
    have "ntop6_loop src ?ws ?r 5 [58] = ntop6_loop src ?ws ?r (Suc 5) ([58] @ written ?ws 5 (Suc 5))"
      using ws l assms(3) base by (intro ntop6_step) (simp_all add: in_run_def)
    moreover have "written ?ws 5 (Suc 5) = 58 # hex_group (?ws ! 5)" by (simp add: written_def)
    moreover have "length (hex_group (?ws ! 5)) \<le> 4" using ws(1,2) by (intro hex_group_length [THEN conjunct2] small_nth) simp_all
    ultimately show ?thesis
      using start l(1) ntop6_quad [OF assms(5,1), of "58 # 58 # hex_group (?ws ! 5)"] by (simp add: gs_def)
  qed
  have gs: "small_words gs" "length gs \<le> 1" "\<forall>w\<in>set gs. length (hex_group w) \<le> 4"
    using ws(1,2) small_nth [OF ws(2), of 5] hex_group_length [of "?ws ! 5"] by (auto simp: gs_def small_words_def)
  have "deref ?q \<noteq> 0" by (rule dotted_quad_head)
  then have "tail_text (groups gs @ ?q) (words_bytes gs @ [src ! 12, src ! 13, src ! 14, src ! 15])"
    by (intro tail_groups gs(1) tail_quad)
  from pton6_run [of "[]", OF _ this] gs(2)
  have "inet_pton6 (58 # 58 # groups gs @ ?q) =
      Some (replicate (16 - (2 * length gs + 4)) 0 @ words_bytes gs @ [src ! 12, src ! 13, src ! 14, src ! 15])"
    by (simp add: small_words_def)
  also have "replicate (16 - (2 * length gs + 4)) 0 @ words_bytes gs @ [src ! 12, src ! 13, src ! 14, src ! 15] = src"
  proof -
    have six: "drop 6 ?ws = [?ws ! 6, ?ws ! 7]"
      using Cons_nth_drop_Suc [of 6 ?ws] Cons_nth_drop_Suc [of 7 ?ws] ws(1) by simp
    have five: "drop 5 ?ws = ?ws ! 5 # drop 6 ?ws" using Cons_nth_drop_Suc [of 5 ?ws] ws(1) by simp
    have "words_bytes ?ws = replicate (2 * l) 0 @ words_bytes (drop l ?ws)"
      using zero_words [of 0 l ?ws] assms(4) ws(1) l by auto
    moreover have "drop l ?ws = gs @ drop 6 ?ws" using l five by (auto simp: gs_def)
    moreover have "16 - (2 * length gs + 4) = 2 * l" using l by (auto simp: gs_def)
    ultimately show ?thesis using ws(3,4) by (simp add: six)
  qed
  finally have "inet_pton6 (58 # 58 # groups gs @ ?q) = Some src" .
  moreover have "inet_ntop6 src sz = Some ((58 # 58 # groups gs @ ?q) @ [])"
  proof (rule ntop6_finish [OF loop _ assms(2)])
    have "length (groups gs) \<le> 5" using gs(2,3) by (cases gs) simp_all
    then show "length (58 # 58 # groups gs @ ?q) \<le> 43"
      using dotted_quad_length [of "src ! 12" "src ! 13" "src ! 14" "src ! 15"] by simp
  qed (use base assms(3) l in auto)
  ultimately show ?thesis by simp
qed

lemma inet6_roundtrip:
  assumes "length src = 16" "46 \<le> sz"
  shows "\<exists>s. inet_ntop6 src sz = Some s \<and> inet_pton6 s = Some src"
proof (cases "run_base (best_run (addr_words src)) = -1")
  case True
  with assms show ?thesis by (rule plain_roundtrip)
next
  case False
  then obtain b l where r: "run_base (best_run (addr_words src)) = int b" "run_len (best_run (addr_words src)) = int l"
    "b + l \<le> 8" "\<forall>k. b \<le> k \<and> k < b + l \<longrightarrow> addr_words src ! k = 0"
    using best_run_zero(1) [of "addr_words src"] by (auto simp: zero_run_def)
  have "2 \<le> l" using best_run_zero(2) [OF False] r(2) by simp
  show ?thesis
  proof (cases "as_quad (addr_words src) (best_run (addr_words src))")
    case True
    then have "b = 0" using r(1) by (simp add: as_quad_def)
    with r True show ?thesis by (intro quad_roundtrip [OF assms]) auto
  next
    case False
    with r \<open>2 \<le> l\<close> show ?thesis by (intro run_roundtrip [OF assms])
  qed
qed

section \<open>Properties\<close>

lemma address_facts:
  assumes "length a4 = 4" "length a6 = 16" "16 \<le> size4" "46 \<le> size6"
  shows "inet_aton (inet_ntoa x) = Some x" "inet_addr (inet_ntoa x) = x"
    "\<exists>s. inet_ntop AF_INET a4 size4 = Some s \<and> inet_pton AF_INET s = Some a4"
    "\<exists>s. inet_ntop AF_INET6 a6 size6 = Some s \<and> inet_pton AF_INET6 s = Some a6"
proof -
  show "inet_aton (inet_ntoa x) = Some x" by (rule inet_aton_ntoa)
  then show "inet_addr (inet_ntoa x) = x" by (simp add: inet_addr_def)
  have "a4 = [a4 ! 0, a4 ! 1, a4 ! 2, a4 ! 3]"
    using map_nth [of a4] assms(1) by (simp add: upt_rec numeral_eq_Suc)
  with assms(3) show "\<exists>s. inet_ntop AF_INET a4 size4 = Some s \<and> inet_pton AF_INET s = Some a4"
    by (simp add: inet_ntop_def inet_pton_def inet_ntop4_fits inet_pton4_quad)
  show "\<exists>s. inet_ntop AF_INET6 a6 size6 = Some s \<and> inet_pton AF_INET6 s = Some a6"
    using inet6_roundtrip [OF assms(2,4)] by (simp add: inet_ntop_def inet_pton_def)
qed

text \<open>
  C39: Printing an address and reading the text gives the address: the dotted quad of
  \<open>inet_ntoa\<close> read by \<open>inet_aton\<close> and \<open>inet_addr\<close>, and what \<open>inet_ntop\<close> prints into a buffer of
  the standard length read by \<open>inet_pton\<close>, for IPv4 and for IPv6 with its run of zeros left out
  or its embedded quad.
\<close>

theorem addresses_survive:
  assumes "length a4 = 4" "length a6 = 16" "16 \<le> size4" "46 \<le> size6"
  shows "inet_aton (inet_ntoa x) = Some x \<and>
    inet_addr (inet_ntoa x) = x \<and>
    (\<exists>s. inet_ntop AF_INET a4 size4 = Some s \<and> inet_pton AF_INET s = Some a4) \<and>
    (\<exists>s. inet_ntop AF_INET6 a6 size6 = Some s \<and> inet_pton AF_INET6 s = Some a6)"
  by (intro conjI address_facts [OF assms])

lemma addresses_survive_witness:
  "\<exists>s. inet_ntop AF_INET6 (replicate 15 0 @ [1]) 46 = Some s \<and> inet_pton AF_INET6 s = Some (replicate 15 0 @ [1])"
  using addresses_survive [of "replicate 4 0" "replicate 15 0 @ [1]" 16 46] by simp

text \<open>A leading zero before 8 is refused, before 9 it is not.\<close>

lemma leading_zeros:
  "inet_pton AF_INET [49, 46, 50, 46, 51, 46, 48, 56] = None"
  "inet_pton AF_INET [49, 46, 50, 46, 51, 46, 48, 57] = Some [1, 2, 3, 9]"
  by code_simp+

end
