(* ===== verification/Qsort.thy ===== *)
theory Qsort
  imports Uuid "HOL-Library.Multiset"
begin

text \<open>
  Sorting and searching arrays (src/core/qsort.c and bsearch.c). An array is the list of its
  elements and a pointer into it the number of an element; the comparison is a function of two
  elements, and an element of \<open>es\<close> bytes is moved as a whole, whatever words it is copied by. What
  the code stores in an \<open>int\<close>, a number of bytes in \<open>qsort\<close> and of elements in \<open>bsearch\<close>, is cut to 32 bits
  by \<open>to_int32\<close>; a number of bytes is divided by \<open>es\<close> to move a pointer, which is exact as long as
  it has not been cut.

  \<open>within\<close> says that only a part of an array is rearranged; \<open>parted\<close> is the invariant of the
  partition. The locale \<open>comparison\<close> holds what a comparison promises, and under it the routine
  sorts and the search finds; it is interpreted for \<open>uuid_compare\<close>.
\<close>

lemma to_int32_id: "- (2 ^ 31) \<le> x \<Longrightarrow> x < 2 ^ 31 \<Longrightarrow> to_int32 x = x"
  by (simp add: to_int32_def)

lemma to_int32_le: "0 \<le> x \<Longrightarrow> to_int32 x \<le> x"
  unfolding to_int32_def using zmod_le_nonneg_dividend [of "x + 2 ^ 31" "2 ^ 32"] by simp

section \<open>Swapping\<close>

definition elem :: "'a list \<Rightarrow> int \<Rightarrow> 'a" where "elem xs i = xs ! nat i"

definition swap :: "int \<Rightarrow> int \<Rightarrow> 'a list \<Rightarrow> 'a list" where
  "swap i j xs = xs[nat i := elem xs j, nat j := elem xs i]"

primrec swapfunc :: "int \<Rightarrow> int \<Rightarrow> nat \<Rightarrow> 'a list \<Rightarrow> 'a list" where
  "swapfunc a b 0 xs = xs"
| "swapfunc a b (Suc i) xs = swapfunc (a + 1) (b + 1) i (swap a b xs)"

definition vecswap :: "int \<Rightarrow> int \<Rightarrow> int \<Rightarrow> 'a list \<Rightarrow> 'a list" where
  "vecswap a b n xs = (if n > 0 then swapfunc a b (nat n) xs else xs)"

section \<open>The parts of the routine\<close>

text \<open>The insertion sort: an element is moved down to its place, for each but the first.\<close>

function sift_down :: "('a \<Rightarrow> 'a \<Rightarrow> int) \<Rightarrow> int \<Rightarrow> int \<Rightarrow> 'a list \<Rightarrow> 'a list" where
  "sift_down cmp a pl xs =
     (if pl > a \<and> cmp (elem xs (pl - 1)) (elem xs pl) > 0
      then sift_down cmp a (pl - 1) (swap pl (pl - 1) xs) else xs)"
  by auto
termination by (relation "measure (\<lambda>(cmp, a, pl, xs). nat (pl - a))") auto

declare sift_down.simps [simp del]

function insertion_from :: "('a \<Rightarrow> 'a \<Rightarrow> int) \<Rightarrow> int \<Rightarrow> int \<Rightarrow> int \<Rightarrow> 'a list \<Rightarrow> 'a list" where
  "insertion_from cmp a n pm xs =
     (if pm < a + n then insertion_from cmp a n (pm + 1) (sift_down cmp a pm xs) else xs)"
  by auto
termination by (relation "measure (\<lambda>(cmp, a, n, pm, xs). nat (a + n - pm))") auto

declare insertion_from.simps [simp del]

definition insertion_sort :: "('a \<Rightarrow> 'a \<Rightarrow> int) \<Rightarrow> int \<Rightarrow> int \<Rightarrow> 'a list \<Rightarrow> 'a list" where
  "insertion_sort cmp a n xs = insertion_from cmp a n (a + 1) xs"

definition med3 :: "('a \<Rightarrow> 'a \<Rightarrow> int) \<Rightarrow> 'a list \<Rightarrow> int \<Rightarrow> int \<Rightarrow> int \<Rightarrow> int" where
  "med3 cmp xs a b c =
     (if cmp (elem xs a) (elem xs b) < 0 then
        (if cmp (elem xs b) (elem xs c) < 0 then b
         else if cmp (elem xs a) (elem xs c) < 0 then c else a)
      else
        (if cmp (elem xs b) (elem xs c) > 0 then b
         else if cmp (elem xs a) (elem xs c) < 0 then a else c))"

definition choose_pivot :: "('a \<Rightarrow> 'a \<Rightarrow> int) \<Rightarrow> nat \<Rightarrow> 'a list \<Rightarrow> int \<Rightarrow> int \<Rightarrow> int" where
  "choose_pivot cmp es xs a n =
     (let pm = a + n div 2 in
      if n > 7 then
        (let pl = a; pn = a + (n - 1);
             (pl, pm, pn) =
               (if n > 40 then
                  (let d = to_int32 (n div 8 * int es) div int es in
                   (med3 cmp xs pl (pl + d) (pl + 2 * d), med3 cmp xs (pm - d) pm (pm + d),
                    med3 cmp xs (pn - 2 * d) (pn - d) pn))
                else (pl, pm, pn)) in
         med3 cmp xs pl pm pn)
      else pm)"

text \<open>The variables of the partition.\<close>

record 'a part =
  pt_xs :: "'a list"
  pt_pa :: int
  pt_pb :: int
  pt_pc :: int
  pt_pd :: int
  pt_cnt :: bool

function scan_left :: "('a \<Rightarrow> 'a \<Rightarrow> int) \<Rightarrow> int \<Rightarrow> 'a part \<Rightarrow> 'a part" where
  "scan_left cmp a p =
     (if pt_pb p \<le> pt_pc p \<and> cmp (elem (pt_xs p) (pt_pb p)) (elem (pt_xs p) a) \<le> 0 then
        scan_left cmp a
          (let p = (if cmp (elem (pt_xs p) (pt_pb p)) (elem (pt_xs p) a) = 0
             then p\<lparr>pt_cnt := True, pt_xs := swap (pt_pa p) (pt_pb p) (pt_xs p), pt_pa := pt_pa p + 1\<rparr> else p)
           in p\<lparr>pt_pb := pt_pb p + 1\<rparr>)
      else p)"
  by auto
termination by (relation "measure (\<lambda>(cmp, a, p). nat (pt_pc p + 1 - pt_pb p))") (auto simp: Let_def)

declare scan_left.simps [simp del]

function scan_right :: "('a \<Rightarrow> 'a \<Rightarrow> int) \<Rightarrow> int \<Rightarrow> 'a part \<Rightarrow> 'a part" where
  "scan_right cmp a p =
     (if pt_pb p \<le> pt_pc p \<and> cmp (elem (pt_xs p) (pt_pc p)) (elem (pt_xs p) a) \<ge> 0 then
        scan_right cmp a
          (let p = (if cmp (elem (pt_xs p) (pt_pc p)) (elem (pt_xs p) a) = 0
             then p\<lparr>pt_cnt := True, pt_xs := swap (pt_pc p) (pt_pd p) (pt_xs p), pt_pd := pt_pd p - 1\<rparr> else p)
           in p\<lparr>pt_pc := pt_pc p - 1\<rparr>)
      else p)"
  by auto
termination by (relation "measure (\<lambda>(cmp, a, p). nat (pt_pc p + 1 - pt_pb p))") (auto simp: Let_def)

declare scan_right.simps [simp del]

lemma scan_left_moves: "pt_pb p \<le> pt_pb (scan_left cmp a p) \<and> pt_pc (scan_left cmp a p) = pt_pc p"
proof (induction cmp a p rule: scan_left.induct)
  case (1 cmp a p)
  then show ?case by (subst (1 2) scan_left.simps) (auto simp: Let_def)
qed

lemma scan_right_moves: "pt_pc (scan_right cmp a p) \<le> pt_pc p \<and> pt_pb (scan_right cmp a p) = pt_pb p"
proof (induction cmp a p rule: scan_right.induct)
  case (1 cmp a p)
  then show ?case by (subst (1 2) scan_right.simps) (auto simp: Let_def)
qed

function partition_loop :: "('a \<Rightarrow> 'a \<Rightarrow> int) \<Rightarrow> int \<Rightarrow> 'a part \<Rightarrow> 'a part" where
  "partition_loop cmp a p =
     (let p = scan_right cmp a (scan_left cmp a p) in
      if pt_pb p > pt_pc p then p
      else partition_loop cmp a
        (p\<lparr>pt_xs := swap (pt_pb p) (pt_pc p) (pt_xs p), pt_cnt := True, pt_pb := pt_pb p + 1, pt_pc := pt_pc p - 1\<rparr>))"
  by auto
termination
proof (relation "measure (\<lambda>(cmp, a, p). nat (pt_pc p + 1 - pt_pb p))")
  fix cmp :: "'a \<Rightarrow> 'a \<Rightarrow> int" and a p q
  assume "q = scan_right cmp a (scan_left cmp a p)" "\<not> pt_pc q < pt_pb q"
  then show "((cmp, a, q\<lparr>pt_xs := swap (pt_pb q) (pt_pc q) (pt_xs q), pt_cnt := True, pt_pb := pt_pb q + 1, pt_pc := pt_pc q - 1\<rparr>),
      cmp, a, p) \<in> measure (\<lambda>(cmp, a, p). nat (pt_pc p + 1 - pt_pb p))"
    using scan_left_moves [of p cmp a] scan_right_moves [of cmp a "scan_left cmp a p"] by simp
qed simp

declare partition_loop.simps [simp del]

definition partition_at :: "('a \<Rightarrow> 'a \<Rightarrow> int) \<Rightarrow> nat \<Rightarrow> int \<Rightarrow> int \<Rightarrow> 'a list \<Rightarrow> 'a part" where
  "partition_at cmp es a n xs = partition_loop cmp a
     \<lparr>pt_xs = swap a (choose_pivot cmp es xs a n) xs, pt_pa = a + 1, pt_pb = a + 1,
      pt_pc = a + (n - 1), pt_pd = a + (n - 1), pt_cnt = False\<rparr>"

section \<open>Rearranging a part of an array\<close>

text \<open>\<open>ys\<close> is \<open>xs\<close> with the elements from \<open>a\<close> up to \<open>b\<close> rearranged.\<close>

definition within :: "int \<Rightarrow> int \<Rightarrow> 'a list \<Rightarrow> 'a list \<Rightarrow> bool" where
  "within a b xs ys \<longleftrightarrow> mset ys = mset xs \<and> (\<forall>k\<ge>0. k < a \<or> b \<le> k \<longrightarrow> elem ys k = elem xs k)"

lemma within_refl [simp]: "within a b xs xs"
  by (simp add: within_def)

lemma within_trans [trans]: "within a b xs ys \<Longrightarrow> within a b ys zs \<Longrightarrow> within a b xs zs"
  by (simp add: within_def)

lemma within_mono: "within a' b' xs ys \<Longrightarrow> a \<le> a' \<Longrightarrow> b' \<le> b \<Longrightarrow> within a b xs ys"
  unfolding within_def by (meson order_less_le_trans order_trans)

lemma within_length: "within a b xs ys \<Longrightarrow> length ys = length xs"
  by (metis within_def mset_eq_length)

lemma within_elem: "within a b xs ys \<Longrightarrow> 0 \<le> k \<Longrightarrow> k < a \<or> b \<le> k \<Longrightarrow> elem ys k = elem xs k"
  unfolding within_def by blast

lemma elem_swap:
  assumes "0 \<le> i" "i < int (length xs)" "0 \<le> j" "j < int (length xs)" "0 \<le> k"
  shows "elem (swap i j xs) k = (if k = i then elem xs j else if k = j then elem xs i else elem xs k)"
proof -
  have "nat k = nat i \<longleftrightarrow> k = i" "nat k = nat j \<longleftrightarrow> k = j" using assms by auto
  with assms show ?thesis by (auto simp: elem_def swap_def nth_list_update)
qed

lemma length_swap [simp]: "length (swap i j xs) = length xs"
  by (simp add: swap_def)

lemma swap_within:
  assumes "0 \<le> a" "b \<le> int (length xs)" "a \<le> i" "i < b" "a \<le> j" "j < b"
  shows "within a b xs (swap i j xs)"
proof -
  have "mset (swap i j xs) = mset xs"
    using assms by (simp add: swap_def elem_def mset_swap)
  then show ?thesis using assms by (auto simp: within_def elem_swap)
qed

text \<open>The elements of the part are the same ones.\<close>

lemma within_part:
  assumes "within a b xs ys" "0 \<le> a" "a \<le> b" "b \<le> int (length xs)" "a \<le> k" "k < b"
  shows "\<exists>j. a \<le> j \<and> j < b \<and> elem ys k = elem xs j"
proof -
  have len: "length ys = length xs" using assms(1) by (rule within_length)
  have same: "ys ! m = xs ! m" if "m < nat a \<or> nat b \<le> m" for m
  proof -
    have "int m < a \<or> b \<le> int m" using that assms(2) by linarith
    then show ?thesis using within_elem [OF assms(1), of "int m"] by (simp add: elem_def)
  qed
  let ?part = "\<lambda>zs :: 'a list. take (nat (b - a)) (drop (nat a) zs)"
  have nb: "nat b = nat (b - a) + nat a" using assms by simp
  have split: "mset zs = mset (take (nat a) zs) + (mset (?part zs) + mset (drop (nat b) zs))" for zs :: "'a list"
    unfolding nb drop_drop [symmetric] mset_append [symmetric] append_take_drop_id ..
  have "take (nat a) ys = take (nat a) xs"
    using assms(2) len same by (intro nth_equalityI) auto
  moreover have "drop (nat b) ys = drop (nat b) xs"
    using len same assms by (intro nth_equalityI) auto
  moreover have "mset ys = mset xs" using assms(1) by (simp add: within_def)
  ultimately have "mset (?part ys) = mset (?part xs)" using split [of xs] split [of ys] by simp
  then have "set (?part ys) = set (?part xs)" by (metis set_mset_mset)
  moreover have "?part ys ! nat (k - a) = elem ys k"
    using assms len by (simp add: elem_def nat_add_distrib [symmetric])
  moreover have "nat (k - a) < length (?part ys)" using assms len by simp
  ultimately have "elem ys k \<in> set (?part xs)" by (metis nth_mem)
  then obtain m where "m < nat (b - a)" "elem ys k = xs ! (nat a + m)"
    using assms(4) by (auto simp: in_set_conv_nth)
  then show ?thesis using assms(2,3) by (intro exI [of _ "a + int m"]) (auto simp: elem_def nat_add_distrib)
qed

section \<open>The partition\<close>

definition region :: "('a \<Rightarrow> bool) \<Rightarrow> 'a list \<Rightarrow> int \<Rightarrow> int \<Rightarrow> bool" where
  "region P xs i j \<longleftrightarrow> (\<forall>k. i \<le> k \<and> k < j \<longrightarrow> P (elem xs k))"

text \<open>
  From both ends the elements equal to the pivot, then on the left those less than it and on the
  right those greater, and between \<open>pb\<close> and \<open>pc\<close> those not looked at yet.
\<close>

definition parted :: "('a \<Rightarrow> 'a \<Rightarrow> int) \<Rightarrow> int \<Rightarrow> int \<Rightarrow> 'a list \<Rightarrow> 'a part \<Rightarrow> bool" where
  "parted cmp a b xs p \<longleftrightarrow> within (a + 1) b xs (pt_xs p) \<and> 0 \<le> a \<and> b \<le> int (length xs) \<and>
     a < pt_pa p \<and> pt_pa p \<le> pt_pb p \<and> pt_pb p \<le> pt_pc p + 1 \<and> pt_pc p \<le> pt_pd p \<and> pt_pd p < b \<and>
     region (\<lambda>x. cmp x (elem xs a) = 0) (pt_xs p) (a + 1) (pt_pa p) \<and>
     region (\<lambda>x. cmp x (elem xs a) < 0) (pt_xs p) (pt_pa p) (pt_pb p) \<and>
     region (\<lambda>x. cmp x (elem xs a) > 0) (pt_xs p) (pt_pc p + 1) (pt_pd p + 1) \<and>
     region (\<lambda>x. cmp x (elem xs a) = 0) (pt_xs p) (pt_pd p + 1) b"

lemma parted_pivot: "parted cmp a b xs p \<Longrightarrow> elem (pt_xs p) a = elem xs a"
  by (simp add: parted_def within_def)

lemma parted_length: "parted cmp a b xs p \<Longrightarrow> length (pt_xs p) = length xs"
  using within_length by (auto simp: parted_def)

lemma parted_swap:
  assumes "parted cmp a b xs p" "a < i" "i < b" "a < j" "j < b"
  shows "within (a + 1) b xs (swap i j (pt_xs p))"
proof -
  have "within (a + 1) b (pt_xs p) (swap i j (pt_xs p))"
    using assms parted_length [OF assms(1)] by (intro swap_within) (auto simp: parted_def)
  with assms(1) show ?thesis unfolding parted_def by (blast intro: within_trans)
qed

lemma scan_left_step:
  assumes inv: "parted cmp a b xs p" and go: "pt_pb p \<le> pt_pc p" "cmp (elem (pt_xs p) (pt_pb p)) (elem (pt_xs p) a) \<le> 0"
  shows "parted cmp a b xs (let p = (if cmp (elem (pt_xs p) (pt_pb p)) (elem (pt_xs p) a) = 0
             then p\<lparr>pt_cnt := True, pt_xs := swap (pt_pa p) (pt_pb p) (pt_xs p), pt_pa := pt_pa p + 1\<rparr> else p)
           in p\<lparr>pt_pb := pt_pb p + 1\<rparr>)"
proof (cases "cmp (elem (pt_xs p) (pt_pb p)) (elem (pt_xs p) a) = 0")
  case eq: True
  have "within (a + 1) b xs (swap (pt_pa p) (pt_pb p) (pt_xs p))"
    using inv go by (intro parted_swap [OF inv]) (auto simp: parted_def)
  then show ?thesis using inv go eq parted_length [OF inv] parted_pivot [OF inv]
    by (simp add: parted_def region_def elem_swap)
next
  case False
  then show ?thesis using inv go parted_pivot [OF inv]
    by (auto simp: parted_def region_def dest: order_le_imp_less_or_eq)
qed

lemma scan_left_parted:
  assumes "parted cmp a b xs p"
  shows "parted cmp a b xs (scan_left cmp a p) \<and> (pt_pb (scan_left cmp a p) \<le> pt_pc (scan_left cmp a p) \<longrightarrow>
    cmp (elem (pt_xs (scan_left cmp a p)) (pt_pb (scan_left cmp a p))) (elem xs a) > 0)"
  using assms
proof (induction cmp a p rule: scan_left.induct)
  case (1 cmp a p)
  note inv = 1(2) and piv = parted_pivot [OF 1(2)] and len = parted_length [OF 1(2)]
  show ?case
  proof (cases "pt_pb p \<le> pt_pc p \<and> cmp (elem (pt_xs p) (pt_pb p)) (elem (pt_xs p) a) \<le> 0")
    case True
    note step = scan_left_step [OF inv conjunct1 [OF True] conjunct2 [OF True]]
    from 1(1) [OF True step]
    show ?thesis unfolding scan_left.simps [of cmp a p] if_P [OF True] .
  next
    case False
    then have stop: "scan_left cmp a p = p" by (subst scan_left.simps) (rule if_not_P)
    show ?thesis unfolding stop using False inv piv by auto
  qed
qed

lemma scan_right_step:
  assumes inv: "parted cmp a b xs p" and go: "pt_pb p \<le> pt_pc p" "cmp (elem (pt_xs p) (pt_pc p)) (elem (pt_xs p) a) \<ge> 0"
  shows "parted cmp a b xs (let p = (if cmp (elem (pt_xs p) (pt_pc p)) (elem (pt_xs p) a) = 0
             then p\<lparr>pt_cnt := True, pt_xs := swap (pt_pc p) (pt_pd p) (pt_xs p), pt_pd := pt_pd p - 1\<rparr> else p)
           in p\<lparr>pt_pc := pt_pc p - 1\<rparr>)"
proof (cases "cmp (elem (pt_xs p) (pt_pc p)) (elem (pt_xs p) a) = 0")
  case eq: True
  have "within (a + 1) b xs (swap (pt_pc p) (pt_pd p) (pt_xs p))"
    using inv go by (intro parted_swap [OF inv]) (auto simp: parted_def)
  then show ?thesis using inv go eq parted_length [OF inv] parted_pivot [OF inv]
    by (simp add: parted_def region_def elem_swap)
next
  case False
  then show ?thesis using inv go parted_pivot [OF inv]
    by (auto simp: parted_def region_def dest: order_le_imp_less_or_eq)
qed

lemma scan_right_parted:
  assumes "parted cmp a b xs p"
  shows "parted cmp a b xs (scan_right cmp a p) \<and> (pt_pb (scan_right cmp a p) \<le> pt_pc (scan_right cmp a p) \<longrightarrow>
    cmp (elem (pt_xs (scan_right cmp a p)) (pt_pc (scan_right cmp a p))) (elem xs a) < 0)"
  using assms
proof (induction cmp a p rule: scan_right.induct)
  case (1 cmp a p)
  note inv = 1(2) and piv = parted_pivot [OF 1(2)] and len = parted_length [OF 1(2)]
  show ?case
  proof (cases "pt_pb p \<le> pt_pc p \<and> cmp (elem (pt_xs p) (pt_pc p)) (elem (pt_xs p) a) \<ge> 0")
    case True
    note step = scan_right_step [OF inv conjunct1 [OF True] conjunct2 [OF True]]
    from 1(1) [OF True step]
    show ?thesis unfolding scan_right.simps [of cmp a p] if_P [OF True] .
  next
    case False
    then have stop: "scan_right cmp a p = p" by (subst scan_right.simps) (rule if_not_P)
    show ?thesis unfolding stop using False inv piv by auto
  qed
qed

text \<open>The scan from the right leaves alone the element the one from the left stopped at.\<close>

lemma scan_right_keeps:
  assumes "parted cmp a b xs p" "pt_pb p \<le> pt_pc (scan_right cmp a p)"
  shows "elem (pt_xs (scan_right cmp a p)) (pt_pb p) = elem (pt_xs p) (pt_pb p)"
  using assms
proof (induction cmp a p rule: scan_right.induct)
  case (1 cmp a p)
  note inv = 1(2) and piv = parted_pivot [OF 1(2)] and len = parted_length [OF 1(2)]
  show ?case
  proof (cases "pt_pb p \<le> pt_pc p \<and> cmp (elem (pt_xs p) (pt_pc p)) (elem (pt_xs p) a) \<ge> 0")
    case True
    define q where "q = (let p = (if cmp (elem (pt_xs p) (pt_pc p)) (elem (pt_xs p) a) = 0
             then p\<lparr>pt_cnt := True, pt_xs := swap (pt_pc p) (pt_pd p) (pt_xs p), pt_pd := pt_pd p - 1\<rparr> else p)
           in p\<lparr>pt_pc := pt_pc p - 1\<rparr>)"
    have step: "scan_right cmp a p = scan_right cmp a q"
      unfolding q_def by (subst scan_right.simps) (rule if_P [OF True])
    have q: "parted cmp a b xs q" unfolding q_def by (rule scan_right_step [OF inv]) (use True in auto)
    have fields: "pt_pb q = pt_pb p" "pt_pc q = pt_pc p - 1" by (simp_all add: q_def Let_def)
    have "pt_pb q \<le> pt_pc (scan_right cmp a q)" using 1(3) step fields by simp
    with 1(1) [OF True, folded q_def, OF q] have "elem (pt_xs (scan_right cmp a q)) (pt_pb p) = elem (pt_xs q) (pt_pb p)"
      by (simp add: fields)
    moreover have "pt_pb p < pt_pc p"
      using \<open>pt_pb q \<le> _\<close> scan_right_moves [of cmp a q] by (simp add: fields)
    then have "elem (pt_xs q) (pt_pb p) = elem (pt_xs p) (pt_pb p)"
      using inv len by (auto simp: q_def Let_def parted_def elem_swap)
    ultimately show ?thesis unfolding step by simp
  next
    case False
    then have stop: "scan_right cmp a p = p" by (subst scan_right.simps) (rule if_not_P)
    show ?thesis unfolding stop ..
  qed
qed

text \<open>Where one scan stops and the other does too, the two elements change places.\<close>

lemma parted_cross:
  assumes "parted cmp a b xs p" "pt_pb p \<le> pt_pc p"
    "cmp (elem (pt_xs p) (pt_pb p)) (elem xs a) > 0" "cmp (elem (pt_xs p) (pt_pc p)) (elem xs a) < 0"
  shows "parted cmp a b xs
    (p\<lparr>pt_xs := swap (pt_pb p) (pt_pc p) (pt_xs p), pt_cnt := True, pt_pb := pt_pb p + 1, pt_pc := pt_pc p - 1\<rparr>)"
proof -
  have "within (a + 1) b xs (swap (pt_pb p) (pt_pc p) (pt_xs p))"
    using assms by (intro parted_swap [OF assms(1)]) (auto simp: parted_def)
  moreover have "pt_pb p \<noteq> pt_pc p" using assms(3,4) by auto
  ultimately show ?thesis using assms parted_length [OF assms(1)]
    by (simp add: parted_def region_def elem_swap)
qed

lemma partition_loop_parted:
  assumes "parted cmp a b xs p"
  shows "parted cmp a b xs (partition_loop cmp a p) \<and> pt_pb (partition_loop cmp a p) = pt_pc (partition_loop cmp a p) + 1"
  using assms
proof (induction cmp a p rule: partition_loop.induct)
  case (1 cmp a p)
  define q where "q = scan_right cmp a (scan_left cmp a p)"
  have left: "parted cmp a b xs (scan_left cmp a p)" using scan_left_parted [OF 1(2)] by simp
  have q: "parted cmp a b xs q" using scan_right_parted [OF left] by (simp add: q_def)
  show ?case
  proof (cases "pt_pb q > pt_pc q")
    case True
    then have stop: "partition_loop cmp a p = q"
      by (subst partition_loop.simps) (simp add: q_def Let_def)
    show ?thesis unfolding stop using True q by (auto simp: parted_def)
  next
    case False
    let ?q = "q\<lparr>pt_xs := swap (pt_pb q) (pt_pc q) (pt_xs q), pt_cnt := True, pt_pb := pt_pb q + 1, pt_pc := pt_pc q - 1\<rparr>"
    have step: "partition_loop cmp a p = partition_loop cmp a ?q"
      using False by (subst partition_loop.simps) (simp add: q_def Let_def)
    have "cmp (elem (pt_xs q) (pt_pc q)) (elem xs a) < 0"
      using scan_right_parted [OF left] False by (simp add: q_def)
    moreover have "cmp (elem (pt_xs q) (pt_pb q)) (elem xs a) > 0"
      using scan_left_parted [OF 1(2)] scan_right_keeps [OF left] scan_right_moves [of cmp a "scan_left cmp a p"] False
      by (auto simp: q_def)
    ultimately have "parted cmp a b xs ?q" using q False by (intro parted_cross) auto
    from 1(1) [OF q_def False this] show ?thesis unfolding step .
  qed
qed

lemma med3_bounds:
  "a \<le> i \<Longrightarrow> a \<le> j \<Longrightarrow> a \<le> k \<Longrightarrow> i < b \<Longrightarrow> j < b \<Longrightarrow> k < b \<Longrightarrow> a \<le> med3 cmp xs i j k \<and> med3 cmp xs i j k < b"
  by (simp add: med3_def)

lemma choose_pivot_bounds:
  assumes "1 \<le> n" "0 < es" "n * int es < 2 ^ 31"
  shows "a \<le> choose_pivot cmp es xs a n \<and> choose_pivot cmp es xs a n < a + n"
proof (cases "n > 40")
  case True
  have "n div 8 * int es \<le> n * int es" using assms by (intro mult_right_mono) auto
  moreover have "0 \<le> n div 8 * int es" using assms by simp
  ultimately have "to_int32 (n div 8 * int es) = n div 8 * int es" using assms(3) by (simp add: to_int32_id)
  then have bytes: "to_int32 (n div 8 * int es) div int es = n div 8" using assms(2) by simp
  let ?d = "n div 8" and ?m = "a + n div 2" and ?n = "a + (n - 1)"
  let ?pl = "med3 cmp xs a (a + ?d) (a + 2 * ?d)" and ?pm = "med3 cmp xs (?m - ?d) ?m (?m + ?d)"
    and ?pn = "med3 cmp xs (?n - 2 * ?d) (?n - ?d) ?n"
  have pivot: "choose_pivot cmp es xs a n = med3 cmp xs ?pl ?pm ?pn"
    using True by (simp add: choose_pivot_def Let_def bytes)
  have d: "0 \<le> ?d" "2 * ?d < n" "?d \<le> n div 2" "n div 2 + ?d < n" using True by linarith+
  have pl: "a \<le> ?pl \<and> ?pl < a + n" by (rule med3_bounds) (use d True in linarith)+
  have pm: "a \<le> ?pm \<and> ?pm < a + n" by (rule med3_bounds) (use d True in linarith)+
  have pn: "a \<le> ?pn \<and> ?pn < a + n" by (rule med3_bounds) (use d True in linarith)+
  show ?thesis unfolding pivot by (rule med3_bounds) (use pl pm pn in blast)+
next
  case False
  then show ?thesis
    using med3_bounds [of a a "a + n div 2" "a + (n - 1)" "a + n" cmp xs] assms
    by (auto simp: choose_pivot_def Let_def)
qed

section \<open>The routine\<close>

text \<open>The bounds of the partition, whatever the comparison returns: each part is smaller than the whole.\<close>

definition part_bounds :: "int \<Rightarrow> int \<Rightarrow> 'a part \<Rightarrow> bool" where
  "part_bounds a b p \<longleftrightarrow> a < pt_pa p \<and> pt_pa p \<le> pt_pb p \<and> pt_pb p \<le> b \<and> a \<le> pt_pc p \<and> pt_pc p \<le> pt_pd p \<and> pt_pd p < b"

lemma scan_left_bounds: "part_bounds a b p \<Longrightarrow> part_bounds a b (scan_left cmp a p)"
proof (induction cmp a p rule: scan_left.induct)
  case (1 cmp a p)
  then show ?case by (subst scan_left.simps) (auto simp: Let_def part_bounds_def)
qed

lemma scan_right_bounds: "part_bounds a b p \<Longrightarrow> part_bounds a b (scan_right cmp a p)"
proof (induction cmp a p rule: scan_right.induct)
  case (1 cmp a p)
  then show ?case by (subst scan_right.simps) (auto simp: Let_def part_bounds_def)
qed

lemma partition_loop_bounds: "part_bounds a b p \<Longrightarrow> part_bounds a b (partition_loop cmp a p)"
proof (induction cmp a p rule: partition_loop.induct)
  case (1 cmp a p)
  define q where "q = scan_right cmp a (scan_left cmp a p)"
  have q: "part_bounds a b q" using 1(2) by (simp add: q_def scan_left_bounds scan_right_bounds)
  show ?case
  proof (cases "pt_pb q > pt_pc q")
    case True
    then have stop: "partition_loop cmp a p = q"
      by (subst partition_loop.simps) (simp add: q_def Let_def)
    show ?thesis unfolding stop by (rule q)
  next
    case False
    let ?q = "q\<lparr>pt_xs := swap (pt_pb q) (pt_pc q) (pt_xs q), pt_cnt := True, pt_pb := pt_pb q + 1, pt_pc := pt_pc q - 1\<rparr>"
    have step: "partition_loop cmp a p = partition_loop cmp a ?q"
      using False by (subst partition_loop.simps) (simp add: q_def Let_def)
    have "part_bounds a b ?q" using q False by (auto simp: part_bounds_def)
    from 1(1) [OF q_def False this] show ?thesis unfolding step .
  qed
qed

lemma partition_at_bounds: "n \<ge> 1 \<Longrightarrow> part_bounds a (a + n) (partition_at cmp es a n xs)"
  unfolding partition_at_def by (rule partition_loop_bounds) (simp add: part_bounds_def)

lemma part_smaller:
  assumes "0 \<le> k" "k < n"
  shows "to_int32 (k * int es) div int es < n"
proof (cases "es = 0")
  case False
  have "to_int32 (k * int es) div int es \<le> k * int es div int es"
    using to_int32_le [of "k * int es"] assms(1) False by (intro zdiv_mono1) auto
  then show ?thesis using assms(2) False by simp
qed (use assms in auto)

function qsort :: "('a \<Rightarrow> 'a \<Rightarrow> int) \<Rightarrow> nat \<Rightarrow> int \<Rightarrow> int \<Rightarrow> 'a list \<Rightarrow> 'a list" where
  "qsort cmp es a n xs =
     (if n < 7 then insertion_sort cmp a n xs
      else
        (let p = partition_at cmp es a n xs in
         if \<not> pt_cnt p then insertion_sort cmp a n (pt_xs p)
         else
           (let pn = a + n;
                r = to_int32 (min ((pt_pa p - a) * int es) ((pt_pb p - pt_pa p) * int es));
                xs = vecswap a (pt_pb p - r div int es) (r div int es) (pt_xs p);
                r = to_int32 (min ((pt_pd p - pt_pc p) * int es) ((pn - pt_pd p) * int es - to_int32 (int es)));
                xs = vecswap (pt_pb p) (pn - r div int es) (r div int es) xs;
                r = to_int32 ((pt_pb p - pt_pa p) * int es);
                xs = (if r > to_int32 (int es) then qsort cmp es a (r div int es) xs else xs);
                r = to_int32 ((pt_pd p - pt_pc p) * int es) in
            if r > to_int32 (int es) then qsort cmp es (pn - r div int es) (r div int es) xs else xs)))"
  by auto
termination
proof (relation "measure (\<lambda>(cmp, es, a, n, xs). nat n)")
  fix cmp :: "'a \<Rightarrow> 'a \<Rightarrow> int" and es a n xs p pn x r y z
  assume n: "\<not> n < 7" "p = partition_at cmp es a n xs" "z = to_int32 ((pt_pb p - pt_pa p) * int es)"
  have "z div int es < n"
    unfolding n(3) using partition_at_bounds [of n a cmp es xs] n(1,2) by (intro part_smaller) (auto simp: part_bounds_def)
  then show "((cmp, es, a, z div int es, r), cmp, es, a, n, xs) \<in> measure (\<lambda>(cmp, es, a, n, xs). nat n)"
    using n(1) by simp
next
  fix cmp :: "'a \<Rightarrow> 'a \<Rightarrow> int" and es a n xs p pn x r y z
  assume n: "\<not> n < 7" "p = partition_at cmp es a n xs" "z = to_int32 ((pt_pd p - pt_pc p) * int es)"
  have "z div int es < n"
    unfolding n(3) using partition_at_bounds [of n a cmp es xs] n(1,2) by (intro part_smaller) (auto simp: part_bounds_def)
  then show "((cmp, es, pn - z div int es, z div int es, r), cmp, es, a, n, xs) \<in> measure (\<lambda>(cmp, es, a, n, xs). nat n)"
    using n(1) by simp
qed simp

declare qsort.simps [simp del]

section \<open>Every step rearranges its part of the array only\<close>

lemma swapfunc_within:
  assumes "0 \<le> a" "b \<le> int (length xs)" "a \<le> i" "i + int n \<le> b" "a \<le> j" "j + int n \<le> b"
  shows "within a b xs (swapfunc i j n xs)"
  using assms
proof (induction n arbitrary: i j xs)
  case (Suc n)
  have "within a b xs (swap i j xs)" using Suc.prems by (intro swap_within) auto
  moreover have "within a b (swap i j xs) (swapfunc (i + 1) (j + 1) n (swap i j xs))"
    using Suc.prems by (intro Suc.IH) auto
  ultimately show ?case by (simp add: within_trans)
qed simp

lemma vecswap_within:
  assumes "0 \<le> a" "b \<le> int (length xs)" "a \<le> i" "i + n \<le> b" "a \<le> j" "j + n \<le> b"
  shows "within a b xs (vecswap i j n xs)"
  using assms swapfunc_within [of a b xs i "nat n" j] by (simp add: vecswap_def)

lemma elem_swapfunc:
  assumes "0 \<le> i" "i + int n \<le> j" "j + int n \<le> int (length xs)" "0 \<le> k"
  shows "elem (swapfunc i j n xs) k =
    (if i \<le> k \<and> k < i + int n then elem xs (k - i + j)
     else if j \<le> k \<and> k < j + int n then elem xs (k - j + i) else elem xs k)"
  using assms
proof (induction n arbitrary: i j xs)
  case (Suc n)
  have IH: "elem (swapfunc (i + 1) (j + 1) n (swap i j xs)) k =
    (if i + 1 \<le> k \<and> k < i + 1 + int n then elem (swap i j xs) (k - i + j)
     else if j + 1 \<le> k \<and> k < j + 1 + int n then elem (swap i j xs) (k - j + i) else elem (swap i j xs) k)"
    using Suc.IH [of "i + 1" "j + 1" "swap i j xs"] Suc.prems by (simp add: algebra_simps)
  have at: "elem (swap i j xs) m = (if m = i then elem xs j else if m = j then elem xs i else elem xs m)" if "0 \<le> m" for m
    using Suc.prems that by (intro elem_swap) auto
  consider "k = i" | "k = j" | "i + 1 \<le> k \<and> k < i + 1 + int n" | "j + 1 \<le> k \<and> k < j + 1 + int n"
    | "k < i \<or> (i + 1 + int n \<le> k \<and> k < j) \<or> j + 1 + int n \<le> k" by linarith
  then show ?case unfolding swapfunc.simps IH using Suc.prems by cases (auto simp: at)
qed auto

lemma sift_down_within:
  assumes "0 \<le> a" "b \<le> int (length xs)" "pl < b"
  shows "within a b xs (sift_down cmp a pl xs)"
  using assms
proof (induction cmp a pl xs rule: sift_down.induct)
  case (1 cmp a pl xs)
  show ?case
  proof (cases "pl > a \<and> cmp (elem xs (pl - 1)) (elem xs pl) > 0")
    case True
    have "within a b xs (swap pl (pl - 1) xs)" using True 1(2-4) by (intro swap_within) auto
    also have "within a b (swap pl (pl - 1) xs) (sift_down cmp a (pl - 1) (swap pl (pl - 1) xs))"
      using 1(1) [OF True] 1(2-4) by simp
    finally show ?thesis by (subst sift_down.simps) (simp add: True)
  next
    case False
    then show ?thesis by (subst sift_down.simps) (simp only: if_False within_refl)
  qed
qed

lemma insertion_from_within:
  assumes "0 \<le> a" "a + n \<le> int (length xs)"
  shows "within a (a + n) xs (insertion_from cmp a n pm xs)"
  using assms
proof (induction cmp a n pm xs rule: insertion_from.induct)
  case (1 cmp a n pm xs)
  show ?case
  proof (cases "pm < a + n")
    case True
    have first: "within a (a + n) xs (sift_down cmp a pm xs)" using True 1(2,3) by (intro sift_down_within) auto
    also have "within a (a + n) (sift_down cmp a pm xs) (insertion_from cmp a n (pm + 1) (sift_down cmp a pm xs))"
      using 1(1) [OF True] 1(2,3) within_length [OF first] by simp
    finally show ?thesis by (subst insertion_from.simps) (simp add: True)
  next
    case False
    then show ?thesis by (subst insertion_from.simps) simp
  qed
qed

lemma insertion_sort_within:
  "0 \<le> a \<Longrightarrow> a + n \<le> int (length xs) \<Longrightarrow> within a (a + n) xs (insertion_sort cmp a n xs)"
  by (simp add: insertion_sort_def insertion_from_within)

lemma pivot_within:
  assumes "0 \<le> a" "7 \<le> n" "a + n \<le> int (length xs)" "0 < es" "n * int es < 2 ^ 31"
  shows "within a (a + n) xs (swap a (choose_pivot cmp es xs a n) xs)"
  using assms choose_pivot_bounds [of n es a cmp xs] by (intro swap_within) auto

lemma partition_at_parted:
  assumes "0 \<le> a" "7 \<le> n" "a + n \<le> int (length xs)"
  shows "parted cmp a (a + n) (swap a (choose_pivot cmp es xs a n) xs) (partition_at cmp es a n xs) \<and>
    pt_pb (partition_at cmp es a n xs) = pt_pc (partition_at cmp es a n xs) + 1"
  unfolding partition_at_def using assms by (intro partition_loop_parted) (simp add: parted_def region_def)

lemma partition_at_within:
  assumes "0 \<le> a" "7 \<le> n" "a + n \<le> int (length xs)" "0 < es" "n * int es < 2 ^ 31"
  shows "within a (a + n) xs (pt_xs (partition_at cmp es a n xs))"
proof -
  have "within (a + 1) (a + n) (swap a (choose_pivot cmp es xs a n) xs) (pt_xs (partition_at cmp es a n xs))"
    using partition_at_parted [OF assms(1-3)] by (simp add: parted_def)
  then have "within a (a + n) (swap a (choose_pivot cmp es xs a n) xs) (pt_xs (partition_at cmp es a n xs))"
    by (rule within_mono) auto
  with pivot_within [OF assms] show ?thesis by (rule within_trans)
qed

text \<open>The array after the elements equal to the pivot are moved to the middle.\<close>

definition exchanged :: "int \<Rightarrow> int \<Rightarrow> 'a part \<Rightarrow> 'a list" where
  "exchanged a b p =
     (let xs = vecswap a (pt_pb p - min (pt_pa p - a) (pt_pb p - pt_pa p)) (min (pt_pa p - a) (pt_pb p - pt_pa p)) (pt_xs p);
          r = min (pt_pd p - pt_pc p) (b - pt_pd p - 1) in
      vecswap (pt_pb p) (b - r) r xs)"

lemma qsort_insertion:
  "n < 7 \<Longrightarrow> qsort cmp es a n xs = insertion_sort cmp a n xs"
  "7 \<le> n \<Longrightarrow> \<not> pt_cnt (partition_at cmp es a n xs) \<Longrightarrow> qsort cmp es a n xs = insertion_sort cmp a n (pt_xs (partition_at cmp es a n xs))"
  by (subst qsort.simps, simp)+

definition sort_part :: "('a \<Rightarrow> 'a \<Rightarrow> int) \<Rightarrow> nat \<Rightarrow> int \<Rightarrow> int \<Rightarrow> 'a list \<Rightarrow> 'a list" where
  "sort_part cmp es a r xs = (if r > 1 then qsort cmp es a r xs else xs)"

text \<open>Where all sizes in bytes fit in an \<open>int\<close> the parts are counted in elements.\<close>

lemma to_int32_bytes:
  assumes "0 < es" "n * int es < 2 ^ 31" "0 \<le> k" "k \<le> n"
  shows "to_int32 (k * int es) = k * int es"
proof -
  have "k * int es \<le> n * int es" "0 \<le> k * int es" using assms by (simp_all add: mult_right_mono)
  then show ?thesis using assms(2) by (intro to_int32_id) auto
qed

lemma qsort_partition:
  assumes "7 \<le> n" "pt_cnt p" "p = partition_at cmp es a n xs" "0 < es" "n * int es < 2 ^ 31" "pt_pb p = pt_pc p + 1"
  shows "qsort cmp es a n xs =
    sort_part cmp es (a + n - (pt_pd p - pt_pc p)) (pt_pd p - pt_pc p)
      (sort_part cmp es a (pt_pb p - pt_pa p) (exchanged a (a + n) p))"
proof -
  have b: "part_bounds a (a + n) p" using assms(1,3) by (simp add: partition_at_bounds)
  note bytes = to_int32_bytes [OF assms(4,5)]
  have one: "to_int32 (int es) = int es" using bytes [of 1] assms(1) by simp
  have left: "to_int32 (min ((pt_pa p - a) * int es) ((pt_pb p - pt_pa p) * int es)) =
      min (pt_pa p - a) (pt_pb p - pt_pa p) * int es"
    using bytes [of "min (pt_pa p - a) (pt_pb p - pt_pa p)"] b by (auto simp: min_mult_distrib_right part_bounds_def)
  have "(a + n - pt_pd p) * int es - int es = (a + n - pt_pd p - 1) * int es" by (simp add: algebra_simps)
  then have right: "to_int32 (min ((pt_pd p - pt_pc p) * int es) ((a + n - pt_pd p) * int es - int es)) =
      min (pt_pd p - pt_pc p) (a + n - pt_pd p - 1) * int es"
    using bytes [of "min (pt_pd p - pt_pc p) (a + n - pt_pd p - 1)"] b by (auto simp: min_mult_distrib_right part_bounds_def)
  have parts: "to_int32 ((pt_pb p - pt_pa p) * int es) = (pt_pb p - pt_pa p) * int es"
      "to_int32 ((pt_pd p - pt_pc p) * int es) = (pt_pd p - pt_pc p) * int es"
    using bytes b by (auto simp: part_bounds_def)
  have more: "k * int es > int es \<longleftrightarrow> k > 1" for k using assms(4) by simp
  show ?thesis
    using assms(1,2,4) by (subst qsort.simps)
      (simp add: assms(3) [symmetric] exchanged_def sort_part_def Let_def parts left right one more)
qed

lemma exchanged_within:
  assumes "part_bounds a b p" "0 \<le> a" "b \<le> int (length (pt_xs p))" "pt_pb p = pt_pc p + 1"
  shows "within a b (pt_xs p) (exchanged a b p)"
proof -
  let ?xs = "vecswap a (pt_pb p - min (pt_pa p - a) (pt_pb p - pt_pa p)) (min (pt_pa p - a) (pt_pb p - pt_pa p)) (pt_xs p)"
  have first: "within a b (pt_xs p) ?xs"
    using assms by (intro vecswap_within) (auto simp: part_bounds_def)
  also have "within a b ?xs (exchanged a b p)"
    unfolding exchanged_def Let_def using assms within_length [OF first]
    by (intro vecswap_within) (auto simp: part_bounds_def)
  finally show ?thesis .
qed

lemma qsort_within:
  assumes "0 \<le> a" "a + n \<le> int (length xs)" "0 < es" "n * int es < 2 ^ 31"
  shows "within a (a + n) xs (qsort cmp es a n xs)"
  using assms
proof (induction "nat n" arbitrary: a n xs rule: less_induct)
  case less
  show ?case
  proof (cases "n < 7")
    case True
    then show ?thesis using less.prems by (simp add: qsort_insertion insertion_sort_within)
  next
    case big: False
    define p where "p = partition_at cmp es a n xs"
    have p: "within a (a + n) xs (pt_xs p)" using less.prems big by (simp add: p_def partition_at_within)
    note len = within_length [OF p]
    show ?thesis
    proof (cases "pt_cnt p")
      case False
      note p
      also have "within a (a + n) (pt_xs p) (insertion_sort cmp a n (pt_xs p))"
        using less.prems len by (intro insertion_sort_within) auto
      finally show ?thesis using False big by (simp add: qsort_insertion p_def)
    next
      case True
      have b: "part_bounds a (a + n) p" using big by (simp add: p_def partition_at_bounds)
      have e: "pt_pb p = pt_pc p + 1" using partition_at_parted [of a n xs cmp] less.prems big by (simp add: p_def)
      have part: "within i (i + r) ys (sort_part cmp es i r ys)"
        if "r < n" "0 \<le> i" "i + r \<le> a + n" "length ys = length xs" for i r ys
      proof -
        have "r * int es \<le> n * int es" using that by (intro mult_right_mono) auto
        then have "r * int es < 2 ^ 31" using less.prems(4) by linarith
        then show ?thesis using that less.hyps [of r i ys] less.prems big by (simp add: sort_part_def)
      qed
      let ?x = "exchanged a (a + n) p"
      let ?y = "sort_part cmp es a (pt_pb p - pt_pa p) ?x"
      let ?z = "sort_part cmp es (a + n - (pt_pd p - pt_pc p)) (pt_pd p - pt_pc p) ?y"
      have x: "within a (a + n) xs ?x"
        using p exchanged_within [OF b _ _ e] less.prems len by (auto intro: within_trans)
      have y: "within a (a + (pt_pb p - pt_pa p)) ?x ?y"
        using b less.prems within_length [OF x] by (intro part) (auto simp: part_bounds_def)
      have z: "within (a + n - (pt_pd p - pt_pc p)) (a + n) ?y ?z"
        using b less.prems within_length [OF x] within_length [OF y]
          part [of "pt_pd p - pt_pc p" "a + n - (pt_pd p - pt_pc p)" ?y] by (auto simp: part_bounds_def)
      note x
      also have "within a (a + n) ?x ?y" using y by (rule within_mono) (use b in \<open>auto simp: part_bounds_def\<close>)
      also have "within a (a + n) ?y ?z" using z by (rule within_mono) (use b in \<open>auto simp: part_bounds_def\<close>)
      finally show ?thesis using qsort_partition [OF _ True p_def less.prems(3,4) e] big by simp
    qed
  qed
qed

section \<open>Comparisons\<close>

text \<open>
  What a comparison promises on the elements it is for: exchanged, its arguments give the opposite
  sign, and \<open>\<le>\<close> is transitive.
\<close>

locale comparison =
  fixes A :: "'a set" and cmp :: "'a \<Rightarrow> 'a \<Rightarrow> int"
  assumes opposite: "x \<in> A \<Longrightarrow> y \<in> A \<Longrightarrow> sgn (cmp y x) = - sgn (cmp x y)"
    and le_trans: "x \<in> A \<Longrightarrow> y \<in> A \<Longrightarrow> z \<in> A \<Longrightarrow> cmp x y \<le> 0 \<Longrightarrow> cmp y z \<le> 0 \<Longrightarrow> cmp x z \<le> 0"

definition ordered :: "('a \<Rightarrow> 'a \<Rightarrow> int) \<Rightarrow> 'a list \<Rightarrow> int \<Rightarrow> int \<Rightarrow> bool" where
  "ordered cmp xs a b \<longleftrightarrow> (\<forall>i j. a \<le> i \<and> i \<le> j \<and> j < b \<longrightarrow> cmp (elem xs i) (elem xs j) \<le> 0)"

text \<open>All elements but the one at \<open>pl\<close>, which may be too small for its place, are in order.\<close>

definition ordered_but :: "('a \<Rightarrow> 'a \<Rightarrow> int) \<Rightarrow> 'a list \<Rightarrow> int \<Rightarrow> int \<Rightarrow> int \<Rightarrow> bool" where
  "ordered_but cmp xs a pl b \<longleftrightarrow>
     (\<forall>i j. a \<le> i \<and> i \<le> j \<and> j < b \<and> (j = pl \<longrightarrow> i = pl) \<longrightarrow> cmp (elem xs i) (elem xs j) \<le> 0)"

lemma set_within: "within a b xs ys \<Longrightarrow> set ys = set xs"
  by (metis within_def set_mset_mset)

lemma elem_in: "set xs \<subseteq> A \<Longrightarrow> 0 \<le> i \<Longrightarrow> i < int (length xs) \<Longrightarrow> elem xs i \<in> A"
  by (auto simp: elem_def)

context comparison
begin

lemma self: "x \<in> A \<Longrightarrow> cmp x x = 0"
  using opposite [of x x] by (simp add: sgn_if split: if_splits)

lemma flip_less: "x \<in> A \<Longrightarrow> y \<in> A \<Longrightarrow> cmp x y < 0 \<longleftrightarrow> cmp y x > 0"
  using opposite [of x y] by (auto simp: sgn_if split: if_splits)

lemma flip_eq: "x \<in> A \<Longrightarrow> y \<in> A \<Longrightarrow> cmp x y = 0 \<longleftrightarrow> cmp y x = 0"
  using opposite [of x y] by (auto simp: sgn_if split: if_splits)

lemma less_le_trans:
  assumes "x \<in> A" "y \<in> A" "z \<in> A" "cmp x y < 0" "cmp y z \<le> 0"
  shows "cmp x z < 0"
proof (rule ccontr)
  assume "\<not> ?thesis"
  then have "cmp z x \<le> 0" using flip_less [of z x] flip_eq [of z x] assms by (cases "cmp x z = 0") auto
  then have "cmp y x \<le> 0" using le_trans [of y z x] assms by simp
  then show False using flip_less [of x y] assms by simp
qed

lemma le_less_trans:
  assumes "x \<in> A" "y \<in> A" "z \<in> A" "cmp x y \<le> 0" "cmp y z < 0"
  shows "cmp x z < 0"
proof (rule ccontr)
  assume "\<not> ?thesis"
  then have "cmp z x \<le> 0" using flip_less [of z x] flip_eq [of z x] assms by (cases "cmp x z = 0") auto
  then have "cmp z y \<le> 0" using le_trans [of z x y] assms by simp
  then show False using flip_less [of y z] assms by simp
qed

lemma sift_down_ordered:
  assumes "ordered_but cmp xs a pl b" "0 \<le> a" "a \<le> pl" "pl < b" "b \<le> int (length xs)" "set xs \<subseteq> A"
  shows "ordered cmp (sift_down cmp a pl xs) a b"
  using assms
proof (induction "nat (pl - a)" arbitrary: pl xs)
  case 0
  then have stop: "sift_down cmp a pl xs = xs" by (subst sift_down.simps) simp
  show ?case unfolding stop using 0 by (auto simp: ordered_def ordered_but_def)
next
  case (Suc m)
  note inA = elem_in [OF Suc.prems(6)]
  have pl: "a < pl" using Suc.hyps(2) by simp
  have le: "cmp (elem xs i) (elem xs j) \<le> 0" if "a \<le> i" "i \<le> j" "j < b" "j = pl \<longrightarrow> i = pl" for i j
    using Suc.prems(1) that by (simp add: ordered_but_def)
  show ?case
  proof (cases "cmp (elem xs (pl - 1)) (elem xs pl) > 0")
    case True
    have step: "sift_down cmp a pl xs = sift_down cmp a (pl - 1) (swap pl (pl - 1) xs)"
      using True pl by (subst sift_down.simps) simp
    have less: "cmp (elem xs pl) (elem xs (pl - 1)) < 0"
      using True flip_less Suc.prems Suc.hyps(2) inA by simp
    have "ordered_but cmp (swap pl (pl - 1) xs) a (pl - 1) b"
      unfolding ordered_but_def
    proof (intro allI impI)
      fix i j
      assume ij: "a \<le> i \<and> i \<le> j \<and> j < b \<and> (j = pl - 1 \<longrightarrow> i = pl - 1)"
      have at: "elem (swap pl (pl - 1) xs) k = (if k = pl then elem xs (pl - 1) else if k = pl - 1 then elem xs pl else elem xs k)"
        if "a \<le> k" for k
        using that Suc.prems Suc.hyps(2) by (intro elem_swap) auto
      consider "i = j" | "i = pl - 1" "j = pl" | "i < pl - 1" "j = pl" | "i = pl - 1" "pl < j" | "i = pl" "pl < j"
        | "i < j" "i \<noteq> pl" "i \<noteq> pl - 1" "j \<noteq> pl" "j \<noteq> pl - 1" using ij by linarith
      then show "cmp (elem (swap pl (pl - 1) xs) i) (elem (swap pl (pl - 1) xs) j) \<le> 0"
        using ij less Suc.prems(2-5) Suc.hyps(2) by cases (auto simp: at self inA le)
    qed
    then have "ordered cmp (sift_down cmp a (pl - 1) (swap pl (pl - 1) xs)) a b"
      using Suc.hyps Suc.prems set_within [OF swap_within [of a b xs pl "pl - 1"]] by (intro Suc.hyps(1)) auto
    then show ?thesis by (simp only: step)
  next
    case False
    then have stop: "sift_down cmp a pl xs = xs" by (subst sift_down.simps) simp
    have "cmp (elem xs i) (elem xs pl) \<le> 0" if "a \<le> i" "i < pl" for i
      using that False le [of i "pl - 1"] le_trans [of "elem xs i" "elem xs (pl - 1)" "elem xs pl"] Suc.prems(2-5) inA by simp
    then show ?thesis unfolding stop ordered_def using le by (metis order_le_less)
  qed
qed

lemma insertion_from_ordered:
  assumes "ordered cmp xs a pm" "0 \<le> a" "a \<le> pm" "a + n \<le> int (length xs)" "set xs \<subseteq> A"
  shows "ordered cmp (insertion_from cmp a n pm xs) a (a + n)"
  using assms
proof (induction "nat (a + n - pm)" arbitrary: pm xs)
  case 0
  then have stop: "insertion_from cmp a n pm xs = xs" by (subst insertion_from.simps) simp
  show ?case unfolding stop using 0 by (auto simp: ordered_def)
next
  case (Suc m)
  have pm: "pm < a + n" using Suc.hyps(2) by simp
  have but: "ordered_but cmp xs a pm (pm + 1)"
    unfolding ordered_but_def
  proof (intro allI impI)
    fix i j
    assume "a \<le> i \<and> i \<le> j \<and> j < pm + 1 \<and> (j = pm \<longrightarrow> i = pm)"
    moreover have "cmp (elem xs pm) (elem xs pm) = 0"
      using Suc.prems pm by (intro self elem_in [OF Suc.prems(5)]) auto
    ultimately show "cmp (elem xs i) (elem xs j) \<le> 0"
      using Suc.prems(1) by (cases "j = pm") (auto simp: ordered_def)
  qed
  have within: "within a (a + n) xs (sift_down cmp a pm xs)"
    using Suc.prems pm by (intro sift_down_within) auto
  have "ordered cmp (sift_down cmp a pm xs) a (pm + 1)"
    using but Suc.prems pm by (intro sift_down_ordered) auto
  then have "ordered cmp (insertion_from cmp a n (pm + 1) (sift_down cmp a pm xs)) a (a + n)"
    using Suc.hyps(2) Suc.prems within_length [OF within] set_within [OF within] by (intro Suc.hyps(1)) auto
  then show ?case using pm by (subst insertion_from.simps) simp
qed

lemma ordered_one:
  assumes "0 \<le> a" "r \<le> 1" "a + r \<le> int (length xs)" "set xs \<subseteq> A"
  shows "ordered cmp xs a (a + r)"
  unfolding ordered_def
proof (intro allI impI)
  fix i j
  assume ij: "a \<le> i \<and> i \<le> j \<and> j < a + r"
  then have ends: "i = a" "j = a" using assms(2) by auto
  show "cmp (elem xs i) (elem xs j) \<le> 0"
    unfolding ends using self [OF elem_in [OF assms(4), of a]] assms ij by simp
qed

lemma insertion_sort_ordered:
  assumes "0 \<le> a" "a + n \<le> int (length xs)" "set xs \<subseteq> A"
  shows "ordered cmp (insertion_sort cmp a n xs) a (a + n)"
proof (cases "1 \<le> n")
  case True
  have "ordered cmp xs a (a + 1)" using assms True by (intro ordered_one) auto
  with assms show ?thesis by (simp add: insertion_sort_def insertion_from_ordered)
qed (simp add: ordered_def)

text \<open>Three parts, less than, equal to and greater than one element, each in order, are in order together.\<close>

lemma three_parts_ordered:
  assumes "ordered cmp xs a l" "ordered cmp xs g b" "v \<in> A" "set xs \<subseteq> A" "0 \<le> a" "b \<le> int (length xs)" "l \<le> g"
    and less: "region (\<lambda>x. cmp x v < 0) xs a l" and eq: "region (\<lambda>x. cmp x v = 0) xs l g"
    and greater: "region (\<lambda>x. cmp x v > 0) xs g b"
  shows "ordered cmp xs a b"
  unfolding ordered_def
proof (intro allI impI)
  fix i j
  assume ij: "a \<le> i \<and> i \<le> j \<and> j < b"
  have inA: "elem xs i \<in> A" "elem xs j \<in> A" using assms(4-6) ij by (auto intro!: elem_in)
  note via = le_trans [OF inA(1) assms(3) inA(2)]
  consider "j < l" | "g \<le> i" | "i < g" "l \<le> j" by linarith
  then show "cmp (elem xs i) (elem xs j) \<le> 0"
  proof cases
    case 3
    have "cmp (elem xs i) v \<le> 0"
      using less eq ij 3(1) by (cases "i < l") (auto simp: region_def order_less_imp_le)
    moreover have "cmp (elem xs j) v \<ge> 0"
      using greater eq ij 3(2) by (cases "j < g") (auto simp: region_def order_less_imp_le)
    then have "cmp v (elem xs j) \<le> 0"
      using flip_less [OF assms(3) inA(2)] flip_eq [OF assms(3) inA(2)] by linarith
    ultimately show ?thesis by (rule via)
  qed (use assms(1,2) ij in \<open>auto simp: ordered_def\<close>)
qed

end

lemma region_cong: "(\<And>k. i \<le> k \<Longrightarrow> k < j \<Longrightarrow> elem ys k = elem xs k) \<Longrightarrow> region P xs i j \<Longrightarrow> region P ys i j"
  by (simp add: region_def)

text \<open>Exchanging the shorter of two adjacent parts with the end of the other exchanges the two.\<close>

lemma elem_vecswap:
  assumes "0 \<le> n" "0 \<le> i" "i + n \<le> j" "j + n \<le> int (length xs)" "0 \<le> k"
  shows "elem (vecswap i j n xs) k =
    (if i \<le> k \<and> k < i + n then elem xs (k - i + j)
     else if j \<le> k \<and> k < j + n then elem xs (k - j + i) else elem xs k)"
  using elem_swapfunc [of i "nat n" j xs k] assms by (auto simp: vecswap_def)

lemma vecswap_region:
  assumes "0 \<le> lo" "lo \<le> m" "m \<le> hi" "hi \<le> int (length xs)" "region P xs lo m" "region Q xs m hi"
  defines "r \<equiv> min (m - lo) (hi - m)"
  shows "region Q (vecswap lo (hi - r) r xs) lo (lo + (hi - m)) \<and> region P (vecswap lo (hi - r) r xs) (lo + (hi - m)) hi"
proof -
  have r: "0 \<le> r" "r \<le> m - lo" "r \<le> hi - m" using assms(2,3) by (auto simp: r_def)
  have at: "elem (vecswap lo (hi - r) r xs) k =
    (if lo \<le> k \<and> k < lo + r then elem xs (k - lo + (hi - r))
     else if hi - r \<le> k \<and> k < hi then elem xs (k - (hi - r) + lo) else elem xs k)" if "0 \<le> k" for k
    using elem_vecswap [of r lo "hi - r" xs k] assms(1,4) r that by simp
  show ?thesis
  proof (cases "m - lo \<le> hi - m")
    case True
    then have eq: "r = m - lo" by (simp add: r_def)
    show ?thesis using assms(1-6) True unfolding region_def eq by (auto simp: at [unfolded eq])
  next
    case False
    then have eq: "r = hi - m" "hi - (hi - m) = m" by (auto simp: r_def)
    show ?thesis using assms(1-6) False unfolding region_def eq by (auto simp: at [unfolded eq])
  qed
qed

section \<open>The result\<close>

context comparison
begin

text \<open>What the exchanges make of a partition: less, equal, greater.\<close>

lemma exchanged_regions:
  assumes p: "parted cmp a b xs p" and e: "pt_pb p = pt_pc p + 1" and ab: "a < b" and inA: "set xs \<subseteq> A"
  defines "l \<equiv> a + (pt_pb p - pt_pa p)" and "g \<equiv> b - (pt_pd p - pt_pc p)" and "v \<equiv> elem xs a"
  shows "region (\<lambda>x. cmp x v < 0) (exchanged a b p) a l \<and> region (\<lambda>x. cmp x v = 0) (exchanged a b p) l g \<and>
    region (\<lambda>x. cmp x v > 0) (exchanged a b p) g b"
proof -
  have len: "length (pt_xs p) = length xs" using parted_length [OF p] .
  have bounds: "0 \<le> a" "a < pt_pa p" "pt_pa p \<le> pt_pb p" "pt_pc p \<le> pt_pd p" "pt_pd p < b" "b \<le> int (length xs)"
    using p by (auto simp: parted_def)
  let ?r = "min (pt_pa p - a) (pt_pb p - pt_pa p)" and ?s = "min (pt_pd p + 1 - pt_pb p) (b - (pt_pd p + 1))"
  let ?x = "vecswap a (pt_pb p - ?r) ?r (pt_xs p)"
  have "cmp v v = 0" using bounds ab by (auto simp: v_def intro!: self elem_in [OF inA])
  then have "region (\<lambda>x. cmp x v = 0) (pt_xs p) a (pt_pa p)"
    using p parted_pivot [OF p] by (auto simp: parted_def region_def v_def) (metis order_le_less zless_imp_add1_zle)
  then have left: "region (\<lambda>x. cmp x v < 0) ?x a l" "region (\<lambda>x. cmp x v = 0) ?x l (pt_pb p)"
    using vecswap_region [of a "pt_pa p" "pt_pb p" "pt_xs p" "\<lambda>x. cmp x v = 0" "\<lambda>x. cmp x v < 0"] p bounds e len
    by (auto simp: parted_def v_def l_def)
  have "within a b (pt_xs p) ?x" using bounds e len by (intro vecswap_within) auto
  then have lx: "length ?x = length xs" using len within_length by metis
  have same: "elem ?x k = elem (pt_xs p) k" if "pt_pb p \<le> k" for k
    using elem_vecswap [of ?r a "pt_pb p - ?r" "pt_xs p" k] that bounds e len by (simp add: min_def split: if_splits)
  have "region (\<lambda>x. cmp x v > 0) ?x (pt_pb p) (pt_pd p + 1)"
    by (rule region_cong [of _ _ _ "pt_xs p"]) (use same p e in \<open>auto simp: parted_def v_def\<close>)
  moreover have "region (\<lambda>x. cmp x v = 0) ?x (pt_pd p + 1) b"
    by (rule region_cong [of _ _ _ "pt_xs p"]) (use same p e in \<open>auto simp: parted_def v_def\<close>)
  ultimately have right: "region (\<lambda>x. cmp x v = 0) (vecswap (pt_pb p) (b - ?s) ?s ?x) (pt_pb p) g"
      "region (\<lambda>x. cmp x v > 0) (vecswap (pt_pb p) (b - ?s) ?s ?x) g b"
    using vecswap_region [of "pt_pb p" "pt_pd p + 1" b ?x "\<lambda>x. cmp x v > 0" "\<lambda>x. cmp x v = 0"] bounds e lx
    by (auto simp: g_def algebra_simps)
  have whole: "exchanged a b p = vecswap (pt_pb p) (b - ?s) ?s ?x"
    using e by (simp add: exchanged_def Let_def algebra_simps)
  have keep: "elem (exchanged a b p) k = elem ?x k" if "a \<le> k" "k < pt_pb p" for k
    unfolding whole using elem_vecswap [of ?s "pt_pb p" "b - ?s" ?x k] that bounds e lx
    by (simp add: min_def split: if_splits)
  have "region (\<lambda>x. cmp x v < 0) (exchanged a b p) a l" "region (\<lambda>x. cmp x v = 0) (exchanged a b p) l (pt_pb p)"
    using left bounds by (auto simp: region_def keep l_def)
  moreover have "region (\<lambda>x. cmp x v = 0) (exchanged a b p) (pt_pb p) g" "region (\<lambda>x. cmp x v > 0) (exchanged a b p) g b"
    using right by (simp_all only: whole)
  ultimately show ?thesis unfolding region_def by (metis linorder_not_less)
qed

text \<open>A part all of whose elements satisfy a condition still does when it is sorted.\<close>

lemma region_within:
  assumes "within a b xs ys" "0 \<le> a" "b \<le> int (length xs)" "region P xs i j" "i \<le> a \<and> b \<le> j \<or> j \<le> a \<or> b \<le> i" "0 \<le> i"
  shows "region P ys i j"
  unfolding region_def
proof (intro allI impI)
  fix k
  assume k: "i \<le> k \<and> k < j"
  show "P (elem ys k)"
  proof (cases "a \<le> k \<and> k < b")
    case True
    then obtain m where "a \<le> m" "m < b" "elem ys k = elem xs m"
      using within_part [OF assms(1)] assms(2,3) by (meson order_less_imp_le order_le_less_trans)
    then show ?thesis using assms(4,5) k True by (auto simp: region_def)
  next
    case False
    then have "elem ys k = elem xs k" using within_elem [OF assms(1)] k assms(6) by auto
    then show ?thesis using assms(4) k by (simp add: region_def)
  qed
qed

lemma ordered_within:
  assumes "within a b xs ys" "ordered cmp xs i j" "0 \<le> i" "j \<le> a \<or> b \<le> i"
  shows "ordered cmp ys i j"
proof -
  have "elem ys k = elem xs k" if "i \<le> k" "k < j" for k
    using within_elem [OF assms(1), of k] that assms(3,4) by auto
  then show ?thesis using assms(2) by (auto simp: ordered_def)
qed

lemma qsort_ordered:
  assumes "0 \<le> a" "a + n \<le> int (length xs)" "set xs \<subseteq> A" "0 < es" "n * int es < 2 ^ 31"
  shows "ordered cmp (qsort cmp es a n xs) a (a + n)"
  using assms
proof (induction "nat n" arbitrary: a n xs rule: less_induct)
  case less
  show ?case
  proof (cases "n < 7")
    case True
    then show ?thesis using less.prems by (simp add: qsort_insertion insertion_sort_ordered)
  next
    case big: False
    define p where "p = partition_at cmp es a n xs"
    define xs' where "xs' = swap a (choose_pivot cmp es xs a n) xs"
    have p: "within a (a + n) xs (pt_xs p)" using less.prems big by (simp add: p_def partition_at_within)
    note len = within_length [OF p] and inA = set_within [OF p]
    show ?thesis
    proof (cases "pt_cnt p")
      case False
      have "ordered cmp (insertion_sort cmp a n (pt_xs p)) a (a + n)"
        using less.prems len inA by (intro insertion_sort_ordered) auto
      then show ?thesis using False big by (simp add: qsort_insertion p_def)
    next
      case True
      have parted: "parted cmp a (a + n) xs' p" and e: "pt_pb p = pt_pc p + 1"
        using partition_at_parted [of a n xs cmp] less.prems big by (simp_all add: p_def xs'_def)
      have xs': "within a (a + n) xs xs'" using less.prems big by (simp add: xs'_def pivot_within)
      have b: "part_bounds a (a + n) p" using big by (simp add: p_def partition_at_bounds)
      let ?l = "pt_pb p - pt_pa p" and ?g = "pt_pd p - pt_pc p" and ?v = "elem xs' a"
      have bounds: "0 \<le> ?l" "0 \<le> ?g" "?l < n" "?g < n" "?l + ?g < n"
        using b e by (auto simp: part_bounds_def)
      define x where "x = exchanged a (a + n) p"
      define y where "y = sort_part cmp es a ?l x"
      define z where "z = sort_part cmp es (a + n - ?g) ?g y"
      have x: "within a (a + n) (pt_xs p) x"
        unfolding x_def using exchanged_within [OF b _ _ e] less.prems len by simp
      have rx: "region (\<lambda>u. cmp u ?v < 0) x a (a + ?l)" "region (\<lambda>u. cmp u ?v = 0) x (a + ?l) (a + n - ?g)"
          "region (\<lambda>u. cmp u ?v > 0) x (a + n - ?g) (a + n)"
        using exchanged_regions [OF parted e] big less.prems set_within [OF xs'] by (simp_all add: x_def)
      have part: "within i (i + r) ys (sort_part cmp es i r ys) \<and> ordered cmp (sort_part cmp es i r ys) i (i + r)"
        if "r < n" "0 \<le> i" "0 \<le> r" "i + r \<le> a + n" "length ys = length xs" "set ys \<subseteq> A" for i r ys
      proof (cases "r > 1")
        case True
        have "r * int es \<le> n * int es" using that by (intro mult_right_mono) auto
        then have "r * int es < 2 ^ 31" using less.prems(5) by linarith
        then show ?thesis using True that less.hyps [of r i ys] less.prems qsort_within [of i r ys es cmp] big
          by (simp add: sort_part_def)
      next
        case False
        then show ?thesis using that less.prems ordered_one [of i r ys] by (simp add: sort_part_def)
      qed
      have y: "within a (a + ?l) x y" "ordered cmp y a (a + ?l)"
        unfolding y_def using part [of ?l a x] bounds less.prems within_length [OF x] len inA set_within [OF x] by auto
      have z: "within (a + n - ?g) (a + n) y z" "ordered cmp z (a + n - ?g) (a + n)"
        unfolding z_def using part [of ?g "a + n - ?g" y] bounds less.prems within_length [OF x] len inA set_within [OF x]
          within_length [OF y(1)] set_within [OF y(1)] by auto
      have lens: "length y = length xs" "length z = length xs" "length x = length xs"
        using within_length [OF x] within_length [OF y(1)] within_length [OF z(1)] len by auto
      have ry: "region (\<lambda>u. cmp u ?v < 0) y a (a + ?l)" "region (\<lambda>u. cmp u ?v = 0) y (a + ?l) (a + n - ?g)"
          "region (\<lambda>u. cmp u ?v > 0) y (a + n - ?g) (a + n)"
        by (rule region_within [OF y(1)]; use rx bounds less.prems lens in simp)+
      have rz: "region (\<lambda>u. cmp u ?v < 0) z a (a + ?l)" "region (\<lambda>u. cmp u ?v = 0) z (a + ?l) (a + n - ?g)"
          "region (\<lambda>u. cmp u ?v > 0) z (a + n - ?g) (a + n)"
        by (rule region_within [OF z(1)]; use ry bounds less.prems lens in simp)+
      have "ordered cmp z a (a + ?l)"
        by (rule ordered_within [OF z(1) y(2)]) (use bounds less.prems in auto)
      moreover have "?v \<in> A"
        using less.prems big set_within [OF xs'] within_length [OF xs'] by (intro elem_in) auto
      moreover have "set z \<subseteq> A"
        using set_within [OF z(1)] set_within [OF y(1)] set_within [OF x] inA less.prems by simp
      ultimately have "ordered cmp z a (a + n)"
        using z(2) rz bounds less.prems lens by (intro three_parts_ordered [of z a "a + ?l" "a + n - ?g" "a + n" ?v]) auto
      then show ?thesis using qsort_partition [OF _ True p_def less.prems(4,5) e] big by (simp add: x_def y_def z_def)
    qed
  qed
qed

end

section \<open>Searching\<close>

text \<open>
  \<open>lim\<close> is the number of elements left, and \<open>base\<close> the first of them. A negative \<open>lim\<close> never gets to
  0, so the outer option is None where the search does not end.
\<close>

partial_function (option) bsearch_loop :: "('k \<Rightarrow> 'a \<Rightarrow> int) \<Rightarrow> 'k \<Rightarrow> 'a list \<Rightarrow> int \<Rightarrow> int \<Rightarrow> int option option" where
  "bsearch_loop compar key xs base lim =
     (if lim \<noteq> 0 then
        (let p = base + lim div 2; c = compar key (elem xs p) in
         if c > 0 then bsearch_loop compar key xs (p + 1) ((lim - 1) div 2)
         else if c = 0 then Some (Some p)
         else bsearch_loop compar key xs base (lim div 2))
      else Some None)"

definition bsearch :: "('k \<Rightarrow> 'a \<Rightarrow> int) \<Rightarrow> 'k \<Rightarrow> 'a list \<Rightarrow> int \<Rightarrow> int \<Rightarrow> int option option" where
  "bsearch compar key xs base nmemb = bsearch_loop compar key xs base (to_int32 nmemb)"

lemma bsearch_nat:
  "bsearch_loop compar key xs base (int lim) =
     (if lim \<noteq> 0 then
        (if compar key (elem xs (base + int (lim div 2))) > 0
         then bsearch_loop compar key xs (base + int (lim div 2) + 1) (int ((lim - 1) div 2))
         else if compar key (elem xs (base + int (lim div 2))) = 0 then Some (Some (base + int (lim div 2)))
         else bsearch_loop compar key xs base (int (lim div 2)))
      else Some None)"
  by (subst bsearch_loop.simps) (auto simp: Let_def zdiv_int of_nat_diff)

lemma bsearch_returns: "\<exists>r. bsearch_loop compar key xs base (int lim) = Some r"
proof (induction lim arbitrary: base rule: less_induct)
  case (less lim)
  have "lim \<noteq> 0 \<Longrightarrow> lim div 2 < lim" "lim \<noteq> 0 \<Longrightarrow> (lim - 1) div 2 < lim" by auto
  then show ?case using less.IH by (subst bsearch_nat) auto
qed

lemma bsearch_found:
  "bsearch_loop compar key xs base (int lim) = Some (Some p) \<Longrightarrow> base \<le> p \<and> p < base + int lim \<and> compar key (elem xs p) = 0"
proof (induction lim arbitrary: base rule: less_induct)
  case (less lim)
  let ?m = "base + int (lim div 2)"
  have lim: "lim \<noteq> 0" using less.prems by (subst (asm) bsearch_nat) (auto split: if_splits)
  then have half: "lim div 2 < lim" "(lim - 1) div 2 < lim" "lim div 2 + (lim - 1) div 2 < lim" by auto
  consider "compar key (elem xs ?m) > 0" | "compar key (elem xs ?m) = 0" | "compar key (elem xs ?m) < 0" by linarith
  then show ?case
  proof cases
    case 1
    then have "bsearch_loop compar key xs (?m + 1) (int ((lim - 1) div 2)) = Some (Some p)"
      using less.prems lim by (subst (asm) bsearch_nat) (simp add: Let_def)
    from less.IH [OF half(2) this] show ?thesis using half(3) by linarith
  next
    case 2
    then have "p = ?m" using less.prems lim by (subst (asm) bsearch_nat) (simp add: Let_def)
    then show ?thesis using 2 half(1) by simp
  next
    case 3
    then have "bsearch_loop compar key xs base (int (lim div 2)) = Some (Some p)"
      using less.prems lim by (subst (asm) bsearch_nat) (simp add: Let_def)
    from less.IH [OF half(1) this] show ?thesis using half(1) by linarith
  qed
qed

text \<open>Where the signs of the comparisons fall along the array, the search that finds nothing has looked everywhere.\<close>

lemma bsearch_complete:
  assumes "bsearch_loop compar key xs base (int lim) = Some None"
    "\<And>i j. base \<le> i \<Longrightarrow> i \<le> j \<Longrightarrow> j < base + int lim \<Longrightarrow> compar key (elem xs j) > 0 \<Longrightarrow> compar key (elem xs i) > 0"
    "\<And>i j. base \<le> i \<Longrightarrow> i \<le> j \<Longrightarrow> j < base + int lim \<Longrightarrow> compar key (elem xs i) < 0 \<Longrightarrow> compar key (elem xs j) < 0"
    "base \<le> k" "k < base + int lim"
  shows "compar key (elem xs k) \<noteq> 0"
  using assms
proof (induction lim arbitrary: base rule: less_induct)
  case (less lim)
  let ?m = "base + int (lim div 2)"
  have lim: "lim \<noteq> 0" using less.prems(4,5) by auto
  then have half: "lim div 2 < lim" "(lim - 1) div 2 < lim" "lim div 2 + 1 + (lim - 1) div 2 = lim" by auto
  note down = less.prems(2) and up = less.prems(3)
  consider "compar key (elem xs ?m) > 0" | "compar key (elem xs ?m) = 0" | "compar key (elem xs ?m) < 0" by linarith
  then show ?case
  proof cases
    case 1
    then have rest: "bsearch_loop compar key xs (?m + 1) (int ((lim - 1) div 2)) = Some None"
      using less.prems(1) lim by (subst (asm) bsearch_nat) (simp add: Let_def)
    show ?thesis
    proof (cases "k \<le> ?m")
      case True
      then show ?thesis using down [of k ?m] 1 half(1) less.prems(4) by simp
    next
      case False
      have len: "?m + 1 + int ((lim - 1) div 2) = base + int lim" using half(3) by linarith
      show ?thesis
      proof (rule less.IH [OF half(2) rest])
        fix i j
        assume ij: "?m + 1 \<le> i" "i \<le> j" "j < ?m + 1 + int ((lim - 1) div 2)"
        then have b: "base \<le> i" "j < base + int lim" using len by linarith+
        show "compar key (elem xs j) > 0 \<Longrightarrow> compar key (elem xs i) > 0" by (rule down [OF b(1) ij(2) b(2)])
        show "compar key (elem xs i) < 0 \<Longrightarrow> compar key (elem xs j) < 0" by (rule up [OF b(1) ij(2) b(2)])
      qed (use False len less.prems(5) in linarith)+
    qed
  next
    case 2
    then show ?thesis using less.prems(1) lim by (subst (asm) bsearch_nat) (simp add: Let_def)
  next
    case 3
    then have rest: "bsearch_loop compar key xs base (int (lim div 2)) = Some None"
      using less.prems(1) lim by (subst (asm) bsearch_nat) (simp add: Let_def)
    show ?thesis
    proof (cases "?m \<le> k")
      case True
      then show ?thesis using up [of ?m k] 3 less.prems(5) by simp
    next
      case False
      show ?thesis
      proof (rule less.IH [OF half(1) rest])
        fix i j
        assume ij: "base \<le> i" "i \<le> j" "j < base + int (lim div 2)"
        then have b: "j < base + int lim" using half(1) by linarith
        show "compar key (elem xs j) > 0 \<Longrightarrow> compar key (elem xs i) > 0" by (rule down [OF ij(1,2) b])
        show "compar key (elem xs i) < 0 \<Longrightarrow> compar key (elem xs j) < 0" by (rule up [OF ij(1,2) b])
      qed (use False less.prems(4) in linarith)+
    qed
  qed
qed

context comparison
begin

lemma bsearch_ordered:
  assumes "ordered cmp xs a (a + n)" "key \<in> A" "set xs \<subseteq> A" "0 \<le> a" "a + n \<le> int (length xs)" "0 \<le> n" "n < 2 ^ 31"
  shows "\<exists>r. bsearch cmp key xs a n = Some r \<and> (case r of
      Some p \<Rightarrow> a \<le> p \<and> p < a + n \<and> cmp key (elem xs p) = 0
    | None \<Rightarrow> (\<forall>k. a \<le> k \<and> k < a + n \<longrightarrow> cmp key (elem xs k) \<noteq> 0))"
proof -
  obtain l where l: "n = int l" using assms(6) nonneg_int_cases by blast
  have loop: "bsearch cmp key xs a n = bsearch_loop cmp key xs a (int l)"
    using assms(6,7) by (simp add: bsearch_def to_int32_id l)
  obtain r where r: "bsearch_loop cmp key xs a (int l) = Some r"
    using bsearch_returns [of cmp key xs a l] by blast
  show ?thesis
  proof (cases r)
    case None
    have inA: "elem xs i \<in> A" if "a \<le> i" "i < a + n" for i
      using that assms by (intro elem_in) auto
    have le: "cmp (elem xs i) (elem xs j) \<le> 0" if "a \<le> i" "i \<le> j" "j < a + n" for i j
      using assms(1) that by (simp add: ordered_def)
    have "cmp key (elem xs k) \<noteq> 0" if k: "a \<le> k" "k < a + int l" for k
    proof (rule bsearch_complete [OF r [unfolded None] _ _ k])
      fix i j
      assume ij: "a \<le> i" "i \<le> j" "j < a + int l"
      then have A: "elem xs i \<in> A" "elem xs j \<in> A" and ij': "cmp (elem xs i) (elem xs j) \<le> 0"
        using inA le l by auto
      show "cmp key (elem xs i) > 0" if "cmp key (elem xs j) > 0"
        using le_less_trans [of "elem xs i" "elem xs j" key] ij' flip_less A assms(2) that by simp
      show "cmp key (elem xs j) < 0" if "cmp key (elem xs i) < 0"
        using less_le_trans [of key "elem xs i" "elem xs j"] ij' A assms(2) that by simp
    qed
    then show ?thesis using loop r None l by auto
  next
    case (Some p)
    then show ?thesis using loop r l bsearch_found [of cmp key xs a l p] by auto
  qed
qed

end

section \<open>Comparing identifiers\<close>

text \<open>The identifiers are compared as the numbers their bytes are.\<close>

lemma uuid_compare_number:
  assumes "length uu = 16" "length vv = 16"
  shows "sgn (uuid_compare uu vv) = sgn (int (bytes_value uu) - int (bytes_value vv))"
  using uuid_compare_bytes [OF assms] memcmp_value [of uu vv] assms by simp

lemma uuid_compare_le:
  "length uu = 16 \<Longrightarrow> length vv = 16 \<Longrightarrow> uuid_compare uu vv \<le> 0 \<longleftrightarrow> bytes_value uu \<le> bytes_value vv"
  using uuid_compare_number [of uu vv] by (auto simp: sgn_if split: if_splits)

interpretation uuids: comparison "{uu. length uu = 16}" uuid_compare
proof unfold_locales
  fix uu vv :: "u8 list"
  assume "uu \<in> {uu. length uu = 16}" "vv \<in> {uu. length uu = 16}"
  then show "sgn (uuid_compare vv uu) = - sgn (uuid_compare uu vv)"
    by (simp add: uuid_compare_number) (simp add: sgn_if)
qed (auto simp: uuid_compare_le)

lemma sorted_identifiers:
  assumes "\<forall>uu\<in>set xs. length uu = 16" "0 \<le> i" "i \<le> j" "j < int (length xs)" "length xs < 2 ^ 27"
  shows "bytes_value (elem (qsort uuid_compare 16 0 (int (length xs)) xs) i) \<le>
    bytes_value (elem (qsort uuid_compare 16 0 (int (length xs)) xs) j)"
proof -
  let ?ys = "qsort uuid_compare 16 0 (int (length xs)) xs"
  have within: "within 0 (0 + int (length xs)) xs ?ys" by (rule qsort_within) (use assms(5) in auto)
  have "ordered uuid_compare ?ys 0 (0 + int (length xs))"
    by (rule uuids.qsort_ordered) (use assms(1,5) in auto)
  then have "uuid_compare (elem ?ys i) (elem ?ys j) \<le> 0" using assms(2-4) by (simp add: ordered_def)
  moreover have "length (elem ?ys k) = 16" if "0 \<le> k" "k < int (length xs)" for k
    using elem_in [of ?ys "{uu. length uu = 16}" k] assms(1) that set_within [OF within] within_length [OF within] by auto
  ultimately show ?thesis using assms(2-4) by (simp add: uuid_compare_le)
qed

section \<open>Properties\<close>

text \<open>
  C40: Whatever the comparison returns, \<open>qsort\<close> of \<open>n\<close> elements from \<open>a\<close> on ends, leaves the rest of
  the array alone and only rearranges its part, which is less than 2 ^ 31 bytes long. With a comparison
  that on its elements gives the opposite sign for exchanged arguments and is transitive, the part is then in
  order, and \<open>bsearch\<close> in it ends and returns an element equal to the key, or NULL only if there is none.
\<close>

theorem qsort_bsearch:
  assumes "0 \<le> a" "0 \<le> n" "a + n \<le> int (length xs)" "0 < es" "n * int es < 2 ^ 31"
  shows "within a (a + n) xs (qsort cmp es a n xs) \<and>
    (set xs \<subseteq> A \<and> key \<in> A \<and> (\<forall>x\<in>A. \<forall>y\<in>A. sgn (cmp y x) = - sgn (cmp x y)) \<and>
     (\<forall>x\<in>A. \<forall>y\<in>A. \<forall>z\<in>A. cmp x y \<le> 0 \<longrightarrow> cmp y z \<le> 0 \<longrightarrow> cmp x z \<le> 0) \<longrightarrow>
     ordered cmp (qsort cmp es a n xs) a (a + n) \<and>
     (\<exists>r. bsearch cmp key (qsort cmp es a n xs) a n = Some r \<and> (case r of
        Some p \<Rightarrow> a \<le> p \<and> p < a + n \<and> cmp key (elem (qsort cmp es a n xs) p) = 0
      | None \<Rightarrow> \<forall>k. a \<le> k \<and> k < a + n \<longrightarrow> cmp key (elem (qsort cmp es a n xs) k) \<noteq> 0)))"
proof (intro conjI impI; (elim conjE)?)
  show within: "within a (a + n) xs (qsort cmp es a n xs)" using assms by (intro qsort_within) auto
  assume inA: "set xs \<subseteq> A" "key \<in> A" and "\<forall>x\<in>A. \<forall>y\<in>A. sgn (cmp y x) = - sgn (cmp x y)"
    "\<forall>x\<in>A. \<forall>y\<in>A. \<forall>z\<in>A. cmp x y \<le> 0 \<longrightarrow> cmp y z \<le> 0 \<longrightarrow> cmp x z \<le> 0"
  then have laws: "comparison A cmp" by unfold_locales blast+
  show sorted: "ordered cmp (qsort cmp es a n xs) a (a + n)"
    by (rule comparison.qsort_ordered [OF laws assms(1,3) inA(1) assms(4,5)])
  have "n * 1 \<le> n * int es" using assms(2,4) by (intro mult_left_mono) auto
  then have "n < 2 ^ 31" using assms(5) by simp
  with comparison.bsearch_ordered [OF laws sorted inA(2)] inA(1) assms(1-3) set_within [OF within] within_length [OF within]
  show "\<exists>r. bsearch cmp key (qsort cmp es a n xs) a n = Some r \<and> (case r of
        Some p \<Rightarrow> a \<le> p \<and> p < a + n \<and> cmp key (elem (qsort cmp es a n xs) p) = 0
      | None \<Rightarrow> \<forall>k. a \<le> k \<and> k < a + n \<longrightarrow> cmp key (elem (qsort cmp es a n xs) k) \<noteq> 0)"
    by simp
qed

lemma qsort_bsearch_witness:
  "qsort (\<lambda>x y. x - y) 4 1 8 [9, 5, 3, 5, 8, 1, 5, 2, 7, 0] = [9, 1, 2, 3, 5, 5, 5, 7, 8, 0 :: int] \<and>
   ordered (\<lambda>x y. x - y) (qsort (\<lambda>x y. x - y) 4 1 8 [9, 5, 3, 5, 8, 1, 5, 2, 7, 0 :: int]) 1 9 \<and>
   (\<exists>r. bsearch (\<lambda>x y. x - y) 7 (qsort (\<lambda>x y. x - y) 4 1 8 [9, 5, 3, 5, 8, 1, 5, 2, 7, 0 :: int]) 1 8 = Some r)"
proof (rule conjI)
  show "ordered (\<lambda>x y. x - y) (qsort (\<lambda>x y. x - y) 4 1 8 [9, 5, 3, 5, 8, 1, 5, 2, 7, 0 :: int]) 1 9 \<and>
   (\<exists>r. bsearch (\<lambda>x y. x - y) 7 (qsort (\<lambda>x y. x - y) 4 1 8 [9, 5, 3, 5, 8, 1, 5, 2, 7, 0 :: int]) 1 8 = Some r)"
    using qsort_bsearch [of 1 8 "[9, 5, 3, 5, 8, 1, 5, 2, 7, 0 :: int]" 4 "\<lambda>x y. x - y" UNIV 7]
    by (auto simp: sgn_if)
qed code_simp

end
