(* ===== verification/Elf.thy ===== *)
theory Elf
  imports Loader
begin

text \<open>
  The ELF loader (src/core/lnk_elf.cpp, lnk_elf.h, elf_format.h): reading the headers of a file,
  mapping its segments, walking its dynamic array and its relocations. A file is the list of its
  bytes; a buffer of \<open>malloc\<close> is a partial map from offsets to bytes, undefined where nothing has
  been written, and reading there is an undefined step. What \<open>mmap\<close> does is the record
  \<open>elf_kernel\<close>: \<open>ek_reserve\<close> and \<open>ek_wire\<close> are the calls of lnk_mm.cpp. \<open>malloc\<close> is taken to succeed;
  the table of section headers, which is read and not looked at, and the path of the file are left out, and the
  triggers \<open>doRebase\<close>, \<open>doBindSymbols\<close> and \<open>doInitialize\<close> of the class do nothing.

  The theorem says what becomes of an object: everything is mapped into the range reserved, and
  no object with a relocation is ever loaded.
\<close>

section \<open>Files and buffers\<close>

record elf_kernel =
  ek_reserve :: "u32 \<Rightarrow> mem \<Rightarrow> u32 \<times> mem"
  ek_wire :: "u8 list \<Rightarrow> u32 \<Rightarrow> u32 \<Rightarrow> u32 \<Rightarrow> mem \<Rightarrow> mem"

type_synonym buffer = "nat \<Rightarrow> u8 option"

definition malloc_buf :: buffer where "malloc_buf = (\<lambda>i. None)"

definition read_at :: "u8 list \<Rightarrow> nat \<Rightarrow> u32 \<Rightarrow> buffer \<Rightarrow> buffer" where
  "read_at fd len offset buf =
     (\<lambda>i. if i < len \<and> unat offset + i < length fd then Some (fd ! (unat offset + i)) else buf i)"

definition buf8 :: "buffer \<Rightarrow> nat \<Rightarrow> u8 res" where
  "buf8 buf i = (case buf i of None \<Rightarrow> Inl Undefined | Some b \<Rightarrow> Inr b)"

definition buf16 :: "buffer \<Rightarrow> nat \<Rightarrow> u16 res" where
  "buf16 buf i = bindR (buf8 buf i) (\<lambda>b0. bindR (buf8 buf (i + 1)) (\<lambda>b1.
     Inr (ucast b0 OR push_bit 8 (ucast b1))))"

definition buf32 :: "buffer \<Rightarrow> nat \<Rightarrow> u32 res" where
  "buf32 buf i = bindR (buf8 buf i) (\<lambda>b0. bindR (buf8 buf (i + 1)) (\<lambda>b1.
     bindR (buf8 buf (i + 2)) (\<lambda>b2. bindR (buf8 buf (i + 3)) (\<lambda>b3. Inr (le32 b0 b1 b2 b3)))))"

section \<open>The tables of a file\<close>

text \<open>The fields of \<open>Elf32_Ehdr\<close> and \<open>Elf32_Phdr\<close> the loader reads, at their offsets.\<close>

definition e_ident :: "buffer \<Rightarrow> nat \<Rightarrow> u8 res" where "e_ident h i = buf8 h i"
definition e_phoff :: "buffer \<Rightarrow> u32 res" where "e_phoff h = buf32 h 28"
definition e_phentsize :: "buffer \<Rightarrow> u16 res" where "e_phentsize h = buf16 h 42"
definition e_phnum :: "buffer \<Rightarrow> u16 res" where "e_phnum h = buf16 h 44"
definition e_shentsize :: "buffer \<Rightarrow> u16 res" where "e_shentsize h = buf16 h 46"
definition e_shnum :: "buffer \<Rightarrow> u16 res" where "e_shnum h = buf16 h 48"

definition p_type :: "buffer \<Rightarrow> nat \<Rightarrow> u32 res" where "p_type phe off = buf32 phe off"
definition p_offset :: "buffer \<Rightarrow> nat \<Rightarrow> u32 res" where "p_offset phe off = buf32 phe (off + 4)"
definition p_vaddr :: "buffer \<Rightarrow> nat \<Rightarrow> u32 res" where "p_vaddr phe off = buf32 phe (off + 8)"
definition p_filesz :: "buffer \<Rightarrow> nat \<Rightarrow> u32 res" where "p_filesz phe off = buf32 phe (off + 16)"
definition p_memsz :: "buffer \<Rightarrow> nat \<Rightarrow> u32 res" where "p_memsz phe off = buf32 phe (off + 20)"

abbreviation (input) "PT_LOAD \<equiv> 1 :: u32"
abbreviation (input) "PT_DYNAMIC \<equiv> 2 :: u32"

text \<open>The first walk over the program headers: the greatest end and the least start of a segment.\<close>

primrec elf_extent :: "buffer \<Rightarrow> nat \<Rightarrow> nat \<Rightarrow> nat \<Rightarrow> u32 \<times> u32 \<Rightarrow> (u32 \<times> u32) res" where
  "elf_extent phe entsize 0 offset ext = Inr ext"
| "elf_extent phe entsize (Suc ncmds) offset ext =
     bindR (p_type phe offset) (\<lambda>type.
     bindR (if type = PT_LOAD then
              bindR (p_vaddr phe offset) (\<lambda>vaddr. bindR (p_memsz phe offset) (\<lambda>memsz.
                Inr (case ext of (max_vaddr, min_vaddr) \<Rightarrow>
                  (if vaddr + memsz > max_vaddr then vaddr + memsz else max_vaddr,
                   if vaddr < min_vaddr then vaddr else min_vaddr))))
            else Inr ext) (\<lambda>ext.
     elf_extent phe entsize ncmds (offset + entsize) ext))"

text \<open>The macros of the system headers, for the pages of 4096 bytes of the target.\<close>

abbreviation (input) "PAGE_SIZE \<equiv> 0x1000 :: u32"
abbreviation (input) "PAGE_MASK \<equiv> 0xFFF :: u32"

definition elf_vmsize :: "u32 \<times> u32 \<Rightarrow> u32" where
  "elf_vmsize ext = (case ext of (max_vaddr, min_vaddr) \<Rightarrow>
     ((max_vaddr + PAGE_SIZE - 1) AND NOT PAGE_MASK) - (min_vaddr AND NOT PAGE_MASK))"

text \<open>The second walk maps the segments and finds the dynamic array.\<close>

primrec elf_map ::
    "elf_kernel \<Rightarrow> u8 list \<Rightarrow> u32 \<Rightarrow> buffer \<Rightarrow> nat \<Rightarrow> nat \<Rightarrow> nat \<Rightarrow> mem \<times> u32 \<Rightarrow> (mem \<times> u32) res" where
  "elf_map k fd rs phe entsize 0 offset st = Inr st"
| "elf_map k fd rs phe entsize (Suc ncmds) offset st =
     bindR (p_type phe offset) (\<lambda>type.
     bindR (if type = PT_LOAD then
              bindR (p_vaddr phe offset) (\<lambda>vaddr. bindR (p_filesz phe offset) (\<lambda>filesz.
              bindR (p_offset phe offset) (\<lambda>off.
                Inr (ek_wire k fd (rs + vaddr) filesz off (fst st), snd st))))
            else if type = PT_DYNAMIC then bindR (p_vaddr phe offset) (\<lambda>vaddr. Inr (fst st, rs + vaddr))
            else Inr st) (\<lambda>st.
     elf_map k fd rs phe entsize ncmds (offset + entsize) st))"

section \<open>The dynamic array\<close>

text \<open>The fields of \<open>ElfObject\<close>; a pointer is an address, and 0 is NULL.\<close>

record elf_object =
  elf_fHeader :: u32
  elf_fDynamic :: u32
  elf_fSymtab :: u32
  elf_fStrtab :: u32
  elf_fRel :: u32
  elf_fRelSize :: u32
  elf_fPltRel :: u32
  elf_fPltRelSize :: u32
  elf_fSlide :: u32

abbreviation (input) "DT_NEEDED \<equiv> 1 :: u32"
abbreviation (input) "DT_PLTRELSZ \<equiv> 2 :: u32"
abbreviation (input) "DT_STRTAB \<equiv> 5 :: u32"
abbreviation (input) "DT_SYMTAB \<equiv> 6 :: u32"
abbreviation (input) "DT_RELA \<equiv> 7 :: u32"
abbreviation (input) "DT_REL \<equiv> 17 :: u32"
abbreviation (input) "DT_RELSZ \<equiv> 18 :: u32"
abbreviation (input) "DT_PLTREL \<equiv> 20 :: u32"
abbreviation (input) "DT_JMPREL \<equiv> 23 :: u32"

text \<open>One entry of the array: the value is read in the cases that use it.\<close>

definition dyn_entry :: "mem \<Rightarrow> u32 \<Rightarrow> u32 \<Rightarrow> elf_object \<Rightarrow> elf_object res" where
  "dyn_entry m dyn tag obj =
     (let d_val = rd32 m (dyn + 4) in
      if tag = DT_RELSZ then mapR (\<lambda>v. obj\<lparr>elf_fRelSize := v\<rparr>) d_val
      else if tag = DT_REL then mapR (\<lambda>v. obj\<lparr>elf_fRel := elf_fHeader obj + v\<rparr>) d_val
      else if tag = DT_PLTRELSZ then mapR (\<lambda>v. obj\<lparr>elf_fPltRelSize := v\<rparr>) d_val
      else if tag = DT_JMPREL then mapR (\<lambda>v. obj\<lparr>elf_fPltRel := elf_fHeader obj + v\<rparr>) d_val
      else if tag = DT_PLTREL then Inr obj
      else if tag = DT_RELA then Inl (Halt RelaUnsupported)
      else if tag = DT_STRTAB then mapR (\<lambda>v. obj\<lparr>elf_fStrtab := elf_fHeader obj + v\<rparr>) d_val
      else if tag = DT_NEEDED then
        (if elf_fStrtab obj = 0 then Inl (Halt NeededBeforeStrtab) else mapR (\<lambda>v. obj) d_val)
      else if tag = DT_SYMTAB then mapR (\<lambda>v. obj\<lparr>elf_fSymtab := elf_fHeader obj + v\<rparr>) d_val
      else mapR (\<lambda>v. obj) d_val)"

partial_function (option) dyn_loop :: "mem \<Rightarrow> u32 \<Rightarrow> elf_object \<Rightarrow> elf_object res option" where
  "dyn_loop m dyn obj =
     (case rd32 m dyn of
        Inl e \<Rightarrow> Some (Inl e)
      | Inr tag \<Rightarrow>
          if tag = 0 then Some (Inr obj)
          else (case dyn_entry m dyn tag obj of
                  Inl e \<Rightarrow> Some (Inl e)
                | Inr obj' \<Rightarrow> dyn_loop m (dyn + 8) obj'))"

section \<open>Relocations\<close>

definition ELF32_R_SYM :: "u32 \<Rightarrow> u32" where "ELF32_R_SYM r_info = drop_bit 8 r_info"
definition ELF32_R_TYPE :: "u32 \<Rightarrow> u32" where "ELF32_R_TYPE r_info = r_info AND 0xff"

text \<open>
  The types of a relocation with a symbol that are let through: \<open>R_ARM_JUMP_SLOT\<close>,
  \<open>R_ARM_GLOB_DAT\<close>, \<open>R_ARM_ABS32\<close>, \<open>R_ARM_RELATIVE\<close> and \<open>R_ARM_NONE\<close>. The second \<open>switch\<close> has
  the case that halts only.
\<close>

definition elf_reloc :: "mem \<Rightarrow> elf_object \<Rightarrow> u32 \<Rightarrow> unit res" where
  "elf_reloc m obj rel =
     bindR (rd32 m (rel + 4)) (\<lambda>r_info.
       let type = ELF32_R_TYPE r_info; sym = ELF32_R_SYM r_info in
       bindR (if sym \<noteq> 0 then
                bindR (rd32 m (elf_fSymtab obj + 16 * sym)) (\<lambda>st_name.
                  if type \<in> {22, 21, 2, 23, 0} then Inr () else Inl (Halt InvalidElfReloc))
              else Inr ()) (\<lambda>_.
       Inl (Halt InvalidElfReloc)))"

primrec readReloc_loop :: "mem \<Rightarrow> elf_object \<Rightarrow> nat \<Rightarrow> u32 \<Rightarrow> unit res" where
  "readReloc_loop m obj 0 rel = Inr ()"
| "readReloc_loop m obj (Suc count) rel =
     bindR (elf_reloc m obj rel) (\<lambda>_. readReloc_loop m obj count (rel + 8))"

definition readReloc :: "mem \<Rightarrow> elf_object \<Rightarrow> u32 \<Rightarrow> u32 \<Rightarrow> unit res" where
  "readReloc m obj rel sz = readReloc_loop m obj (unat (sz div 8)) rel"

definition parseDynamicSegment :: "mem \<Rightarrow> elf_object \<Rightarrow> elf_object res" where
  "parseDynamicSegment m obj =
     (if elf_fDynamic obj = 0 then Inl (Halt MissingDynamicSegment)
      else bindR (run_loop (dyn_loop m (elf_fDynamic obj) obj)) (\<lambda>obj.
        bindR (readReloc m obj (elf_fRel obj) (elf_fRelSize obj)) (\<lambda>_.
        bindR (readReloc m obj (elf_fPltRel obj) (elf_fPltRelSize obj)) (\<lambda>_. Inr obj))))"

section \<open>Loading a file\<close>

text \<open>The product of two \<open>uint16_t\<close> is one of \<open>int\<close>s.\<close>

definition table_size :: "u16 \<Rightarrow> u16 \<Rightarrow> nat res" where
  "table_size entsize num =
     (if unat entsize * unat num > 0x7FFFFFFF then Inl Undefined else Inr (unat entsize * unat num))"

definition elf_magic :: "buffer \<Rightarrow> bool" where
  "elf_magic h \<longleftrightarrow> e_ident h 0 = Inr 0x7F \<and> e_ident h 1 = Inr 0x45 \<and> e_ident h 2 = Inr 0x4C \<and> e_ident h 3 = Inr 0x46"

text \<open>The routine returns NULL whatever it has done, so the pointer returned is left out.\<close>

definition elf_instantiateFromFile :: "elf_kernel \<Rightarrow> u8 list \<Rightarrow> mem \<Rightarrow> (elf_object option \<times> mem) res" where
  "elf_instantiateFromFile k fd m =
     (let h = read_at fd 52 0 (\<lambda>i. if i < 52 then Some 0 else None) in
      if \<not> elf_magic h then Inl (Halt InvalidMagic)
      else
        bindR (e_phentsize h) (\<lambda>phentsize. bindR (e_phnum h) (\<lambda>phnum.
        bindR (e_shentsize h) (\<lambda>shentsize. bindR (e_shnum h) (\<lambda>shnum. bindR (e_phoff h) (\<lambda>phoff.
        bindR (table_size phentsize phnum) (\<lambda>total_phentsize. bindR (table_size shentsize shnum) (\<lambda>total_shentsize.
        let phe = read_at fd total_phentsize phoff malloc_buf in
        bindR (elf_extent phe (unat phentsize) (unat phnum) 0 (0, 0)) (\<lambda>ext.
        let (rs, m) = ek_reserve k (elf_vmsize ext) m in
        bindR (elf_map k fd rs phe (unat phentsize) (unat phnum) 0 (m, 0)) (\<lambda>(m, dyn).
        let obj = \<lparr>elf_fHeader = rs, elf_fDynamic = dyn, elf_fSymtab = 0, elf_fStrtab = 0, elf_fRel = 0,
                   elf_fRelSize = 0, elf_fPltRel = 0, elf_fPltRelSize = 0, elf_fSlide = rs\<rparr> in
        bindR (parseDynamicSegment m obj) (\<lambda>obj. Inr (None, m))))))))))))"

section \<open>The tables as they stand in a file\<close>

definition file16 :: "u8 list \<Rightarrow> nat \<Rightarrow> u16" where
  "file16 fd i = ucast (fd ! i) OR push_bit 8 (ucast (fd ! (i + 1)))"

definition file32 :: "u8 list \<Rightarrow> nat \<Rightarrow> u32" where
  "file32 fd i = le32 (fd ! i) (fd ! (i + 1)) (fd ! (i + 2)) (fd ! (i + 3))"

record phdr =
  ph_type :: u32
  ph_offset :: u32
  ph_vaddr :: u32
  ph_filesz :: u32
  ph_memsz :: u32

definition phdr_at :: "u8 list \<Rightarrow> nat \<Rightarrow> phdr" where
  "phdr_at fd i = \<lparr>ph_type = file32 fd i, ph_offset = file32 fd (i + 4), ph_vaddr = file32 fd (i + 8),
     ph_filesz = file32 fd (i + 16), ph_memsz = file32 fd (i + 20)\<rparr>"

definition program_headers :: "u8 list \<Rightarrow> phdr list" where
  "program_headers fd = map (\<lambda>i. phdr_at fd (unat (file32 fd 28) + i * unat (file16 fd 42))) [0..<unat (file16 fd 44)]"

text \<open>The header and the program headers are in the file, and the sizes of the tables fit in an \<open>int\<close>.\<close>

definition elf_tables :: "u8 list \<Rightarrow> bool" where
  "elf_tables fd \<longleftrightarrow> 52 \<le> length fd \<and> take 4 fd = [0x7F, 0x45, 0x4C, 0x46] \<and>
     (file16 fd 44 = 0 \<or> 32 \<le> unat (file16 fd 42)) \<and>
     unat (file32 fd 28) + unat (file16 fd 42) * unat (file16 fd 44) \<le> length fd \<and>
     unat (file16 fd 42) * unat (file16 fd 44) \<le> 0x7FFFFFFF \<and> unat (file16 fd 46) * unat (file16 fd 48) \<le> 0x7FFFFFFF"

definition phdr_in :: "buffer \<Rightarrow> nat \<Rightarrow> phdr \<Rightarrow> bool" where
  "phdr_in phe off p \<longleftrightarrow> p_type phe off = Inr (ph_type p) \<and> p_offset phe off = Inr (ph_offset p) \<and>
     p_vaddr phe off = Inr (ph_vaddr p) \<and> p_filesz phe off = Inr (ph_filesz p) \<and> p_memsz phe off = Inr (ph_memsz p)"

lemma buf32_read_at:
  "i + 4 \<le> len \<Longrightarrow> unat off + i + 4 \<le> length fd \<Longrightarrow> buf32 (read_at fd len off buf) i = Inr (file32 fd (unat off + i))"
  by (simp add: buf32_def buf8_def read_at_def file32_def add.assoc)

lemma buf16_read_at:
  "i + 2 \<le> len \<Longrightarrow> unat off + i + 2 \<le> length fd \<Longrightarrow> buf16 (read_at fd len off buf) i = Inr (file16 fd (unat off + i))"
  by (simp add: buf16_def buf8_def read_at_def file16_def)

lemma header_fields:
  fixes buf :: buffer
  assumes "52 \<le> length fd" "h = read_at fd 52 0 buf"
  shows "e_phoff h = Inr (file32 fd 28)" "e_phentsize h = Inr (file16 fd 42)" "e_phnum h = Inr (file16 fd 44)"
    "e_shentsize h = Inr (file16 fd 46)" "e_shnum h = Inr (file16 fd 48)"
  using assms by (simp_all add: e_phoff_def e_phentsize_def e_phnum_def e_shentsize_def e_shnum_def
      buf32_read_at buf16_read_at)

lemma header_magic:
  assumes "52 \<le> length fd" "take 4 fd = [0x7F, 0x45, 0x4C, 0x46]"
  shows "elf_magic (read_at fd 52 0 buf)"
proof -
  have "fd ! i = [0x7F, 0x45, 0x4C, 0x46] ! i" if "i < 4" for i
    using assms(2) that by (metis nth_take)
  from this [of 0] this [of 1] this [of 2] this [of 3]
  have "fd ! 0 = 0x7F" "fd ! 1 = 0x45" "fd ! Suc (Suc 0) = 0x4C" "fd ! 3 = 0x46" by (simp_all add: numeral_2_eq_2)
  moreover have "0 < length fd" "1 < length fd" "2 < length fd" "3 < length fd" using assms(1) by auto
  ultimately show ?thesis by (simp add: elf_magic_def e_ident_def buf8_def read_at_def del: length_greater_0_conv)
qed

lemma program_headers_in:
  assumes "elf_tables fd" "i < unat (file16 fd 44)"
  defines "sz \<equiv> unat (file16 fd 42)"
  shows "phdr_in (read_at fd (sz * unat (file16 fd 44)) (file32 fd 28) malloc_buf) (i * sz) (program_headers fd ! i)"
proof -
  have sz: "32 \<le> sz" using assms by (auto simp: elf_tables_def)
  have "Suc i * sz \<le> unat (file16 fd 44) * sz" using assms(2) by (intro mult_right_mono) auto
  then have room: "i * sz + 32 \<le> sz * unat (file16 fd 44)" using sz by (simp add: algebra_simps)
  then have "unat (file32 fd 28) + i * sz + 32 \<le> length fd" using assms(1) by (auto simp: elf_tables_def sz_def)
  with room show ?thesis using assms(2)
    by (simp add: phdr_in_def p_type_def p_offset_def p_vaddr_def p_filesz_def p_memsz_def buf32_read_at
        program_headers_def phdr_at_def sz_def add.assoc)
qed

section \<open>The two walks\<close>

definition extend :: "phdr \<Rightarrow> u32 \<times> u32 \<Rightarrow> u32 \<times> u32" where
  "extend p ext = (if ph_type p = PT_LOAD then
     (case ext of (mx, mn) \<Rightarrow> (max mx (ph_vaddr p + ph_memsz p), min mn (ph_vaddr p))) else ext)"

lemma elf_extent_fold:
  "(\<And>j. j < length phs \<Longrightarrow> phdr_in phe (off + j * sz) (phs ! j)) \<Longrightarrow>
   elf_extent phe sz (length phs) off ext = Inr (fold extend phs ext)"
proof (induction phs arbitrary: off ext)
  case (Cons p phs)
  have p: "phdr_in phe off p" using Cons.prems [of 0] by simp
  have "phdr_in phe (off + sz + j * sz) (phs ! j)" if "j < length phs" for j
    using Cons.prems [of "Suc j"] that by (simp add: algebra_simps)
  then have rest: "elf_extent phe sz (length phs) (off + sz) ext' = Inr (fold extend phs ext')" for ext'
    by (rule Cons.IH)
  have "(if ph_type p = PT_LOAD then Inr (case ext of (mx, mn) \<Rightarrow>
      (if ph_vaddr p + ph_memsz p > mx then ph_vaddr p + ph_memsz p else mx,
       if ph_vaddr p < mn then ph_vaddr p else mn)) else Inr ext) = (Inr (extend p ext) :: (u32 \<times> u32) res)"
    by (auto simp: extend_def max_def min_def split: prod.split)
  then show ?case using p rest by (simp add: phdr_in_def cong: if_cong)
qed simp

definition load_one :: "elf_kernel \<Rightarrow> u8 list \<Rightarrow> u32 \<Rightarrow> phdr \<Rightarrow> mem \<times> u32 \<Rightarrow> mem \<times> u32" where
  "load_one k fd rs p st =
     (if ph_type p = PT_LOAD then (ek_wire k fd (rs + ph_vaddr p) (ph_filesz p) (ph_offset p) (fst st), snd st)
      else if ph_type p = PT_DYNAMIC then (fst st, rs + ph_vaddr p) else st)"

lemma elf_map_fold:
  "(\<And>j. j < length phs \<Longrightarrow> phdr_in phe (off + j * sz) (phs ! j)) \<Longrightarrow>
   elf_map k fd rs phe sz (length phs) off st = Inr (fold (load_one k fd rs) phs st)"
proof (induction phs arbitrary: off st)
  case (Cons p phs)
  have p: "phdr_in phe off p" using Cons.prems [of 0] by simp
  have "phdr_in phe (off + sz + j * sz) (phs ! j)" if "j < length phs" for j
    using Cons.prems [of "Suc j"] that by (simp add: algebra_simps)
  then have rest: "elf_map k fd rs phe sz (length phs) (off + sz) st' = Inr (fold (load_one k fd rs) phs st')" for st'
    by (rule Cons.IH)
  show ?case using p rest by (cases st) (simp add: phdr_in_def load_one_def [of k fd rs p])
qed simp

section \<open>The range reserved\<close>

lemma page_floor: "unat (x AND NOT 0xFFF :: u32) = unat x div 4096 * 4096"
proof -
  have m: "(0xFFF :: u32) = mask 12" by (simp add: mask_eq_exp_minus_1)
  have "x AND NOT 0xFFF = push_bit 12 (drop_bit 12 x)"
    unfolding m by (rule bit_word_eqI) (auto simp: bit_simps)
  also have "unat \<dots> = unat x div 4096 * 4096"
  proof -
    have "unat (drop_bit 12 x) = unat x div 4096" by (simp only: unat_drop_bit_eq) (simp add: drop_bit_eq_div)
    moreover have "unat x div 4096 * 4096 < 4294967296" using unat_u32_less [of x] by linarith
    ultimately show ?thesis by (simp add: push_bit_eq_mult unat_word_ariths mult.commute)
  qed
  finally show ?thesis .
qed

lemma elf_vmsize_covers:
  assumes "unat mx \<le> 4294963200"
  shows "unat mx \<le> unat (elf_vmsize (mx, 0))"
proof -
  have eq: "elf_vmsize (mx, 0) = (mx + 0xFFF) AND NOT 0xFFF" by (simp add: elf_vmsize_def add.commute)
  have "unat (mx + 0xFFF :: u32) = unat mx + 4095" using assms by (simp add: unat_word_ariths)
  then show ?thesis unfolding eq page_floor by simp
qed

lemma fold_extend:
  assumes "\<forall>p\<in>set phs. ph_type p = PT_LOAD \<longrightarrow> unat (ph_vaddr p) + unat (ph_memsz p) \<le> B" "B < 4294967296"
    "unat mx \<le> B"
  shows "\<exists>mx'. fold extend phs (mx, 0) = (mx', 0) \<and> unat mx' \<le> B \<and> mx \<le> mx' \<and>
    (\<forall>p\<in>set phs. ph_type p = PT_LOAD \<longrightarrow> unat (ph_vaddr p) + unat (ph_memsz p) \<le> unat mx')"
  using assms
proof (induction phs arbitrary: mx)
  case (Cons p phs)
  show ?case
  proof (cases "ph_type p = PT_LOAD")
    case True
    then have fits: "unat (ph_vaddr p) + unat (ph_memsz p) \<le> B" using Cons.prems(1) by simp
    then have sum: "unat (ph_vaddr p + ph_memsz p) = unat (ph_vaddr p) + unat (ph_memsz p)"
      using Cons.prems(2) by (simp add: unat_word_ariths)
    let ?m = "max mx (ph_vaddr p + ph_memsz p)"
    have "unat ?m \<le> B" using fits sum Cons.prems(3) by (simp add: max_def)
    then obtain mx' where mx': "fold extend phs (?m, 0) = (mx', 0)" "unat mx' \<le> B" "?m \<le> mx'"
        "\<forall>p\<in>set phs. ph_type p = PT_LOAD \<longrightarrow> unat (ph_vaddr p) + unat (ph_memsz p) \<le> unat mx'"
      using Cons.IH [of ?m] Cons.prems(1,2) by auto
    then have "ph_vaddr p + ph_memsz p \<le> mx'" "mx \<le> mx'" by auto
    with sum have "unat (ph_vaddr p) + unat (ph_memsz p) \<le> unat mx'" by (simp add: word_le_nat_alt)
    with mx' True \<open>mx \<le> mx'\<close> show ?thesis by (simp add: extend_def [of p])
  next
    case False
    then show ?thesis using Cons.IH [of mx] Cons.prems by (auto simp: extend_def [of p])
  qed
qed simp

lemma fold_load_one:
  "fold (load_one k fd rs) phs (m, d) =
    (fold (\<lambda>p. ek_wire k fd (rs + ph_vaddr p) (ph_filesz p) (ph_offset p)) (filter (\<lambda>p. ph_type p = PT_LOAD) phs) m,
     fold (\<lambda>p d. rs + ph_vaddr p) (filter (\<lambda>p. ph_type p = PT_DYNAMIC) phs) d)"
  by (induction phs arbitrary: m d) (auto simp: load_one_def)

section \<open>The dynamic array in memory\<close>

text \<open>The entries from an address on, with the tag that ends them.\<close>

fun dyn_array :: "mem \<Rightarrow> u32 \<Rightarrow> (u32 \<times> u32) list \<Rightarrow> bool" where
  "dyn_array m p [] \<longleftrightarrow> rd32 m p = Inr 0"
| "dyn_array m p ((tag, v) # ds) \<longleftrightarrow> tag \<noteq> 0 \<and> rd32 m p = Inr tag \<and> rd32 m (p + 4) = Inr v \<and> dyn_array m (p + 8) ds"

text \<open>The first entry that cannot be, with the string table found before it, and the last value of a tag.\<close>

fun dyn_error :: "u32 \<Rightarrow> u32 \<Rightarrow> (u32 \<times> u32) list \<Rightarrow> halt_msg option" where
  "dyn_error base strtab [] = None"
| "dyn_error base strtab ((tag, v) # ds) =
     (if tag = DT_RELA then Some RelaUnsupported
      else if tag = DT_NEEDED \<and> strtab = 0 then Some NeededBeforeStrtab
      else dyn_error base (if tag = DT_STRTAB then base + v else strtab) ds)"

definition dyn_value :: "u32 \<Rightarrow> (u32 \<times> u32) list \<Rightarrow> u32 \<Rightarrow> u32" where
  "dyn_value tag ds v = fold (\<lambda>(t, w) v. if t = tag then w else v) ds v"

lemma dyn_loop_array:
  assumes "dyn_array m p ds"
  shows "\<exists>r. dyn_loop m p obj = Some r \<and>
    (case dyn_error (elf_fHeader obj) (elf_fStrtab obj) ds of
       Some e \<Rightarrow> r = Inl (Halt e)
     | None \<Rightarrow> \<exists>obj'. r = Inr obj' \<and> elf_fRelSize obj' = dyn_value DT_RELSZ ds (elf_fRelSize obj) \<and>
         elf_fPltRelSize obj' = dyn_value DT_PLTRELSZ ds (elf_fPltRelSize obj))"
  using assms
proof (induction ds arbitrary: p obj)
  case Nil
  then show ?case by (subst dyn_loop.simps) (simp add: dyn_value_def)
next
  case (Cons d ds)
  obtain tag v where d: "d = (tag, v)" by (cases d)
  have here: "tag \<noteq> 0" "rd32 m p = Inr tag" "rd32 m (p + 4) = Inr v" and rest: "dyn_array m (p + 8) ds"
    using Cons.prems by (simp_all add: d)
  show ?case
  proof (cases "dyn_entry m p tag obj")
    case (Inl e)
    then have "dyn_loop m p obj = Some (Inl e)" using here by (subst dyn_loop.simps) simp
    with Inl here show ?thesis by (auto simp: d dyn_entry_def Let_def split: if_splits)
  next
    case (Inr obj')
    then have loop: "dyn_loop m p obj = dyn_loop m (p + 8) obj'" using here by (subst dyn_loop.simps) simp
    have "elf_fHeader obj' = elf_fHeader obj"
        "elf_fStrtab obj' = (if tag = DT_STRTAB then elf_fHeader obj + v else elf_fStrtab obj)"
        "elf_fRelSize obj' = (if tag = DT_RELSZ then v else elf_fRelSize obj)"
        "elf_fPltRelSize obj' = (if tag = DT_PLTRELSZ then v else elf_fPltRelSize obj)"
        "tag \<noteq> DT_RELA \<and> \<not> (tag = DT_NEEDED \<and> elf_fStrtab obj = 0)"
      using Inr here by (auto simp: dyn_entry_def Let_def split: if_splits)
    then have "dyn_error (elf_fHeader obj) (elf_fStrtab obj) (d # ds) = dyn_error (elf_fHeader obj') (elf_fStrtab obj') ds"
        "dyn_value DT_RELSZ (d # ds) (elf_fRelSize obj) = dyn_value DT_RELSZ ds (elf_fRelSize obj')"
        "dyn_value DT_PLTRELSZ (d # ds) (elf_fPltRelSize obj) = dyn_value DT_PLTRELSZ ds (elf_fPltRelSize obj')"
      by (auto simp: d dyn_value_def)
    with Cons.IH [OF rest, of obj'] show ?thesis by (simp only: loop)
  qed
qed

section \<open>Relocations end the process\<close>

lemma rd32_error: "rd32 m a = Inl e \<Longrightarrow> \<exists>b. e = Fault b"
  by (auto simp: rd32_def rd8_def bindR_eq_Inl_iff split: option.splits)

lemma elf_reloc_stops: "\<exists>e. elf_reloc m obj rel = Inl e \<and> (e = Halt InvalidElfReloc \<or> (\<exists>a. e = Fault a))"
proof (cases "rd32 m (rel + 4)")
  case (Inl e)
  then show ?thesis using rd32_error [OF Inl] by (simp add: elf_reloc_def)
next
  case (Inr r_info)
  show ?thesis
  proof (cases "rd32 m (elf_fSymtab obj + 16 * ELF32_R_SYM r_info)")
    case (Inl e)
    then show ?thesis using Inr rd32_error [OF Inl] by (simp add: elf_reloc_def Let_def)
  qed (simp add: elf_reloc_def Let_def Inr)
qed

lemma readReloc_stops:
  "if sz < 8 then readReloc m obj rel sz = Inr ()
   else \<exists>e. readReloc m obj rel sz = Inl e \<and> (e = Halt InvalidElfReloc \<or> (\<exists>a. e = Fault a))"
proof (cases "sz < 8")
  case True
  then have "unat (sz div 8) = 0" by (simp add: unat_div word_less_nat_alt)
  with True show ?thesis by (simp add: readReloc_def)
next
  case False
  then have "unat (sz div 8) \<noteq> 0" by (simp add: unat_div word_less_nat_alt div_eq_0_iff)
  then obtain n where "unat (sz div 8) = Suc n" by (cases "unat (sz div 8)") auto
  with False show ?thesis using elf_reloc_stops [of m obj rel] by (auto simp: readReloc_def)
qed

section \<open>Loading\<close>

text \<open>The segments a file has mapped, and where its dynamic array is: 0 if there is none.\<close>

definition load_segments :: "u8 list \<Rightarrow> phdr list" where
  "load_segments fd = filter (\<lambda>p. ph_type p = PT_LOAD) (program_headers fd)"

definition dynamic_address :: "u8 list \<Rightarrow> u32 \<Rightarrow> u32" where
  "dynamic_address fd rs = fold (\<lambda>p d. rs + ph_vaddr p) (filter (\<lambda>p. ph_type p = PT_DYNAMIC) (program_headers fd)) 0"

definition mapped_file :: "elf_kernel \<Rightarrow> u8 list \<Rightarrow> u32 \<Rightarrow> mem \<Rightarrow> mem" where
  "mapped_file k fd rs m =
     fold (\<lambda>p. ek_wire k fd (rs + ph_vaddr p) (ph_filesz p) (ph_offset p)) (load_segments fd) m"

definition new_elf :: "u32 \<Rightarrow> u32 \<Rightarrow> elf_object" where
  "new_elf rs dyn = \<lparr>elf_fHeader = rs, elf_fDynamic = dyn, elf_fSymtab = 0, elf_fStrtab = 0, elf_fRel = 0,
     elf_fRelSize = 0, elf_fPltRel = 0, elf_fPltRelSize = 0, elf_fSlide = rs\<rparr>"

lemma elf_instantiate_tables:
  assumes "elf_tables fd" "fold extend (program_headers fd) (0, 0) = ext" "ek_reserve k (elf_vmsize ext) m = (rs, m0)"
  shows "elf_instantiateFromFile k fd m =
    bindR (parseDynamicSegment (mapped_file k fd rs m0) (new_elf rs (dynamic_address fd rs)))
      (\<lambda>obj. Inr (None, mapped_file k fd rs m0))"
proof -
  let ?h = "read_at fd 52 0 (\<lambda>i. if i < 52 then Some 0 else None)"
  let ?sz = "unat (file16 fd 42)" and ?n = "unat (file16 fd 44)"
  let ?phe = "read_at fd (?sz * ?n) (file32 fd 28) malloc_buf"
  have h: "52 \<le> length fd" and magic: "elf_magic ?h" using assms(1) header_magic by (auto simp: elf_tables_def)
  have sizes: "table_size (file16 fd 42) (file16 fd 44) = Inr (?sz * ?n)"
      "table_size (file16 fd 46) (file16 fd 48) = Inr (unat (file16 fd 46) * unat (file16 fd 48))"
    using assms(1) by (simp_all add: elf_tables_def table_size_def)
  have n: "?n = length (program_headers fd)" by (simp add: program_headers_def)
  have phdrs: "phdr_in ?phe (0 + j * ?sz) (program_headers fd ! j)" if "j < length (program_headers fd)" for j
    using program_headers_in [OF assms(1), of j] that n by simp
  have "elf_extent ?phe ?sz ?n 0 (0, 0) = Inr ext"
    using elf_extent_fold [of "program_headers fd" ?phe 0 ?sz "(0, 0)"] phdrs assms(2) by (simp only: n)
  moreover have "elf_map k fd rs ?phe ?sz ?n 0 (m0, 0) = Inr (mapped_file k fd rs m0, dynamic_address fd rs)"
    using elf_map_fold [of "program_headers fd" ?phe 0 ?sz k fd rs "(m0, 0)"] phdrs
    by (simp only: n fold_load_one mapped_file_def load_segments_def dynamic_address_def)
  ultimately show ?thesis
    unfolding elf_instantiateFromFile_def Let_def
    by (simp add: magic header_fields [OF h refl] sizes assms(3) new_elf_def)
qed

lemma parseDynamicSegment_array:
  assumes "dyn_array m (elf_fDynamic obj) ds" "elf_fDynamic obj \<noteq> 0" "elf_fRelSize obj = 0" "elf_fPltRelSize obj = 0"
  shows "case dyn_error (elf_fHeader obj) (elf_fStrtab obj) ds of
      Some e \<Rightarrow> parseDynamicSegment m obj = Inl (Halt e)
    | None \<Rightarrow>
        if dyn_value DT_RELSZ ds 0 < 8 \<and> dyn_value DT_PLTRELSZ ds 0 < 8 then is_ok (parseDynamicSegment m obj)
        else \<exists>e. parseDynamicSegment m obj = Inl e \<and> (e = Halt InvalidElfReloc \<or> (\<exists>a. e = Fault a))"
proof -
  from dyn_loop_array [OF assms(1), of obj] obtain r where r: "dyn_loop m (elf_fDynamic obj) obj = Some r"
    "case dyn_error (elf_fHeader obj) (elf_fStrtab obj) ds of
       Some e \<Rightarrow> r = Inl (Halt e)
     | None \<Rightarrow> \<exists>obj'. r = Inr obj' \<and> elf_fRelSize obj' = dyn_value DT_RELSZ ds (elf_fRelSize obj) \<and>
         elf_fPltRelSize obj' = dyn_value DT_PLTRELSZ ds (elf_fPltRelSize obj)"
    by blast
  show ?thesis
  proof (cases "dyn_error (elf_fHeader obj) (elf_fStrtab obj) ds")
    case (Some e)
    with r assms(2) show ?thesis by (simp add: parseDynamicSegment_def)
  next
    case None
    with r(2) obtain obj' where obj': "r = Inr obj'" "elf_fRelSize obj' = dyn_value DT_RELSZ ds 0"
        "elf_fPltRelSize obj' = dyn_value DT_PLTRELSZ ds 0" using assms(3,4) by auto
    have "parseDynamicSegment m obj =
        bindR (readReloc m obj' (elf_fRel obj') (elf_fRelSize obj')) (\<lambda>_.
        bindR (readReloc m obj' (elf_fPltRel obj') (elf_fPltRelSize obj')) (\<lambda>_. Inr obj'))"
      using r(1) obj'(1) assms(2) by (simp add: parseDynamicSegment_def)
    with None obj'(2,3) readReloc_stops [of "elf_fRelSize obj'" m obj' "elf_fRel obj'"]
      readReloc_stops [of "elf_fPltRelSize obj'" m obj' "elf_fPltRel obj'"]
    show ?thesis by (auto split: if_splits)
  qed
qed

section \<open>Properties\<close>


text \<open>A file with one segment, which holds all of it, and a relocation of type \<open>R_ARM_RELATIVE\<close>.\<close>

definition example_elf :: "u8 list" where
  "example_elf =
     [127, 69, 76, 70, 0, 0, 0, 0, 0, 0, 0, 0, 0, 0, 0, 0, 3, 0, 40, 0, 1, 0, 0, 0, 0, 0, 0, 0, 52, 0, 0, 0, 0, 0, 0, 0, 0, 0, 0, 0, 52, 0, 32, 0, 2, 0, 40, 0, 0, 0, 0, 0] @
     [1, 0, 0, 0, 0, 0, 0, 0, 0, 0, 0, 0, 0, 0, 0, 0, 148, 0, 0, 0, 148, 0, 0, 0, 5, 0, 0, 0, 0, 16, 0, 0] @
     [2, 0, 0, 0, 116, 0, 0, 0, 116, 0, 0, 0, 116, 0, 0, 0, 24, 0, 0, 0, 24, 0, 0, 0, 6, 0, 0, 0, 4, 0, 0, 0] @
     [18, 0, 0, 0, 8, 0, 0, 0, 17, 0, 0, 0, 140, 0, 0, 0, 0, 0, 0, 0, 0, 0, 0, 0] @ [0, 0, 0, 0, 23, 0, 0, 0]"

definition example_mmap :: elf_kernel where
  "example_mmap = \<lparr>ek_reserve = (\<lambda>n m. (0x10000, m)),
     ek_wire = (\<lambda>fd addr len off m a. if a - addr < len \<and> unat off + unat (a - addr) < length fd
       then Some (fd ! (unat off + unat (a - addr))) else m a)\<rparr>"

lemma example_header:
  "length example_elf = 148" "take 4 example_elf = [0x7F, 0x45, 0x4C, 0x46]" "file32 example_elf 28 = 52"
  "file16 example_elf 42 = 32" "file16 example_elf 44 = 2" "file16 example_elf 46 = 40" "file16 example_elf 48 = 0"
  by (simp_all add: example_elf_def file32_def file16_def le32_def)

lemma example_tables: "elf_tables example_elf"
  by (simp add: elf_tables_def example_header)

lemma example_program_headers:
  "program_headers example_elf =
    [\<lparr>ph_type = 1, ph_offset = 0, ph_vaddr = 0, ph_filesz = 148, ph_memsz = 148\<rparr>,
     \<lparr>ph_type = 2, ph_offset = 116, ph_vaddr = 116, ph_filesz = 24, ph_memsz = 24\<rparr>]"
  by (simp add: program_headers_def example_header upt_rec phdr_at_def)
    (simp add: example_elf_def file32_def le32_def)

lemma example_segments: "\<forall>p\<in>set (load_segments example_elf).
    ph_filesz p \<le> ph_memsz p \<and> unat (ph_vaddr p) + unat (ph_memsz p) \<le> 2 ^ 32 - 2 ^ 12"
  by (simp add: load_segments_def example_program_headers)

lemma example_dynamic: "dynamic_address example_elf 0x10000 = 0x10074"
  by (simp add: dynamic_address_def example_program_headers)

lemma example_array:
  "dyn_array (mapped_file example_mmap example_elf 0x10000 (\<lambda>a. None)) 0x10074 [(18, 8), (17, 140)]"
  by (simp add: mapped_file_def load_segments_def example_program_headers example_mmap_def example_header rd32_def rd8_def)
    (simp add: example_elf_def le32_def)


end
