(* ===== verification/Spec2Isabelle.thy ===== *)
theory Spec2Isabelle
  imports LnkUtil SymbolSearch ExportTrie MachoImage Rebase Bootstrap Symbols ImageChain Bind BindSpec
    Classic Loader LibraryChain Startup InitOrder DyldApi CrtArith CrtWide CrtDiv CrtBits Rand48
    CType Strtol Uuid UuidGen Inet Qsort Elf
begin

text \<open>
  A verification development for libSystem_and_linker: the dynamic linker of the core framework
  (src/core/lnk*.cpp), the integer part of its compiler runtime (src/core/CompilerRT) and, of its
  C library, random numbers, character classes, number parsing, identifiers, internet addresses,
  sorting and searching.

  The program. The linker is bound into the library it provides. The kernel starts it; it
  relocates itself (lnk_bootstrap.cpp), loads the libraries the program needs and the ones they
  need (lnk.cpp, lnk_macho.cpp), binds the names they import to addresses other images export
  (lnk_macho.cpp, with the search routines of lnk_util.cpp), runs their initializers and jumps
  to the program. Afterwards it answers the calls of lnk_api.cpp (dlopen, dlsym, dladdr and the
  routines that enumerate images). The compiler runtime is what the compiler calls for integer
  operations the 32-bit ARM processor does not have. The C library is what every program calls;
  the routines modelled keep no state but that of the random numbers and of the identifier
  generator.

  How the code is modelled. Integers are words of their width (CPrelude), memory is a partial
  map from 32-bit addresses to bytes, a routine that can stop short returns a sum: \<open>Inl\<close> of a halt
  with its message, of an access to an unmapped address, of a step the language leaves
  undefined or of a loop that never ends, or \<open>Inr\<close> of its value. Loops that need not end are
  \<open>c_while\<close> or partial functions into \<open>option\<close>; \<open>run_loop\<close> turns the missing result into the error
  \<open>Hang\<close>. An image is named by a number where the code has a pointer to an \<open>Image\<close>, and the images
  are a map from these names to records of the fields of \<open>Image\<close> and \<open>MachObject\<close>.

  The theories, with the files under src/core they model:
    \<^item> CPrelude: integers, errors, memory, loops; the collections of lemmas the others use.
    \<^item> LnkUtil (lnk_util.cpp): \<open>read_uleb128\<close>, \<open>read_sleb128\<close>; they invert the encodings and stay
      inside the stream.
    \<^item> SymbolSearch (lnk_util.cpp): \<open>binary_search\<close>, \<open>binary_search_toc\<close>; they find the symbols of a
      sorted table.
    \<^item> ExportTrie (lnk_util.cpp): \<open>trie_walk\<close>; it finds exactly the names of a well-formed trie.
    \<^item> MachoImage (lnk_image.cpp, lnk_macho.cpp, macho.h): load commands, the fields of an image,
      segments, dependencies, names.
    \<^item> Rebase, Bootstrap (lnk_macho.cpp \<open>readRebase\<close>, lnk_bootstrap.cpp): the two interpreters of
      rebase opcodes against an abstract program of rebasings; they agree where the first accepts.
    \<^item> Symbols (lnk_macho.cpp): looking up an exported symbol in an image and its re-exports.
    \<^item> ImageChain, Bind, BindSpec (lnk.cpp \<open>resolve\<close>, lnk_macho.cpp \<open>bind\<close>, \<open>readBind\<close>,
      \<open>readWeakBind\<close>, \<open>readLazyBind\<close>): the chain of images, the flat search and the bind opcodes
      against an abstract program of bindings.
    \<^item> Classic (lnk_macho.cpp): relocation entries, indirect symbols, \<open>doRebase\<close>, \<open>doBindSymbols\<close>.
    \<^item> Loader (lnk.cpp, lnk_macho.cpp, lnk_mm.cpp): \<open>instantiateFromFile\<close>, \<open>parseLoadCommands\<close>,
      \<open>loadLibraryEx\<close>; the record \<open>lnk\<close> holds the globals of lnk.cpp.
    \<^item> LibraryChain: what loading keeps. The locale \<open>library_loader\<close> is the contract of the loader
      that \<open>parseLoadCommands\<close> calls back; \<open>parsing_loader\<close> extends it by what parsing leaves in an
      image; \<open>loadLibraryEx\<close> with any fuel is an instance of both.
    \<^item> Elf (lnk_elf.cpp, elf_format.h): loading an ELF object on the bytes of its file; its segments are
      mapped into the range reserved, and the first relocation ends the process.
    \<^item> Startup, InitOrder (lnk.cpp, lnk_cas.cpp, lnk_macho.cpp): \<open>bindChain\<close>, \<open>doInitialize\<close>,
      \<open>initializeChain\<close>, \<open>_main\<close>; the order initializers run in.
    \<^item> DyldApi (lnk_api.cpp): enumerating images, \<open>dladdr\<close>, \<open>dlopen\<close>, \<open>dlsym\<close>, handlers.
    \<^item> CrtArith, CrtWide, CrtDiv, CrtBits (CompilerRT): trapping arithmetic, double-word
      multiplication and comparison, division, bit counts, each routine at every width; the
      locale \<open>halves\<close> of CrtDiv is interpreted for 64 and for 128 bits.
    \<^item> Rand48 (_rand48.c and the routines that call it): the 48-bit linear congruence.
    \<^item> CType (ctypes_non_inline.c, table.c, toupper.c, tolower_.c): the character functions with
      their tables, against the ranges of ASCII.
    \<^item> Strtol (strtol.c, strtoul.c, strtoimax.c, strtoumax.c, strtoll.c, strtoull.c, atoi.c,
      atol.c): they read the number of an abstract numeral, clamped to the type; it uses CType.
    \<^item> Uuid (pack.c, unpack.c, parse.c, unparse.c, compare.c, copy.c, clear.c, isnull.c): packing and
      text invert each other; parsing reads with the \<open>strtoul\<close> of Strtol.
    \<^item> UuidGen (gen_uuid.c): the clock as a state of its static variables, and a run of the generator
      over a sequence of readings of the time; no identifier appears twice.
    \<^item> Inet (inet_aton.c, inet_addr.c, inet_ntoa.c, inet_pton.c, inet_ntop.c): what is printed is read
      as the address printed.
    \<^item> Qsort (qsort.c, bsearch.c): sorting and searching; the locale \<open>comparison\<close> is the contract of
      the function that compares, interpreted for the identifiers of Uuid.

  How the parts interact. The loader calls itself through \<open>parseLoadCommands\<close> and rebases what it
  has parsed; binding reads the chain the loader keeps; initialization relies on its
  dependencies being in the chain; \<open>dlopen\<close> composes the three. The invariant \<open>well_linked\<close> of
  LibraryChain is what they share.

  Fuel and bounds. The recursion of \<open>loadLibraryEx\<close> is bounded by fuel: as much as there are
  libraries that can be opened and are not loaded, and one more, is enough (LibraryChain). No
  other model has fuel. The arrays the code declares with a fixed size (64 segments, 128
  dependencies and re-exports, 1024 handlers and image records) are lists whose excess is an
  undefined step.

  Parameters. What the model takes from outside the repository is in the record \<open>kernel\<close>: opening
  and mapping a file, the value of an uninitialised local of \<open>parseLoadCommands\<close>, and what an
  initializer does to memory; for ELF objects the two uses of mmap are in \<open>elf_kernel\<close>. What \<open>initializeChain\<close> reads uninitialised and what a shift by the
  width or more yields in the division routines are arguments of the definitions.

  Not modelled. Log messages and the text of halts; reading and mapping files (open, read and
  mmap are parameters); initializers and handlers that call back into the linker; the runtime
  start-up and the tests \<open>_main\<close> calls; the debugging output of the linker; soft-float routines and assembly of the compiler
  runtime; the hardware address and the random bytes an identifier is made of, which are
  arguments; and the rest of the C library, most of it imported code (dlmalloc, threads over
  kernel primitives, time zones, floating point conversion, regular expressions, stdio, file
  trees, access control lists).
\<close>

end
